(* ===== verification/Sensitive.thy ===== *)
theory Sensitive
  imports Prelude "HOL-Library.Sublist"
begin

text \<open>
  The scanner of \<^verbatim>\<open>nexus-contracts/src/sensitive.rs\<close>, which every persistence path calls before it writes.
  A text is the list of its UTF-8 bytes. The Unicode tables behind \<^verbatim>\<open>str::to_lowercase\<close> enter as the
  function \<open>lc\<close>; everything else is byte arithmetic and is modelled as it is.
\<close>

section \<open>Verdicts and policies\<close>

datatype sensitive_kind = PrivateKeyPem | CloudCredential | ServiceToken | SecretKeyValue | HighEntropy

datatype disposition = Pass | Redact | Block

record scan_hit =
  hit_kind :: sensitive_kind
  marker :: string
  byte_offset :: nat

record scan_verdict =
  verdict_disposition :: disposition
  hits :: "scan_hit list"

definition is_blocked :: "scan_verdict \<Rightarrow> bool" where
  "is_blocked v = (verdict_disposition v = Block)"

definition is_clean :: "scan_verdict \<Rightarrow> bool" where
  "is_clean v = (hits v = [])"

record scan_policy =
  on_private_key :: disposition
  on_cloud_credential :: disposition
  on_service_token :: disposition
  on_secret_kv :: disposition
  on_high_entropy :: disposition

definition scan_policy_default :: scan_policy where
  "scan_policy_default =
     \<lparr>on_private_key = Block, on_cloud_credential = Block, on_service_token = Block,
      on_secret_kv = Redact, on_high_entropy = Redact\<rparr>"

definition PRIVATE_KEY_MARKERS :: "string list" where
  "PRIVATE_KEY_MARKERS = [''-----begin'', ''private key-----'']"

definition CLOUD_CRED_MARKERS :: "string list" where
  "CLOUD_CRED_MARKERS = [''akia'', ''asia'', ''aient'', ''aws_secret_access_key'', ''aws-access-key-id'']"

definition SERVICE_TOKEN_MARKERS :: "string list" where
  "SERVICE_TOKEN_MARKERS =
     [''ghp_'', ''gho_'', ''ghu_'', ''ghs_'', ''github_pat_'', ''xoxb-'', ''xoxp-'', ''xoxa-'', ''aiza'', ''sk-ant-'']"

definition SECRET_KEY_NAMES :: "string list" where
  "SECRET_KEY_NAMES =
     [''password'', ''passwd'', ''secret'', ''api_key'', ''apikey'', ''access_token'', ''auth_token'',
      ''refresh_token'', ''private_key'', ''client_secret'', ''bearer'']"

fun disposition_rank :: "disposition \<Rightarrow> nat" where
  "disposition_rank Pass = 0"
| "disposition_rank Redact = 1"
| "disposition_rank Block = 2"

section \<open>Tokens\<close>

definition is_ascii_whitespace :: "char \<Rightarrow> bool" where
  "is_ascii_whitespace c = (c \<in> set [CHR '' '', CHR 0x09, CHR 0x0A, CHR 0x0C, CHR 0x0D])"

function token_spans_from :: "nat \<Rightarrow> string \<Rightarrow> (string \<times> nat) list" where
  "token_spans_from i s =
     (if s = [] then []
      else (let ws = takeWhile is_ascii_whitespace s; rest = dropWhile is_ascii_whitespace s;
                tok = takeWhile (\<lambda>c. \<not> is_ascii_whitespace c) rest; start = i + length ws
            in if tok = [] then []
               else (tok, start) # token_spans_from (start + length tok) (dropWhile (\<lambda>c. \<not> is_ascii_whitespace c) rest)))"
  by pat_completeness auto

definition token_spans :: "string \<Rightarrow> (string \<times> nat) list" where
  "token_spans text = token_spans_from 0 text"

definition between :: "char \<Rightarrow> char \<Rightarrow> char \<Rightarrow> bool" where
  "between lo hi c = (of_char lo \<le> (of_char c :: nat) \<and> of_char c \<le> (of_char hi :: nat))"

definition is_symbol :: "char \<Rightarrow> bool" where
  "is_symbol c = (c \<in> set ''-_=+/'')"

definition count_bytes :: "(char \<Rightarrow> bool) \<Rightarrow> string \<Rightarrow> nat" where
  "count_bytes P s = length (filter P s)"

text \<open>
  The final floating-point test compares \<open>alnum\<close> with nine tenths of the length; it is only reached with
  \<open>other = 0\<close>, where both sides are exact multiples of the length.
\<close>

definition looks_high_entropy :: "string \<Rightarrow> bool" where
  "looks_high_entropy tok =
     (if length tok < 20 then False
      else (let lower = count_bytes (between CHR ''a'' CHR ''z'') tok; upper = count_bytes (between CHR ''A'' CHR ''Z'') tok;
                digit = count_bytes (between CHR ''0'' CHR ''9'') tok; symbol = count_bytes is_symbol tok;
                other = length tok - (lower + upper + digit + symbol);
                classes = length (filter (\<lambda>n. 0 < n) [lower, upper, digit, symbol]);
                alnum = lower + upper + digit + symbol
            in 2 \<le> classes \<and> other = 0 \<and> 9 * length tok \<le> 10 * alnum))"

section \<open>Scanning\<close>

fun find_from :: "nat \<Rightarrow> string \<Rightarrow> string \<Rightarrow> nat option" where
  "find_from i m [] = (if m = [] then Some i else None)"
| "find_from i m (c # s) = (if prefix m (c # s) then Some i else find_from (i + 1) m s)"

definition str_find :: "string \<Rightarrow> string \<Rightarrow> nat option" where
  "str_find s m = find_from 0 m s"

type_synonym scan_acc = "disposition \<times> scan_hit list"

definition bump :: "sensitive_kind \<Rightarrow> string \<Rightarrow> nat \<Rightarrow> disposition \<Rightarrow> scan_acc \<Rightarrow> scan_acc" where
  "bump k m i d acc =
     (let (worst, hs) = acc
      in (if disposition_rank worst < disposition_rank d then d else worst,
          hs @ [\<lparr>hit_kind = k, marker = m, byte_offset = i\<rparr>]))"

fun scan_markers :: "string \<Rightarrow> sensitive_kind \<Rightarrow> disposition \<Rightarrow> string list \<Rightarrow> scan_acc \<Rightarrow> scan_acc" where
  "scan_markers lower k d [] acc = acc"
| "scan_markers lower k d (m # ms) acc =
     scan_markers lower k d ms (case str_find lower m of Some i \<Rightarrow> bump k m i d acc | None \<Rightarrow> acc)"

fun scan_tokens :: "disposition \<Rightarrow> (string \<times> nat) list \<Rightarrow> scan_acc \<Rightarrow> scan_acc" where
  "scan_tokens d [] acc = acc"
| "scan_tokens d ((tok, start) # ts) acc =
     scan_tokens d ts (if looks_high_entropy tok then bump HighEntropy ''<token>'' start d acc else acc)"

definition scan :: "(string \<Rightarrow> string) \<Rightarrow> string \<Rightarrow> scan_policy \<Rightarrow> scan_verdict" where
  "scan lc text policy =
     (let lower = lc text;
          a1 = scan_markers lower PrivateKeyPem (on_private_key policy) PRIVATE_KEY_MARKERS (Pass, []);
          a2 = scan_markers lower CloudCredential (on_cloud_credential policy) CLOUD_CRED_MARKERS a1;
          a3 = scan_markers lower ServiceToken (on_service_token policy) SERVICE_TOKEN_MARKERS a2;
          a4 = scan_markers lower SecretKeyValue (on_secret_kv policy) SECRET_KEY_NAMES a3;
          a5 = scan_tokens (on_high_entropy policy) (token_spans text) a4
      in \<lparr>verdict_disposition = fst a5, hits = snd a5\<rparr>)"

fun mask_tokens :: "nat \<Rightarrow> (string \<times> nat) list \<Rightarrow> string" where
  "mask_tokens i [] = []"
| "mask_tokens i ((tok, start) # ts) =
     (if 0 < i then '' '' else []) @ (if looks_high_entropy tok then ''__REDACTED__'' else tok) @ mask_tokens (i + 1) ts"

definition mask_high_entropy_tokens :: "string \<Rightarrow> string" where
  "mask_high_entropy_tokens text = mask_tokens 0 (token_spans text)"

definition redact :: "(string \<Rightarrow> string) \<Rightarrow> string \<Rightarrow> scan_policy \<Rightarrow> string \<times> scan_verdict" where
  "redact lc text policy =
     (let v = scan lc text policy
      in case verdict_disposition v of
           Pass \<Rightarrow> (text, v)
         | Block \<Rightarrow> ([], v)
         | Redact \<Rightarrow> (mask_high_entropy_tokens text, v))"

termination token_spans_from
proof (relation "measure (length \<circ> snd)", simp)
  fix i s ws rest tok start
  assume "s \<noteq> []" and rest: "rest = dropWhile is_ascii_whitespace s"
    and tok: "tok = takeWhile (\<lambda>c. \<not> is_ascii_whitespace c) rest" "tok \<noteq> []"
  have "length (dropWhile (\<lambda>c. \<not> is_ascii_whitespace c) rest) < length rest"
    using tok by (metis append_eq_conv_conj length_append length_greater_0_conv less_add_same_cancel2 takeWhile_dropWhile_id)
  also have "\<dots> \<le> length s" unfolding rest by (rule length_dropWhile_le)
  finally show "((start + length tok, dropWhile (\<lambda>c. \<not> is_ascii_whitespace c) rest), i, s) \<in> measure (length \<circ> snd)"
    by simp
qed

declare token_spans_from.simps [simp del]

text \<open>The policy of the write points: block hard secrets, let the heuristics pass.\<close>

definition write_policy :: scan_policy where
  "write_policy = scan_policy_default\<lparr>on_high_entropy := Pass, on_secret_kv := Pass\<rparr>"

section \<open>Searching\<close>

lemma find_from_iff: "find_from i m s \<noteq> None \<longleftrightarrow> sublist m s"
  by (induction s arbitrary: i) (auto simp: sublist_Cons_right)

lemma find_from_position: "find_from i m s = Some j \<Longrightarrow> i \<le> j \<and> prefix m (drop (j - i) s)"
proof (induction s arbitrary: i)
  case (Cons c s)
  show ?case
  proof (cases "prefix m (c # s)")
    case False
    then have "Suc i \<le> j" "prefix m (drop (j - Suc i) s)" using Cons.IH [of "Suc i"] Cons.prems by simp_all
    moreover from this(1) have "j - i = Suc (j - Suc i)" by simp
    ultimately show ?thesis by simp
  qed (use Cons.prems in simp)
qed (simp split: if_splits)

section \<open>The aggregate is the worst hit\<close>

fun policy_of :: "scan_policy \<Rightarrow> sensitive_kind \<Rightarrow> disposition" where
  "policy_of p PrivateKeyPem = on_private_key p"
| "policy_of p CloudCredential = on_cloud_credential p"
| "policy_of p ServiceToken = on_service_token p"
| "policy_of p SecretKeyValue = on_secret_kv p"
| "policy_of p HighEntropy = on_high_entropy p"

definition worst_of :: "scan_policy \<Rightarrow> scan_acc \<Rightarrow> bool" where
  "worst_of p acc \<longleftrightarrow>
     (\<forall>h \<in> set (snd acc). disposition_rank (policy_of p (hit_kind h)) \<le> disposition_rank (fst acc)) \<and>
     (fst acc = Pass \<or> (\<exists>h \<in> set (snd acc). policy_of p (hit_kind h) = fst acc))"

lemma worst_of_bump: "worst_of p acc \<Longrightarrow> d = policy_of p k \<Longrightarrow> worst_of p (bump k m i d acc)"
  by (cases acc) (auto simp: worst_of_def bump_def)

lemma worst_of_markers: "worst_of p acc \<Longrightarrow> d = policy_of p k \<Longrightarrow> worst_of p (scan_markers lower k d ms acc)"
  by (induction ms arbitrary: acc) (auto simp: worst_of_bump split: option.splits)

lemma worst_of_tokens: "worst_of p acc \<Longrightarrow> worst_of p (scan_tokens (on_high_entropy p) ts acc)"
proof (induction ts arbitrary: acc)
  case (Cons t ts)
  then show ?case using worst_of_bump [of p acc _ HighEntropy] by (cases t) auto
qed simp

lemma worst_of_scan:
  "worst_of p (verdict_disposition (scan lc text p), hits (scan lc text p))"
proof -
  have "worst_of p (Pass, [])" by (simp add: worst_of_def)
  then show ?thesis
    by (simp add: scan_def Let_def worst_of_tokens worst_of_markers)
qed

lemma hits_markers:
  "set (snd (scan_markers lower k d ms acc)) = set (snd acc) \<union> {\<lparr>hit_kind = k, marker = m, byte_offset = i\<rparr> | m i. m \<in> set ms \<and> str_find lower m = Some i}"
proof (induction ms arbitrary: acc)
  case (Cons m ms)
  show ?case by (auto simp: Cons.IH bump_def split: option.splits prod.splits)
qed simp

lemma hits_tokens:
  "set (snd (scan_tokens d ts acc)) = set (snd acc) \<union> {\<lparr>hit_kind = HighEntropy, marker = ''<token>'', byte_offset = i\<rparr> | tok i. (tok, i) \<in> set ts \<and> looks_high_entropy tok}"
proof (induction ts arbitrary: acc)
  case (Cons t ts)
  show ?case by (cases t) (auto simp: Cons.IH bump_def split: prod.splits)
qed simp

section \<open>Tokens round trip\<close>

definition plain_token :: "string \<Rightarrow> bool" where
  "plain_token t \<longleftrightarrow> t \<noteq> [] \<and> (\<forall>c \<in> set t. \<not> is_ascii_whitespace c)"

lemma takeWhile_plain: "t = takeWhile (\<lambda>c. \<not> is_ascii_whitespace c) r \<Longrightarrow> t \<noteq> [] \<Longrightarrow> plain_token t"
  by (auto simp: plain_token_def dest: set_takeWhileD)

lemma token_spans_plain: "(t, j) \<in> set (token_spans_from i s) \<Longrightarrow> plain_token t"
proof (induction i s rule: token_spans_from.induct)
  case (1 i s)
  note IH = 1(1) [OF _ refl refl refl refl]
  from 1(2) show ?case
    by (subst (asm) token_spans_from.simps) (auto simp: Let_def split: if_splits intro: IH takeWhile_plain)
qed

fun join_tokens :: "string list \<Rightarrow> string" where
  "join_tokens [] = []"
| "join_tokens [t] = t"
| "join_tokens (t # u # ts) = t @ '' '' @ join_tokens (u # ts)"

lemma tokens_of_joined:
  "list_all plain_token ts \<Longrightarrow> map fst (token_spans_from i (join_tokens ts)) = ts"
proof (induction ts arbitrary: i rule: join_tokens.induct)
  case 1
  then show ?case by (simp add: token_spans_from.simps)
next
  case (2 t)
  then have t: "t \<noteq> []" "\<And>c. c \<in> set t \<Longrightarrow> \<not> is_ascii_whitespace c" by (auto simp: plain_token_def)
  then have d: "dropWhile is_ascii_whitespace t = t" by (cases t) auto
  have k: "takeWhile (\<lambda>c. \<not> is_ascii_whitespace c) t = t" "dropWhile (\<lambda>c. \<not> is_ascii_whitespace c) t = []"
    using t(2) by (simp_all add: takeWhile_eq_all_conv dropWhile_eq_Nil_conv)
  show ?case using t(1) by (subst token_spans_from.simps) (simp add: Let_def d k token_spans_from.simps)
next
  case (3 t u ts)
  let ?r = "'' '' @ join_tokens (u # ts)"
  have t: "t \<noteq> []" "\<forall>c \<in> set t. \<not> is_ascii_whitespace c" using 3(2) by (auto simp: plain_token_def)
  have "dropWhile is_ascii_whitespace (t @ ?r) = t @ ?r" using t by (cases t) auto
  moreover have "takeWhile (\<lambda>c. \<not> is_ascii_whitespace c) (t @ ?r) = t"
    "dropWhile (\<lambda>c. \<not> is_ascii_whitespace c) (t @ ?r) = ?r"
    using t by (simp_all add: is_ascii_whitespace_def)
  moreover have "map fst (token_spans_from j ?r) = u # ts" for j
  proof -
    have "u \<noteq> []" "\<forall>c \<in> set u. \<not> is_ascii_whitespace c" using 3(2) by (auto simp: plain_token_def)
    then have "join_tokens (u # ts) \<noteq> []" "dropWhile is_ascii_whitespace (join_tokens (u # ts)) = join_tokens (u # ts)"
      by (cases ts; cases u; auto)+
    then have "\<exists>k. token_spans_from j ?r = token_spans_from k (join_tokens (u # ts))"
      by (intro exI [of _ "Suc j"], subst (1 2) token_spans_from.simps) (simp add: Let_def is_ascii_whitespace_def)
    then show ?thesis using 3(1) 3(2) by auto
  qed
  ultimately show ?case using t(1) by (subst token_spans_from.simps) (simp add: Let_def)
qed

lemma mask_tokens_join:
  "mask_tokens i ts = (if 0 < i \<and> ts \<noteq> [] then '' '' else []) @
     join_tokens (map (\<lambda>(t, _). if looks_high_entropy t then ''__REDACTED__'' else t) ts)"
proof (induction ts arbitrary: i)
  case (Cons t ts)
  then show ?case by (cases t; cases ts) auto
qed simp

lemma masked_tokens:
  "map fst (token_spans (mask_high_entropy_tokens text)) =
     map (\<lambda>(t, _). if looks_high_entropy t then ''__REDACTED__'' else t) (token_spans text)"
proof -
  have "plain_token ''__REDACTED__''" by (simp add: plain_token_def is_ascii_whitespace_def)
  then have "list_all plain_token (map (\<lambda>(t, _). if looks_high_entropy t then ''__REDACTED__'' else t) (token_spans text))"
    using token_spans_plain by (fastforce simp: list_all_iff token_spans_def)
  then show ?thesis
    by (simp add: token_spans_def mask_high_entropy_tokens_def mask_tokens_join tokens_of_joined)
qed

section \<open>Properties\<close>

lemma redacted_not_high_entropy: "\<not> looks_high_entropy ''__REDACTED__''"
  by (simp add: looks_high_entropy_def)

lemma write_scan_blocks:
  "is_blocked (scan lc text write_policy) \<longleftrightarrow>
     (\<exists>m \<in> set (PRIVATE_KEY_MARKERS @ CLOUD_CRED_MARKERS @ SERVICE_TOKEN_MARKERS). sublist m (lc text))"
proof -
  let ?v = "scan lc text write_policy"
  have "is_blocked ?v \<longleftrightarrow> (\<exists>h \<in> set (hits ?v). policy_of write_policy (hit_kind h) = Block)"
    using worst_of_scan [of write_policy lc "text"]
    by (cases "verdict_disposition ?v") (auto simp: worst_of_def is_blocked_def)
  also have "\<dots> \<longleftrightarrow> (\<exists>m \<in> set (PRIVATE_KEY_MARKERS @ CLOUD_CRED_MARKERS @ SERVICE_TOKEN_MARKERS). str_find (lc text) m \<noteq> None)"
    by (simp add: scan_def Let_def hits_tokens hits_markers bex_Un write_policy_def scan_policy_default_def) fastforce
  finally show ?thesis by (simp only: str_find_def find_from_iff)
qed

lemma unmarked_not_blocked:
  assumes "set (lc t) \<inter> {CHR ''-'', CHR ''_'', CHR ''a''} = {}"
  shows "\<not> is_blocked (scan lc t write_policy)"
proof
  let ?ms = "PRIVATE_KEY_MARKERS @ CLOUD_CRED_MARKERS @ SERVICE_TOKEN_MARKERS"
  assume "is_blocked (scan lc t write_policy)"
  then obtain m where m: "m \<in> set ?ms" "sublist m (lc t)" unfolding write_scan_blocks by (rule bexE)
  have "list_all (list_ex (\<lambda>c. c \<in> set [CHR ''-'', CHR ''_'', CHR ''a''])) ?ms" by code_simp
  then have "list_ex (\<lambda>c. c \<in> set [CHR ''-'', CHR ''_'', CHR ''a'']) m" using m(1) unfolding list_all_iff by (rule bspec)
  then obtain c where "c \<in> set m" "c \<in> {CHR ''-'', CHR ''_'', CHR ''a''}" unfolding list_ex_iff by auto
  then show False using assms set_mono_sublist [OF m(2)] by blast
qed

text \<open>
  At the write points a text is blocked exactly when its lower-cased form contains one of the
  private-key, cloud-credential or service-token markers; neither named secrets nor high-entropy
  tokens ever block, and no marker is missed wherever it stands.
\<close>

theorem write_scan_blocks_iff_marker:
  "is_blocked (scan lc text write_policy) \<longleftrightarrow>
     (\<exists>m \<in> set (PRIVATE_KEY_MARKERS @ CLOUD_CRED_MARKERS @ SERVICE_TOKEN_MARKERS). sublist m (lc text))"
  by (rule write_scan_blocks)

theorem write_scan_blocks_iff_marker_witness:
  "is_blocked (scan id ''token ghp_abc'' write_policy) \<and> \<not> is_blocked (scan id ''password hunter2'' write_policy)"
  unfolding write_scan_blocks_iff_marker
  by (simp add: PRIVATE_KEY_MARKERS_def CLOUD_CRED_MARKERS_def SERVICE_TOKEN_MARKERS_def sublist_code)

text \<open>
  What a redacted text still says. When the verdict is \<^verbatim>\<open>Redact\<close>, the tokens of the stored text are
  those of the input in order with exactly the high-entropy ones replaced by the mask, so the stored
  text has no high-entropy token left and redacting it again changes nothing.
\<close>

theorem redact_masks_exactly_high_entropy:
  assumes "verdict_disposition (scan lc text p) = Redact"
  shows "map fst (token_spans (fst (redact lc text p))) =
           map (\<lambda>(t, _). if looks_high_entropy t then ''__REDACTED__'' else t) (token_spans text)
         \<and> (\<forall>t \<in> set (map fst (token_spans (fst (redact lc text p)))). \<not> looks_high_entropy t)
         \<and> mask_high_entropy_tokens (fst (redact lc text p)) = fst (redact lc text p)"
proof -
  have out: "fst (redact lc text p) = mask_high_entropy_tokens text"
    using assms by (simp add: redact_def Let_def)
  have no: "\<forall>t \<in> set (map fst (token_spans (mask_high_entropy_tokens text))). \<not> looks_high_entropy t"
    unfolding masked_tokens using redacted_not_high_entropy by (auto split: if_splits)
  have "map (\<lambda>(t, _). if looks_high_entropy t then ''__REDACTED__'' else t) (token_spans (mask_high_entropy_tokens text))
      = map fst (token_spans (mask_high_entropy_tokens text))"
    using no by (auto intro!: map_cong)
  then have "mask_high_entropy_tokens (mask_high_entropy_tokens text) = mask_high_entropy_tokens text"
    unfolding masked_tokens
    by (simp add: mask_high_entropy_tokens_def mask_tokens_join)
  then show ?thesis using no by (simp add: out masked_tokens)
qed

theorem redact_masks_exactly_high_entropy_witness:
  "map fst (token_spans (fst (redact id ''key aaaaaaaaaaaaaaaaaaa1'' scan_policy_default))) = [''key'', ''__REDACTED__'']"
proof -
  have *: "token_spans ''key aaaaaaaaaaaaaaaaaaa1'' = [(''key'', 0), (''aaaaaaaaaaaaaaaaaaa1'', 4)]"
    by (simp add: token_spans_def token_spans_from.simps is_ascii_whitespace_def)
  have h: "looks_high_entropy ''aaaaaaaaaaaaaaaaaaa1''" "\<not> looks_high_entropy ''key''"
    by (simp_all add: looks_high_entropy_def count_bytes_def between_def is_symbol_def)
  have "verdict_disposition (scan id ''key aaaaaaaaaaaaaaaaaaa1'' scan_policy_default) = Redact"
    by code_simp
  from redact_masks_exactly_high_entropy [OF this] show ?thesis by (simp add: * h)
qed

text \<open>
  A secret that is only recognised by the name of its key is reported as \<^verbatim>\<open>Redact\<close> but stored in full:
  with no high-entropy token in the text every token of the input, the secret value included, is in
  the output.
\<close>

theorem redact_stores_named_secrets:
  assumes "verdict_disposition (scan lc text p) = Redact"
    "\<forall>t \<in> set (map fst (token_spans text)). \<not> looks_high_entropy t"
  shows "map fst (token_spans (fst (redact lc text p))) = map fst (token_spans text)"
proof -
  have "fst (redact lc text p) = mask_high_entropy_tokens text"
    using assms(1) by (simp add: redact_def Let_def)
  then show ?thesis using assms(2) by (auto simp: masked_tokens intro!: map_cong)
qed

theorem redact_stores_named_secrets_witness:
  "let (out, v) = redact id ''config: password hunter2short'' scan_policy_default
   in verdict_disposition v = Redact \<and> map fst (token_spans out) = [''config:'', ''password'', ''hunter2short'']"
proof -
  let ?t = "''config: password hunter2short''"
  have *: "token_spans ?t = [(''config:'', 0), (''password'', 8), (''hunter2short'', 17)]"
    by (simp add: token_spans_def token_spans_from.simps is_ascii_whitespace_def)
  have h: "\<forall>t \<in> set (map fst (token_spans ?t)). \<not> looks_high_entropy t"
    by (simp add: * looks_high_entropy_def)
  have d: "verdict_disposition (scan id ?t scan_policy_default) = Redact"
    by code_simp
  from redact_stores_named_secrets [OF d h] d show ?thesis by (simp add: * redact_def)
qed

end
