(* ===== verification/Segment.thy ===== *)
theory Segment
  imports Sensitive
begin

text \<open>
  The append-only segment files of \<^verbatim>\<open>session-store/src/segment.rs\<close> over the types of
  \<^verbatim>\<open>session-store/src/types.rs\<close>: the record framing, the segment writer with its batch append, its
  rollback and its crash recovery, and the read-only reader. A file is its bytes and a position; a
  fault argument says where a write or an fsync fails. The JSON library and the Unicode conversions
  of the standard library are the fields of a \<open>codec\<close> record.
\<close>

section \<open>Types\<close>

type_synonym session_id = string
type_synonym segment_id = string

datatype offset = Offset (off_seq: nat) (off_row: nat)

text \<open>\<^verbatim>\<open>Ord for Offset\<close>: the sequence number first, then the row.\<close>

instantiation offset :: linorder
begin

definition less_eq_offset :: "offset \<Rightarrow> offset \<Rightarrow> bool" where
  "less_eq_offset a b \<longleftrightarrow> off_seq a < off_seq b \<or> off_seq a = off_seq b \<and> off_row a \<le> off_row b"

definition less_offset :: "offset \<Rightarrow> offset \<Rightarrow> bool" where
  "less_offset a b \<longleftrightarrow> off_seq a < off_seq b \<or> off_seq a = off_seq b \<and> off_row a < off_row b"

instance
  by standard (auto simp: less_eq_offset_def less_offset_def intro: offset.expand)

end

record graph_identity =
  goal_id :: string
  run_id :: string
  node_id :: string

record event_metadata =
  event_id :: string
  timestamp_ns :: int
  source :: string
  correlation_id :: "string option"
  payload_version :: u32
  graph_id :: "graph_identity option"
  trace_id :: "string option"

record session_event =
  metadata :: event_metadata
  event_type :: string
  payload :: "bytes option"

record segment_record =
  rec_seq :: nat
  rec_row :: nat
  rec_event :: session_event

datatype store_error =
    Io string
  | WalCorrupt string
  | OffsetMismatch nat nat
  | Sqlite string
  | Serialization string
  | Join string
  | LockPoisoned string
  | InvalidInput string
  | NotFound string
  | ForkViolation string

text \<open>\<^verbatim>\<open>serde_json::to_vec\<close>, \<^verbatim>\<open>serde_json::from_slice\<close>, \<^verbatim>\<open>String::from_utf8_lossy\<close> and \<^verbatim>\<open>str::to_lowercase\<close>.\<close>

record codec =
  to_vec :: "segment_record \<Rightarrow> (string, bytes) result"
  from_slice :: "bytes \<Rightarrow> (string, segment_record) result"
  utf8_lossy :: "bytes \<Rightarrow> string"
  to_lowercase :: "string \<Rightarrow> string"

definition file_stem :: "session_id \<Rightarrow> string" where
  "file_stem sid = map (\<lambda>c. if c \<in> set [CHR ''/'', CHR 0x5C, CHR '':'', CHR ''*'', CHR ''?'', CHR 0x22, CHR ''<'', CHR ''>'', CHR ''|'']
     then CHR ''~'' else c) sid"

section \<open>Framing\<close>

definition NEWLINE :: byte where
  "NEWLINE = 10"

definition frame :: "bytes \<Rightarrow> bytes" where
  "frame json = le_bytes 4 (length json) @ json @ [NEWLINE]"

definition unframe :: "bytes \<Rightarrow> (bytes \<times> bytes) option" where
  "unframe rest =
     (if length rest < 4 then None
      else (let len = from_le (take 4 rest)
            in if length rest < 4 + len + 1 then None
               else Some (take len (drop 4 rest), drop (4 + len + 1) rest)))"

section \<open>The writer\<close>

record segment_writer =
  seg_session :: session_id
  segment_index :: nat
  content :: bytes
  pos :: nat
  row :: nat
  next_seq :: nat
  first_seq :: nat
  last_fsync_ok :: bool

datatype io_fault = NoFault | WriteFails nat | SyncFails

definition rollback_batch :: "nat \<Rightarrow> nat \<Rightarrow> segment_writer \<Rightarrow> segment_writer" where
  "rollback_batch start_seq start_row w = w\<lparr>next_seq := start_seq, row := start_row, last_fsync_ok := False\<rparr>"

definition blocked_json :: "codec \<Rightarrow> bytes \<Rightarrow> bool" where
  "blocked_json cd json = is_blocked (scan (to_lowercase cd) (utf8_lossy cd json) write_policy)"

text \<open>The loop of \<^verbatim>\<open>append_batch\<close> over the events: the writer it leaves, and the buffer and offsets or the error.\<close>

fun encode_events ::
  "codec \<Rightarrow> nat \<Rightarrow> nat \<Rightarrow> segment_writer \<Rightarrow> session_event list \<Rightarrow> bytes \<Rightarrow> offset list \<Rightarrow>
   segment_writer \<times> (store_error, bytes \<times> offset list) result" where
  "encode_events cd s0 r0 w [] buf offs = (w, Inr (buf, offs))"
| "encode_events cd s0 r0 w (ev # evs) buf offs =
     (let off = Offset (next_seq w) (row w);
          record = \<lparr>rec_seq = next_seq w, rec_row = row w, rec_event = ev\<rparr>
      in case to_vec cd record of
           Inl e \<Rightarrow> (w, Inl (Serialization e))
         | Inr json \<Rightarrow>
             if blocked_json cd json then (rollback_batch s0 r0 w, Inl (InvalidInput ''sensitive payload''))
             else if u32_max < length json then (w, Inl (InvalidInput ''event JSON too long''))
             else encode_events cd s0 r0 (w\<lparr>next_seq := next_seq w + 1, row := row w + 1\<rparr>) evs
                    (buf @ frame json) (offs @ [off]))"

definition write_all :: "bytes \<Rightarrow> segment_writer \<Rightarrow> segment_writer" where
  "write_all buf w =
     w\<lparr>content := take (pos w) (content w) @ buf @ drop (pos w + length buf) (content w), pos := pos w + length buf\<rparr>"

definition append_batch ::
  "codec \<Rightarrow> segment_writer \<Rightarrow> session_event list \<Rightarrow> io_fault \<Rightarrow> segment_writer \<times> (store_error, offset list) result" where
  "append_batch cd w evs fault =
     (if evs = [] then (w, Inr [])
      else (let s0 = next_seq w; r0 = row w
            in case encode_events cd s0 r0 w evs [] [] of
                 (w1, Inl e) \<Rightarrow> (w1, Inl e)
               | (w1, Inr (buf, offs)) \<Rightarrow>
                   (case fault of
                      WriteFails k \<Rightarrow> (rollback_batch s0 r0 (write_all (take k buf) w1), Inl (Io ''write_all''))
                    | SyncFails \<Rightarrow> (rollback_batch s0 r0 (write_all buf w1), Inl (Io ''fsync''))
                    | NoFault \<Rightarrow> ((write_all buf w1)\<lparr>last_fsync_ok := True\<rparr>, Inr offs))))"

definition append :: "codec \<Rightarrow> segment_writer \<Rightarrow> session_event \<Rightarrow> io_fault \<Rightarrow> segment_writer \<times> (store_error, offset) result" where
  "append cd w ev fault =
     (case append_batch cd w [ev] fault of
        (w', Inl e) \<Rightarrow> (w', Inl e)
      | (w', Inr (off # _)) \<Rightarrow> (w', Inr off)
      | (w', Inr []) \<Rightarrow> (w', Inl (InvalidInput ''empty offset list'')))"

record segment_meta =
  meta_segment_id :: segment_id
  meta_session_id :: session_id
  meta_segment_index :: nat
  parent_segment_id :: "segment_id option"
  start_offset :: nat
  end_offset :: nat

definition meta :: "segment_writer \<Rightarrow> segment_id \<Rightarrow> segment_id option \<Rightarrow> segment_meta" where
  "meta w sid parent =
     \<lparr>meta_segment_id = sid, meta_session_id = seg_session w, meta_segment_index = segment_index w,
      parent_segment_id = parent, start_offset = first_seq w,
      end_offset = (if row w = 0 then first_seq w else next_seq w - 1)\<rparr>"

section \<open>Recovery and reading\<close>

text \<open>
  The scan of \<^verbatim>\<open>recover_tail\<close> over the unread bytes: it returns the end of the last complete record and the
  number of records.
\<close>

function recover_scan :: "codec \<Rightarrow> nat \<Rightarrow> bytes \<Rightarrow> nat \<Rightarrow> nat \<Rightarrow> (store_error, nat \<times> nat) result" where
  "recover_scan cd first rest complete_end r =
     (case unframe rest of
        None \<Rightarrow> Inr (complete_end, r)
      | Some (body, rest') \<Rightarrow>
          (case from_slice cd body of
             Inl e \<Rightarrow> Inl (WalCorrupt e)
           | Inr rec \<Rightarrow>
               if rec_seq rec \<noteq> first + r \<or> rec_row rec \<noteq> r then Inl (OffsetMismatch (first + r) (rec_seq rec))
               else recover_scan cd first rest' (complete_end + 4 + length body + 1) (r + 1)))"
  by pat_completeness auto

definition recover_tail :: "codec \<Rightarrow> segment_writer \<Rightarrow> (store_error, segment_writer) result" where
  "recover_tail cd w =
     (case recover_scan cd (first_seq w) (content w) 0 0 of
        Inl e \<Rightarrow> Inl e
      | Inr (complete_end, r) \<Rightarrow>
          Inr (w\<lparr>content := take complete_end (content w), pos := complete_end, row := r, next_seq := first_seq w + r\<rparr>))"

definition open_or_create ::
  "codec \<Rightarrow> session_id \<Rightarrow> nat \<Rightarrow> nat \<Rightarrow> bytes option \<Rightarrow> (store_error, segment_writer) result" where
  "open_or_create cd sid idx start_seq existing =
     recover_tail cd
       \<lparr>seg_session = sid, segment_index = idx, content = (case existing of None \<Rightarrow> [] | Some bs \<Rightarrow> bs), pos = 0,
        row = 0, next_seq = start_seq, first_seq = start_seq, last_fsync_ok = True\<rparr>"

record segment_reader =
  unread :: bytes
  rows_read :: nat

definition reader_open :: "bytes option \<Rightarrow> (store_error, segment_reader) result" where
  "reader_open existing =
     (case existing of None \<Rightarrow> Inl (NotFound ''segment file'') | Some bs \<Rightarrow> Inr \<lparr>unread = bs, rows_read = 0\<rparr>)"

definition next_record ::
  "codec \<Rightarrow> segment_reader \<Rightarrow> segment_reader \<times> (store_error, segment_record option) result" where
  "next_record cd rd =
     (case unframe (unread rd) of
        None \<Rightarrow> (rd\<lparr>unread := []\<rparr>, Inr None)
      | Some (body, rest) \<Rightarrow>
          (case from_slice cd body of
             Inl e \<Rightarrow> (rd\<lparr>unread := rest\<rparr>, Inl (WalCorrupt e))
           | Inr rec \<Rightarrow> (rd\<lparr>unread := rest, rows_read := rows_read rd + 1\<rparr>, Inr (Some rec))))"

text \<open>The loop \<^verbatim>\<open>while let Some(rec) = reader.next_record()?\<close> of the clients of the reader.\<close>

function read_all :: "codec \<Rightarrow> segment_reader \<Rightarrow> (store_error, segment_record list) result" where
  "read_all cd rd =
     (case next_record cd rd of
        (rd', Inl e) \<Rightarrow> Inl e
      | (rd', Inr None) \<Rightarrow> Inr []
      | (rd', Inr (Some rec)) \<Rightarrow>
          (case read_all cd rd' of Inl e \<Rightarrow> Inl e | Inr rs \<Rightarrow> Inr (rec # rs)))"
  by pat_completeness auto

lemma unframe_shrinks: "unframe bs = Some (b, r) \<Longrightarrow> length r < length bs"
  by (auto simp: unframe_def Let_def split: if_splits)

termination recover_scan
  by (relation "measure (\<lambda>(cd, first, rest, ce, r). length rest)") (auto dest: unframe_shrinks)

termination read_all
  by (relation "measure (\<lambda>(cd, rd). length (unread rd))")
     (auto simp: next_record_def split: option.splits sum.splits dest: unframe_shrinks)

declare recover_scan.simps [simp del] read_all.simps [simp del]

section \<open>The contract of a self-delimiting framing\<close>

text \<open>
  What recovery relies on: a frame is read back with whatever follows it, and no proper prefix of a
  frame is mistaken for a record. From this alone every torn tail is a whole number of frames
  followed by something unreadable.
\<close>

locale framing =
  fixes put :: "'b \<Rightarrow> 'a list"
    and get :: "'a list \<Rightarrow> ('b \<times> 'a list) option"
    and valid :: "'b \<Rightarrow> bool"
  assumes get_put: "valid b \<Longrightarrow> get (put b @ r) = Some (b, r)"
    and get_torn: "valid b \<Longrightarrow> k < length (put b) \<Longrightarrow> get (take k (put b)) = None"
    and get_Nil: "get [] = None"
begin

lemma torn_frames:
  assumes "\<forall>b \<in> set bs. valid b"
  shows "\<exists>n tail. n \<le> length bs \<and> take k (concat (map put bs)) = concat (map put (take n bs)) @ tail \<and> get tail = None"
  using assms
proof (induction bs arbitrary: k)
  case Nil
  then show ?case by (simp add: get_Nil)
next
  case (Cons b bs)
  show ?case
  proof (cases "k < length (put b)")
    case True
    then show ?thesis using Cons.prems get_torn [of b k] by (intro exI [of _ 0] exI [of _ "take k (put b)"]) simp
  next
    case False
    obtain n tail where "n \<le> length bs" "get tail = None"
      "take (k - length (put b)) (concat (map put bs)) = concat (map put (take n bs)) @ tail"
      using Cons.IH [of "k - length (put b)"] Cons.prems by auto
    with False show ?thesis by (intro exI [of _ "Suc n"] exI [of _ tail]) simp
  qed
qed

end

definition frame_ok :: "bytes \<Rightarrow> bool" where
  "frame_ok b \<longleftrightarrow> length b \<le> u32_max"

lemma length_frame [simp]: "length (frame b) = 4 + length b + 1"
  by (simp add: frame_def)

lemma frame_len: "frame_ok b \<Longrightarrow> from_le (le_bytes 4 (length b)) = length b"
  by (rule from_le_le_bytes) (simp add: frame_ok_def u32_max_def)

lemma unframe_frame: "frame_ok b \<Longrightarrow> unframe (frame b @ r) = Some (b, r)"
  using frame_len [of b] by (simp add: unframe_def frame_def)

lemma unframe_torn:
  assumes "frame_ok b" "k < length (frame b)"
  shows "unframe (take k (frame b)) = None"
proof (cases "k < 4")
  case True
  then show ?thesis by (simp add: unframe_def)
next
  case False
  then have "take 4 (take k (frame b)) = le_bytes 4 (length b)" by (simp add: frame_def min_def)
  with False assms frame_len [of b] show ?thesis by (simp add: unframe_def Let_def)
qed

interpretation segment_frames: framing frame unframe frame_ok
  by unfold_locales (simp_all add: unframe_frame unframe_torn, simp add: unframe_def)

section \<open>The file as a list of events\<close>

definition codec_ok :: "codec \<Rightarrow> bool" where
  "codec_ok cd \<longleftrightarrow> (\<forall>r bs. to_vec cd r = Inr bs \<longrightarrow> from_slice cd bs = Inr r)"

fun records_of :: "nat \<Rightarrow> nat \<Rightarrow> session_event list \<Rightarrow> segment_record list" where
  "records_of s r [] = []"
| "records_of s r (ev # evs) = \<lparr>rec_seq = s, rec_row = r, rec_event = ev\<rparr> # records_of (s + 1) (r + 1) evs"

definition body :: "codec \<Rightarrow> segment_record \<Rightarrow> bytes" where
  "body cd r = (case to_vec cd r of Inr bs \<Rightarrow> bs | Inl _ \<Rightarrow> [])"

definition encodable :: "codec \<Rightarrow> segment_record \<Rightarrow> bool" where
  "encodable cd r = (is_Ok (to_vec cd r) \<and> frame_ok (body cd r))"

definition file_of :: "codec \<Rightarrow> segment_record list \<Rightarrow> bytes" where
  "file_of cd rs = concat (map frame (map (body cd) rs))"

definition offset_of :: "segment_record \<Rightarrow> offset" where
  "offset_of r = Offset (rec_seq r) (rec_row r)"

text \<open>A writer that holds exactly the given events, all of them on disk.\<close>

definition seg_ok :: "codec \<Rightarrow> segment_writer \<Rightarrow> session_event list \<Rightarrow> bool" where
  "seg_ok cd w es \<longleftrightarrow>
     content w = file_of cd (records_of (first_seq w) 0 es) \<and> pos w = length (content w) \<and>
     row w = length es \<and> next_seq w = first_seq w + length es \<and>
     (\<forall>r \<in> set (records_of (first_seq w) 0 es). encodable cd r)"

lemma length_records_of [simp]: "length (records_of s r evs) = length evs"
  by (induction evs arbitrary: s r) auto

lemma records_of_append: "records_of s r (xs @ ys) = records_of s r xs @ records_of (s + length xs) (r + length xs) ys"
  by (induction xs arbitrary: s r) auto

lemma take_records_of: "take n (records_of s r evs) = records_of s r (take n evs)"
  by (induction evs arbitrary: s r n) (auto simp: take_Cons split: nat.splits)

lemma file_of_simps [simp]:
  "file_of cd [] = []" "file_of cd (r # rs) = frame (body cd r) @ file_of cd rs"
  "file_of cd (rs @ rs') = file_of cd rs @ file_of cd rs'"
  by (simp_all add: file_of_def)

lemma from_slice_body: "codec_ok cd \<Longrightarrow> encodable cd r \<Longrightarrow> from_slice cd (body cd r) = Inr r"
  by (auto simp: codec_ok_def encodable_def body_def is_Ok_def split: sum.splits)

lemma unframe_body: "encodable cd r \<Longrightarrow> unframe (frame (body cd r) @ tail) = Some (body cd r, tail)"
  by (simp add: encodable_def unframe_frame)

lemma torn_file:
  assumes "\<forall>r \<in> set rs. encodable cd r"
  obtains n tail where "n \<le> length rs" "take k (file_of cd rs) = file_of cd (take n rs) @ tail" "unframe tail = None"
proof -
  have "\<forall>b \<in> set (map (body cd) rs). frame_ok b" using assms by (auto simp: encodable_def)
  from segment_frames.torn_frames [OF this, of k] that show thesis
    by (auto simp: file_of_def take_map)
qed

section \<open>Appending\<close>

lemma encode_events_ok:
  "encode_events cd s0 r0 w evs buf offs = (w1, Inr (buf', offs')) \<Longrightarrow>
     w1 = w\<lparr>next_seq := next_seq w + length evs, row := row w + length evs\<rparr> \<and>
     buf' = buf @ file_of cd (records_of (next_seq w) (row w) evs) \<and>
     offs' = offs @ map offset_of (records_of (next_seq w) (row w) evs) \<and>
     (\<forall>r \<in> set (records_of (next_seq w) (row w) evs). encodable cd r \<and> \<not> blocked_json cd (body cd r))"
proof (induction evs arbitrary: w buf offs)
  case (Cons ev evs)
  let ?r = "\<lparr>rec_seq = next_seq w, rec_row = row w, rec_event = ev\<rparr>"
  obtain json where j: "to_vec cd ?r = Inr json" "\<not> blocked_json cd json" "\<not> u32_max < length json"
    using Cons.prems by (auto simp: Let_def split: sum.splits if_splits)
  have b: "body cd ?r = json" "encodable cd ?r" using j by (simp_all add: body_def encodable_def frame_ok_def)
  have "encode_events cd s0 r0 (w\<lparr>next_seq := next_seq w + 1, row := row w + 1\<rparr>) evs
      (buf @ frame json) (offs @ [offset_of ?r]) = (w1, Inr (buf', offs'))"
    using Cons.prems j by (simp add: offset_of_def)
  from Cons.IH [OF this] b j(2) show ?case by simp
qed simp

lemma encode_events_content: "encode_events cd s0 r0 w evs buf offs = (w1, r) \<Longrightarrow>
    content w1 = content w \<and> first_seq w1 = first_seq w \<and> pos w1 = pos w \<and> seg_session w1 = seg_session w"
proof (induction evs arbitrary: w buf offs)
  case (Cons ev evs)
  show ?case
    using Cons.prems Cons.IH [of "w\<lparr>next_seq := next_seq w + 1, row := row w + 1\<rparr>"]
    by (auto simp: Let_def rollback_batch_def split: sum.splits if_splits)
qed simp

lemma encode_events_error: "encode_events cd s0 r0 w evs buf offs = (w1, Inl e) \<Longrightarrow> \<forall>m. e \<noteq> Io m"
proof (induction evs arbitrary: w buf offs)
  case (Cons ev evs)
  show ?case
    using Cons.prems Cons.IH [of "w\<lparr>next_seq := next_seq w + 1, row := row w + 1\<rparr>"]
    by (auto simp: Let_def split: sum.splits if_splits)
qed simp

lemma write_at_end: "pos w = length (content w) \<Longrightarrow> write_all buf w = w\<lparr>content := content w @ buf, pos := length (content w) + length buf\<rparr>"
  by (simp add: write_all_def)

text \<open>The bytes a call of \<^verbatim>\<open>append_batch\<close> can leave behind its old content.\<close>

lemma append_batch_bytes:
  assumes "pos w = length (content w)" "append_batch cd w evs fault = (w', r)"
  obtains "content w' = content w" "first_seq w' = first_seq w"
  | j where "content w' = content w @ take j (file_of cd (records_of (next_seq w) (row w) evs))"
      "first_seq w' = first_seq w" "\<forall>x \<in> set (records_of (next_seq w) (row w) evs). encodable cd x"
      "\<forall>x \<in> set (records_of (next_seq w) (row w) evs). \<not> blocked_json cd (body cd x)"
proof (cases "evs = []")
  case True
  then show thesis using that(1) assms by (simp add: append_batch_def)
next
  case False
  obtain w1 q where e: "encode_events cd (next_seq w) (row w) w evs [] [] = (w1, q)" by force
  note same = encode_events_content [OF e]
  show thesis
  proof (cases q)
    case (Inl x)
    then show thesis using that(1) assms(2) e same False by (simp add: append_batch_def)
  next
    case (Inr y)
    obtain buf offs where y: "y = (buf, offs)" by force
    have enc: "buf = file_of cd (records_of (next_seq w) (row w) evs)"
      "\<forall>x \<in> set (records_of (next_seq w) (row w) evs). encodable cd x"
      "\<forall>x \<in> set (records_of (next_seq w) (row w) evs). \<not> blocked_json cd (body cd x)"
      using encode_events_ok e Inr y by fastforce+
    have wr: "content (write_all b w1) = content w @ b" "first_seq (write_all b w1) = first_seq w" for b
      using same assms(1) by (simp_all add: write_at_end)
    have "content w' = content w @ take (case fault of WriteFails k \<Rightarrow> k | _ \<Rightarrow> length buf) buf" "first_seq w' = first_seq w"
      using assms(2) e Inr y False wr
      by (auto simp: append_batch_def rollback_batch_def Let_def split: io_fault.splits)
    then show thesis using that(2) enc by blast
  qed
qed

lemma append_batch_success:
  assumes "append_batch cd w evs NoFault = (w', Inr offs)"
  shows "offs = map offset_of (records_of (next_seq w) (row w) evs) \<and>
     (\<forall>x \<in> set (records_of (next_seq w) (row w) evs). encodable cd x \<and> \<not> blocked_json cd (body cd x)) \<and>
     next_seq w' = next_seq w + length evs \<and> row w' = row w + length evs \<and> first_seq w' = first_seq w \<and>
     (pos w = length (content w) \<longrightarrow>
       content w' = content w @ file_of cd (records_of (next_seq w) (row w) evs) \<and> pos w' = length (content w'))"
proof (cases "evs = []")
  case True
  then show ?thesis using assms by (auto simp: append_batch_def)
next
  case False
  obtain w1 q where e: "encode_events cd (next_seq w) (row w) w evs [] [] = (w1, q)" by force
  then obtain buf where q: "q = Inr (buf, offs)" "w' = (write_all buf w1)\<lparr>last_fsync_ok := True\<rparr>"
    using assms False by (auto simp: append_batch_def split: sum.splits)
  note ok = encode_events_ok [OF e [unfolded q(1)]]
  with q(2) show ?thesis by (auto simp: write_all_def)
qed

section \<open>Recovering\<close>

lemma recover_scan_file:
  assumes "codec_ok cd" "\<forall>x \<in> set (records_of (first + r) r evs). encodable cd x"
  shows "recover_scan cd first (file_of cd (records_of (first + r) r evs) @ tail) ce r =
         recover_scan cd first tail (ce + length (file_of cd (records_of (first + r) r evs))) (r + length evs)"
  using assms(2)
proof (induction evs arbitrary: r ce)
  case (Cons ev evs)
  let ?x = "\<lparr>rec_seq = first + r, rec_row = r, rec_event = ev\<rparr>"
  have x: "encodable cd ?x" using Cons.prems by simp
  have "recover_scan cd first (frame (body cd ?x) @ (file_of cd (records_of (first + (r + 1)) (r + 1) evs) @ tail)) ce r =
      recover_scan cd first (file_of cd (records_of (first + (r + 1)) (r + 1) evs) @ tail) (ce + 4 + length (body cd ?x) + 1) (r + 1)"
    by (subst recover_scan.simps) (simp add: unframe_body [OF x] from_slice_body [OF assms(1) x] del: length_frame)
  with Cons.IH [of "r + 1"] Cons.prems show ?case by (simp add: ac_simps)
qed simp

lemma recover_scan_end: "unframe tail = None \<Longrightarrow> recover_scan cd first tail ce r = Inr (ce, r)"
  by (subst recover_scan.simps) simp

text \<open>Opening a file that is some events followed by an unreadable tail keeps exactly those events.\<close>

lemma open_torn:
  assumes "codec_ok cd" "\<forall>x \<in> set (records_of start 0 evs). encodable cd x" "unframe tail = None"
  shows "\<exists>w. open_or_create cd sid idx start (Some (file_of cd (records_of start 0 evs) @ tail)) = Inr w \<and>
             seg_ok cd w evs \<and> first_seq w = start"
  using assms recover_scan_file [of cd start 0 evs tail 0]
  by (simp add: open_or_create_def recover_tail_def recover_scan_end seg_ok_def)

lemma open_conflict:
  assumes "codec_ok cd" "\<forall>x \<in> set (records_of start 0 evs). encodable cd x" "encodable cd y"
    "rec_seq y \<noteq> start + length evs"
  shows "open_or_create cd sid idx start (Some (file_of cd (records_of start 0 evs) @ file_of cd (y # ys))) =
         Inl (OffsetMismatch (start + length evs) (rec_seq y))"
proof -
  have "recover_scan cd start (file_of cd (y # ys)) ce (length evs) = Inl (OffsetMismatch (start + length evs) (rec_seq y))" for ce
    using assms(4) by (subst recover_scan.simps) (simp add: unframe_body [OF assms(3)] from_slice_body [OF assms(1,3)])
  then show ?thesis
    using assms(1,2) recover_scan_file [of cd start 0 evs "file_of cd (y # ys)" 0]
    by (simp add: open_or_create_def recover_tail_def)
qed

lemma read_all_file:
  assumes "codec_ok cd" "\<forall>x \<in> set rs. encodable cd x" "unframe tail = None"
  shows "read_all cd \<lparr>unread = file_of cd rs @ tail, rows_read = n\<rparr> = Inr rs"
  using assms(2)
proof (induction rs arbitrary: n)
  case Nil
  then show ?case using assms(3) by (subst read_all.simps) (simp add: next_record_def)
next
  case (Cons x xs)
  then have x: "encodable cd x" by simp
  show ?case
    using Cons by (subst read_all.simps) (simp add: next_record_def unframe_body [OF x] from_slice_body [OF assms(1) x])
qed

section \<open>A concrete codec\<close>

text \<open>
  A fixed-width encoding of the records without payload whose metadata is \<open>plain_metadata\<close>, used to
  show that the hypotheses on the JSON library can hold.
\<close>

definition plain_metadata :: event_metadata where
  "plain_metadata = \<lparr>event_id = ''e'', timestamp_ns = 0, source = ''session-store'', correlation_id = None,
     payload_version = 1, graph_id = None, trace_id = None\<rparr>"

definition plain_event :: "string \<Rightarrow> session_event" where
  "plain_event t = \<lparr>metadata = plain_metadata, event_type = t, payload = None\<rparr>"

definition text_of :: "bytes \<Rightarrow> string" where
  "text_of bs = map (\<lambda>b. char_of (unat b)) bs"

definition plain_to_vec :: "segment_record \<Rightarrow> (string, bytes) result" where
  "plain_to_vec r =
     (if rec_event r = plain_event (event_type (rec_event r)) \<and> rec_seq r < 256 ^ 8 \<and> rec_row r < 256 ^ 8
      then Inr (le_bytes 8 (rec_seq r) @ le_bytes 8 (rec_row r) @ map (\<lambda>c. of_nat (of_char c)) (event_type (rec_event r)))
      else Inl ''unsupported'')"

definition plain_from_slice :: "bytes \<Rightarrow> (string, segment_record) result" where
  "plain_from_slice bs =
     (if length bs < 16 then Inl ''short''
      else Inr \<lparr>rec_seq = from_le (take 8 bs), rec_row = from_le (take 8 (drop 8 bs)),
                rec_event = plain_event (text_of (drop 16 bs))\<rparr>)"

definition plain_codec :: codec where
  "plain_codec = \<lparr>to_vec = plain_to_vec, from_slice = plain_from_slice, utf8_lossy = text_of, to_lowercase = id\<rparr>"

lemma text_of_chars: "text_of (map (\<lambda>c. of_nat (of_char c)) t) = t"
proof -
  have "char_of (unat (of_nat (of_char c) :: byte)) = c" for c :: char
    by (simp add: unat_of_nat)
  then show ?thesis by (simp add: text_of_def comp_def)
qed

lemma plain_codec_ok: "codec_ok plain_codec"
proof -
  have "plain_from_slice bs = Inr r" if "plain_to_vec r = Inr bs" for r bs
  proof -
    have bs: "bs = le_bytes 8 (rec_seq r) @ le_bytes 8 (rec_row r) @ map (\<lambda>c. of_nat (of_char c)) (event_type (rec_event r))"
      and r: "rec_event r = plain_event (event_type (rec_event r))" "rec_seq r < 256 ^ 8" "rec_row r < 256 ^ 8"
      using that by (auto simp: plain_to_vec_def split: if_splits)
    show ?thesis using r by (simp add: plain_from_slice_def bs from_le_le_bytes text_of_chars)
  qed
  then show ?thesis by (simp add: codec_ok_def plain_codec_def)
qed

definition demo_writer :: segment_writer where
  "demo_writer = \<lparr>seg_session = ''s'', segment_index = 0, content = [], pos = 0, row = 0, next_seq = 7, first_seq = 7,
     last_fsync_ok = True\<rparr>"

lemma demo_writer_fields [simp]:
  "first_seq demo_writer = 7" "next_seq demo_writer = 7" "row demo_writer = 0" "content demo_writer = []"
  by (simp_all add: demo_writer_def)

lemma demo_writer_ok: "seg_ok cd demo_writer []"
  by (simp add: seg_ok_def demo_writer_def)

lemma plain_not_blocked:
  assumes "set t \<inter> {CHR ''-'', CHR ''_'', CHR ''a''} = {}" "s < 45" "r < 45"
  shows "\<not> blocked_json plain_codec (body plain_codec \<lparr>rec_seq = s, rec_row = r, rec_event = plain_event t\<rparr>)"
proof -
  have n: "char_of (v mod 256) \<noteq> CHR ''-''" "char_of (v mod 256) \<noteq> CHR ''_''" "char_of (v mod 256) \<noteq> CHR ''a''"
    if "v < 45" for v :: nat
    using that by (auto dest!: arg_cong [where f = "of_char :: char \<Rightarrow> nat"])
  have "set (text_of (le_bytes n v)) \<inter> {CHR ''-'', CHR ''_'', CHR ''a''} = {}" if "v < 45" for n v
    using that
  proof (induction n arbitrary: v)
    case (Suc k)
    have "v div 256 < 45" using Suc.prems by simp
    with Suc.IH n [OF Suc.prems] show ?case by (simp add: text_of_def)
  qed (simp add: text_of_def)
  moreover have "text_of (a @ b) = text_of a @ text_of b" for a b by (simp add: text_of_def)
  ultimately show ?thesis
    using assms unfolding blocked_json_def
    by (intro unmarked_not_blocked)
       (auto simp: plain_codec_def body_def plain_to_vec_def plain_event_def text_of_chars)
qed

lemma plain_append:
  assumes "set t \<inter> {CHR ''-'', CHR ''_'', CHR ''a''} = {}" "next_seq w < 45" "row w < 45" "length t < 100"
  shows "append_batch plain_codec w [plain_event t] fault =
    (let x = \<lparr>rec_seq = next_seq w, rec_row = row w, rec_event = plain_event t\<rparr>;
         buf = frame (body plain_codec x); w1 = w\<lparr>next_seq := next_seq w + 1, row := row w + 1\<rparr>
     in case fault of
          WriteFails k \<Rightarrow> (rollback_batch (next_seq w) (row w) (write_all (take k buf) w1), Inl (Io ''write_all''))
        | SyncFails \<Rightarrow> (rollback_batch (next_seq w) (row w) (write_all buf w1), Inl (Io ''fsync''))
        | NoFault \<Rightarrow> ((write_all buf w1)\<lparr>last_fsync_ok := True\<rparr>, Inr [offset_of x]))"
proof -
  let ?x = "\<lparr>rec_seq = next_seq w, rec_row = row w, rec_event = plain_event t\<rparr>"
  have v: "to_vec plain_codec ?x = Inr (body plain_codec ?x)" "length (body plain_codec ?x) = 16 + length t"
    using assms(2,3) by (simp_all add: plain_codec_def body_def plain_to_vec_def plain_event_def)
  have "\<not> u32_max < length (body plain_codec ?x)" using v(2) assms(4) by (simp add: u32_max_def)
  then show ?thesis
    using v(1) plain_not_blocked [OF assms(1-3)] by (cases fault) (simp_all add: append_batch_def Let_def offset_of_def)
qed

section \<open>Properties\<close>

text \<open>
  A successful batch extends the segment by exactly its events: the file gains their frames in
  order, each event gets the next sequence number and row, nothing blocked is written, and the
  writer again holds exactly what is on disk.
\<close>

theorem append_batch_extends_segment:
  assumes "seg_ok cd w es" "append_batch cd w evs NoFault = (w', Inr offs)"
  shows "seg_ok cd w' (es @ evs) \<and>
    offs = map (\<lambda>i. Offset (next_seq w + i) (row w + i)) [0..<length evs] \<and>
    (\<forall>x \<in> set (records_of (next_seq w) (row w) evs). \<not> blocked_json cd (body cd x))"
proof -
  note a = append_batch_success [OF assms(2)]
  have "map offset_of (records_of s r evs) = map (\<lambda>i. Offset (s + i) (r + i)) [0..<length evs]" for s r
  proof (induction evs arbitrary: s r)
    case (Cons e es)
    have "[0..<length (e # es)] = 0 # map Suc [0..<length es]" by (simp add: map_Suc_upt upt_conv_Cons del: upt_Suc)
    then show ?case using Cons.IH [of "s + 1" "r + 1"] by (simp add: offset_of_def comp_def)
  qed simp
  then show ?thesis
    using assms(1) a by (auto simp: seg_ok_def records_of_append)
qed

theorem append_batch_extends_segment_witness:
  "snd (append_batch plain_codec demo_writer [plain_event ''hi''] NoFault) = Inr [Offset 7 0] \<and>
   seg_ok plain_codec (fst (append_batch plain_codec demo_writer [plain_event ''hi''] NoFault)) [plain_event ''hi'']"
proof -
  obtain w' where "append_batch plain_codec demo_writer [plain_event ''hi''] NoFault = (w', Inr [Offset 7 0])"
    using plain_append [of "''hi''" demo_writer NoFault] by (simp add: demo_writer_def offset_of_def)
  with append_batch_extends_segment [OF demo_writer_ok this] show ?thesis by simp
qed

text \<open>Any cut behind the old content leaves the old events, a prefix of the new ones, and an unreadable rest.\<close>

lemma torn_append:
  assumes "seg_ok cd w es" "append_batch cd w evs fault = (w', r)" "length (content w) \<le> k"
  shows "\<exists>m tail. m \<le> length evs \<and> take k (content w') = file_of cd (records_of (first_seq w) 0 (es @ take m evs)) @ tail \<and>
    unframe tail = None \<and> (\<forall>x \<in> set (records_of (first_seq w) 0 (es @ take m evs)). encodable cd x) \<and>
    (is_Ok r \<and> length (content w') \<le> k \<longrightarrow> m = length evs)"
proof -
  let ?old = "records_of (first_seq w) 0 es" and ?new = "records_of (next_seq w) (row w) evs"
  have w: "content w = file_of cd ?old" "pos w = length (content w)" "\<forall>x \<in> set ?old. encodable cd x"
    "records_of (first_seq w) 0 (es @ take m evs) = ?old @ take m ?new" for m
    using assms(1) by (simp_all add: seg_ok_def records_of_append take_records_of)
  have nil: "unframe [] = None" by (simp add: unframe_def)
  show ?thesis
  proof (cases "is_Ok r \<and> length (content w') \<le> k")
    case True
    then obtain offs where "append_batch cd w evs NoFault = (w', Inr offs)"
      using assms(2) by (cases fault; cases r; auto simp: append_batch_def Let_def split: sum.splits prod.splits if_splits)
    then have "content w' = file_of cd (?old @ take (length evs) ?new)" "\<forall>x \<in> set ?new. encodable cd x"
      using append_batch_success [of cd w evs w' offs] w(1,2) by auto
    with True w(1-3) w(4) [of "length evs"] nil show ?thesis by (intro exI [of _ "length evs"] exI [of _ "[]"]) auto
  next
    case False
    from w(2) assms(2) show ?thesis
    proof (cases rule: append_batch_bytes)
      case 1
      with False w nil assms(3) show ?thesis by (intro exI [of _ 0] exI [of _ "[]"]) auto
    next
      case (2 j)
      obtain n tail where n: "n \<le> length ?new" "unframe tail = None"
        "take (min (k - length (content w)) j) (file_of cd ?new) = file_of cd (take n ?new) @ tail"
        using torn_file [OF 2(3)] by metis
      have "take k (content w') = file_of cd (?old @ take n ?new) @ tail" using 2(1) n(3) assms(3) by (simp add: w(1))
      with False n(1,2) 2(3) w(3,4) show ?thesis by (intro exI [of _ n] exI [of _ tail]) (auto dest: in_set_takeD)
    qed
  qed
qed

text \<open>
  C1: crash safety. Let a batch be appended to a segment, with or without an IO fault, and let the
  machine stop when any part of the newly written bytes has reached the disk. Reopening the file
  succeeds and finds every event acknowledged before, followed by a prefix of the batch; if the
  append had returned successfully, the whole batch.
\<close>

theorem crash_recovery:
  assumes "codec_ok cd" "seg_ok cd w es" "append_batch cd w evs fault = (w', r)" "length (content w) \<le> k"
  shows "\<exists>m w2. m \<le> length evs \<and> open_or_create cd sid idx (first_seq w) (Some (take k (content w'))) = Inr w2 \<and>
           seg_ok cd w2 (es @ take m evs) \<and> (is_Ok r \<and> length (content w') \<le> k \<longrightarrow> m = length evs)"
proof -
  obtain m tail where m: "m \<le> length evs" "take k (content w') = file_of cd (records_of (first_seq w) 0 (es @ take m evs)) @ tail"
    "unframe tail = None" "\<forall>x \<in> set (records_of (first_seq w) 0 (es @ take m evs)). encodable cd x"
    "is_Ok r \<and> length (content w') \<le> k \<longrightarrow> m = length evs"
    using torn_append [OF assms(2-4)] by blast
  show ?thesis unfolding m(2) using open_torn [OF assms(1) m(4,3), of sid idx] m(1,5) by blast
qed

theorem crash_recovery_witness:
  "\<exists>m w2. m \<le> 1 \<and> open_or_create plain_codec ''s'' 0 7
     (Some (take 9 (content (fst (append_batch plain_codec demo_writer [plain_event ''hi''] NoFault))))) = Inr w2 \<and>
     seg_ok plain_codec w2 (take m [plain_event ''hi''])"
proof -
  obtain w' r where a: "append_batch plain_codec demo_writer [plain_event ''hi''] NoFault = (w', r)" by force
  from crash_recovery [OF plain_codec_ok demo_writer_ok a, of 9 "''s''" 0] show ?thesis
    by (auto simp: a)
qed



text \<open>
  After a failed fsync the writer must not be used again. The rollback restores the counters but
  not the file, which already holds the batch; the next successful append then writes its events
  under sequence numbers that are taken, and from that moment the segment can no longer be opened:
  recovery reports \<^verbatim>\<open>OffsetMismatch\<close>, and the acknowledged events behind the conflict are unreachable.
\<close>

theorem append_after_failed_fsync_corrupts:
  assumes "codec_ok cd" "seg_ok cd w es" "evs \<noteq> []" "evs2 \<noteq> []"
    "append_batch cd w evs SyncFails = (w1, Inl (Io e))" "append_batch cd w1 evs2 NoFault = (w2, Inr offs)"
  shows "open_or_create cd sid idx (first_seq w) (Some (content w2)) =
         Inl (OffsetMismatch (first_seq w + length es + length evs) (first_seq w + length es))"
proof -
  let ?old = "records_of (first_seq w) 0 (es @ evs)"
  obtain v q where enc: "encode_events cd (next_seq w) (row w) w evs [] [] = (v, q)" by force
  obtain buf os where q: "q = Inr (buf, os)" "w1 = rollback_batch (next_seq w) (row w) (write_all buf v)"
    using assms(3,5) enc encode_events_error [of cd "next_seq w" "row w" w evs "[]" "[]" v]
    by (auto simp: append_batch_def Let_def split: sum.splits)
  note ok = encode_events_ok [OF enc [unfolded q(1)]]
  have w: "content w = file_of cd (records_of (first_seq w) 0 es)" "pos w = length (content w)"
    "row w = length es" "next_seq w = first_seq w + length es" "\<forall>x \<in> set (records_of (first_seq w) 0 es). encodable cd x"
    using assms(2) by (simp_all add: seg_ok_def)
  have w1: "content w1 = file_of cd ?old" "pos w1 = length (content w1)" "next_seq w1 = next_seq w" "row w1 = row w"
    using ok w by (simp_all add: q(2) rollback_batch_def write_all_def records_of_append)
  have old: "\<forall>x \<in> set ?old. encodable cd x" using ok w by (auto simp: records_of_append)
  obtain ev rest where e2: "evs2 = ev # rest" using assms(4) by (cases evs2) auto
  let ?y = "\<lparr>rec_seq = next_seq w, rec_row = row w, rec_event = ev\<rparr>"
  have s: "content w2 = file_of cd ?old @ file_of cd (?y # records_of (next_seq w + 1) (row w + 1) rest)" "encodable cd ?y"
    using append_batch_success [OF assms(6)] w1 by (simp_all add: e2)
  have "rec_seq ?y \<noteq> first_seq w + length (es @ evs)" using w assms(3) by simp
  from open_conflict [OF assms(1) old s(2) this] show ?thesis by (simp add: s(1) w(4) add.assoc)
qed

theorem append_after_failed_fsync_corrupts_witness:
  "let w1 = fst (append_batch plain_codec demo_writer [plain_event ''hi''] SyncFails);
       w2 = fst (append_batch plain_codec w1 [plain_event ''ho''] NoFault)
   in open_or_create plain_codec ''s'' 0 7 (Some (content w2)) = Inl (OffsetMismatch 8 7)"
proof -
  obtain w1 where w1: "append_batch plain_codec demo_writer [plain_event ''hi''] SyncFails = (w1, Inl (Io ''fsync''))"
    and c: "next_seq w1 = 7" "row w1 = 0"
    using plain_append [of "''hi''" demo_writer SyncFails] by (simp add: demo_writer_def rollback_batch_def write_all_def Let_def)
  obtain w2 offs where w2: "append_batch plain_codec w1 [plain_event ''ho''] NoFault = (w2, Inr offs)"
    using plain_append [of "''ho''" w1 NoFault] by (simp add: c Let_def)
  from append_after_failed_fsync_corrupts [OF plain_codec_ok demo_writer_ok _ _ w1 w2, of "''s''" 0] show ?thesis
    by (simp add: w1 w2 Let_def)
qed

text \<open>
  An error of the JSON encoder, or a record too long for its prefix, leaves the counters advanced
  over events that were never written. If the writer is used again the file has a gap in its sequence
  numbers and can no longer be opened.
\<close>

theorem encoder_error_leaves_gap:
  assumes "codec_ok cd" "seg_ok cd w es" "append_batch cd w evs fault = (w1, Inl e)" "next_seq w1 \<noteq> next_seq w"
    "append_batch cd w1 evs2 NoFault = (w2, Inr offs)" "evs2 \<noteq> []"
  shows "open_or_create cd sid idx (first_seq w) (Some (content w2)) =
         Inl (OffsetMismatch (first_seq w + length es) (next_seq w1))"
proof -
  obtain v q where enc: "encode_events cd (next_seq w) (row w) w evs [] [] = (v, q)" by force
  have "w1 = v"
    using assms(3,4) enc by (auto simp: append_batch_def rollback_batch_def Let_def split: sum.splits if_splits io_fault.splits)
  then have w1: "content w1 = content w" "pos w1 = pos w" using encode_events_content [OF enc] by simp_all
  have w: "content w = file_of cd (records_of (first_seq w) 0 es)" "pos w = length (content w)"
    "next_seq w = first_seq w + length es" "\<forall>x \<in> set (records_of (first_seq w) 0 es). encodable cd x"
    using assms(2) by (simp_all add: seg_ok_def)
  obtain ev rest where e2: "evs2 = ev # rest" using assms(6) by (cases evs2) auto
  let ?y = "\<lparr>rec_seq = next_seq w1, rec_row = row w1, rec_event = ev\<rparr>"
  have s: "content w2 = content w @ file_of cd (?y # records_of (next_seq w1 + 1) (row w1 + 1) rest)" "encodable cd ?y"
    using append_batch_success [OF assms(5)] w1 w(2) by (simp_all add: e2)
  have "rec_seq ?y \<noteq> first_seq w + length es" using assms(4) w(3) by simp
  from open_conflict [OF assms(1) w(4) s(2) this] show ?thesis by (simp add: s(1) w(1))
qed

theorem encoder_error_leaves_gap_witness:
  "let bad = (plain_event ''bo'')\<lparr>payload := Some []\<rparr>;
       w1 = fst (append_batch plain_codec demo_writer [plain_event ''hi'', bad] NoFault);
       w2 = fst (append_batch plain_codec w1 [plain_event ''ho''] NoFault)
   in open_or_create plain_codec ''s'' 0 7 (Some (content w2)) = Inl (OffsetMismatch 7 8)"
proof -
  let ?bad = "(plain_event ''bo'')\<lparr>payload := Some []\<rparr>"
  let ?x = "\<lparr>rec_seq = 7, rec_row = 0, rec_event = plain_event ''hi''\<rparr>"
  have v: "to_vec plain_codec ?x = Inr (body plain_codec ?x)" "length (body plain_codec ?x) = 18"
    by (simp_all add: plain_codec_def body_def plain_to_vec_def plain_event_def)
  have nb: "\<not> blocked_json plain_codec (body plain_codec ?x)" by (rule plain_not_blocked) simp_all
  have "is_Ok (to_vec plain_codec \<lparr>rec_seq = 8, rec_row = Suc 0, rec_event = ?bad\<rparr>) = False"
    by (simp add: plain_codec_def plain_to_vec_def plain_event_def)
  then obtain e where e: "to_vec plain_codec \<lparr>rec_seq = 8, rec_row = Suc 0, rec_event = ?bad\<rparr> = Inl e"
    by (auto simp: is_Ok_def split: sum.splits)
  obtain w1 where w1: "append_batch plain_codec demo_writer [plain_event ''hi'', ?bad] NoFault = (w1, Inl (Serialization e))"
    and c: "next_seq w1 = 8" "row w1 = 1"
    using v nb e by (simp add: append_batch_def demo_writer_def Let_def u32_max_def)
  obtain w2 offs where w2: "append_batch plain_codec w1 [plain_event ''ho''] NoFault = (w2, Inr offs)"
    using plain_append [of "''ho''" w1 NoFault] by (simp add: c Let_def)
  from encoder_error_leaves_gap [OF plain_codec_ok demo_writer_ok w1 _ w2, of "''s''" 0] show ?thesis
    by (simp add: w1 w2 c Let_def)
qed

end
