(* ===== verification/Session_Tree.thy ===== *)
theory Session_Tree
  imports Segment "HOL-Library.List_Lexorder" "HOL-Library.Char_ord"
begin

text \<open>
  The tree index of \<^verbatim>\<open>session-store/src/tree.rs\<close>: the two SQLite tables \<open>segments\<close> and \<open>events\<close>, forks
  without copies, reading back, the lineage queries and the rebuild of the index from the segment
  files. A table is the list of its rows in the order of insertion, which is also the order in which rows
  that tie in an \<^verbatim>\<open>ORDER BY\<close> are returned; a transaction that fails leaves the tables as they were. The
  mutex around the connection makes every method one step. Identifiers that the code generates are
  arguments, and the encoding of an event is the field of a codec.
\<close>

section \<open>The tables\<close>

record segment_node =
  node_id :: segment_id
  node_session :: session_id
  node_index :: nat
  node_parent :: "segment_id option"
  node_start :: nat
  node_end :: nat

record event_tuple =
  tuple_offset :: nat
  tuple_session :: session_id
  tuple_segment :: segment_id
  tuple_payload :: bytes

record tree_index =
  segments :: "segment_node list"
  events :: "event_tuple list"
  transaction_count :: nat

record event_row =
  row_offset :: nat
  row_session :: session_id
  row_segment :: segment_id
  row_event :: session_event

record stored_event =
  stored_offset :: nat
  stored :: session_event

record rmp =
  rmp_to_vec :: "session_event \<Rightarrow> (string, bytes) result"
  rmp_from_slice :: "bytes \<Rightarrow> (string, session_event) result"

definition tree_open :: tree_index where
  "tree_open = \<lparr>segments = [], events = [], transaction_count = 0\<rparr>"

text \<open>SQLite integers have 64 bits and a sign; \<^verbatim>\<open>rusqlite\<close> refuses a larger parameter.\<close>

definition sql_int :: "nat \<Rightarrow> bool" where
  "sql_int n \<longleftrightarrow> n < 2 ^ 63"

definition upsert_segment :: "segment_node \<Rightarrow> segment_node list \<Rightarrow> segment_node list" where
  "upsert_segment n rows =
     (if list_ex (\<lambda>r. node_id r = node_id n) rows
      then map (\<lambda>r. if node_id r = node_id n then r\<lparr>node_end := node_end n\<rparr> else r) rows
      else rows @ [n])"

definition node_of_meta :: "segment_meta \<Rightarrow> segment_node" where
  "node_of_meta m =
     \<lparr>node_id = meta_segment_id m, node_session = meta_session_id m, node_index = meta_segment_index m,
      node_parent = parent_segment_id m, node_start = start_offset m, node_end = end_offset m\<rparr>"

definition insert_segment :: "tree_index \<Rightarrow> segment_meta \<Rightarrow> tree_index \<times> (store_error, unit) result" where
  "insert_segment t m =
     (if sql_int (start_offset m) \<and> sql_int (end_offset m)
      then (t\<lparr>segments := upsert_segment (node_of_meta m) (segments t)\<rparr>, Inr ())
      else (t, Inl (Sqlite ''integer'')))"

fun insert_rows :: "rmp \<Rightarrow> event_row list \<Rightarrow> event_tuple list \<Rightarrow> (store_error, event_tuple list) result" where
  "insert_rows rmp [] tab = Inr tab"
| "insert_rows rmp (r # rs) tab =
     (case rmp_to_vec rmp (row_event r) of
        Inl e \<Rightarrow> Inl (Serialization e)
      | Inr bs \<Rightarrow>
          if \<not> sql_int (row_offset r) then Inl (Sqlite ''integer'')
          else if list_ex (\<lambda>x. tuple_session x = row_session r \<and> tuple_offset x = row_offset r) tab
          then Inl (Sqlite ''UNIQUE'')
          else insert_rows rmp rs
                 (tab @ [\<lparr>tuple_offset = row_offset r, tuple_session = row_session r, tuple_segment = row_segment r,
                          tuple_payload = bs\<rparr>]))"

definition insert_events :: "rmp \<Rightarrow> tree_index \<Rightarrow> event_row list \<Rightarrow> tree_index \<times> (store_error, unit) result" where
  "insert_events rmp t rows =
     (if rows = [] then (t, Inr ())
      else (case insert_rows rmp rows (events t) of
              Inl e \<Rightarrow> (t, Inl e)
            | Inr tab \<Rightarrow> (t\<lparr>events := tab, transaction_count := transaction_count t + 1\<rparr>, Inr ())))"

section \<open>Queries on the segments\<close>

definition query_segment_nodes :: "tree_index \<Rightarrow> session_id \<Rightarrow> segment_node list" where
  "query_segment_nodes t sid = sort_key node_index (filter (\<lambda>r. node_session r = sid) (segments t))"

definition query_segment_node :: "tree_index \<Rightarrow> segment_id \<Rightarrow> (store_error, segment_node) result" where
  "query_segment_node t i = (case find (\<lambda>r. node_id r = i) (segments t) of None \<Rightarrow> Inl (NotFound i) | Some r \<Rightarrow> Inr r)"

text \<open>\<^verbatim>\<open>segment_id_for\<close>: only a row without a parent is a file of the session itself.\<close>

definition query_segment_id :: "segment_node list \<Rightarrow> session_id \<Rightarrow> nat \<Rightarrow> segment_id option" where
  "query_segment_id rows sid idx =
     map_option node_id (find (\<lambda>r. node_session r = sid \<and> node_index r = idx \<and> node_parent r = None) rows)"

definition segment_id_for :: "tree_index \<Rightarrow> session_id \<Rightarrow> nat \<Rightarrow> segment_id option" where
  "segment_id_for t sid idx = query_segment_id (segments t) sid idx"

definition fork_rows :: "tree_index \<Rightarrow> session_id \<Rightarrow> segment_node list" where
  "fork_rows t sid = filter (\<lambda>r. node_session r = sid \<and> node_parent r \<noteq> None) (segments t)"

text \<open>\<^verbatim>\<open>SELECT MAX(end_offset)\<close> over the copied rows.\<close>

definition prefix_end :: "tree_index \<Rightarrow> session_id \<Rightarrow> nat option" where
  "prefix_end t sid =
     (case map node_end (fork_rows t sid) of [] \<Rightarrow> None | e # es \<Rightarrow> Some (foldl max e es))"

definition fork_point :: "tree_index \<Rightarrow> session_id \<Rightarrow> nat option" where
  "fork_point t sid = map_option (\<lambda>e. e + 1) (prefix_end t sid)"

section \<open>Forking\<close>

definition copied_rows :: "segment_node list \<Rightarrow> nat \<Rightarrow> segment_node list" where
  "copied_rows rows from_offset =
     map (\<lambda>r. if from_offset \<le> node_end r then r\<lparr>node_end := from_offset - 1\<rparr> else r)
       (filter (\<lambda>r. node_start r < from_offset) rows)"

definition check_cover :: "segment_node list \<Rightarrow> nat \<Rightarrow> (store_error, unit) result" where
  "check_cover copied from_offset =
     (if from_offset = 0 then Inr ()
      else if copied = [] then Inl (ForkViolation ''no segment before the fork point'')
      else if node_start (hd copied) \<noteq> 0 then Inl (ForkViolation ''first segment does not start at 0'')
      else if node_end (last copied) \<noteq> from_offset - 1 then Inl (ForkViolation ''fork point not covered'')
      else Inr ())"

text \<open>
  Each copy is inserted on its own; a clash of its new identifier ends the loop. \<open>fresh k\<close> is the
  identifier generated for copy \<open>k\<close>.
\<close>

fun insert_copies ::
  "session_id \<Rightarrow> (nat \<Rightarrow> segment_id) \<Rightarrow> nat \<Rightarrow> segment_node list \<Rightarrow> segment_node list \<Rightarrow>
   segment_node list \<times> (store_error, unit) result" where
  "insert_copies new fresh k [] tab = (tab, Inr ())"
| "insert_copies new fresh k (r # rs) tab =
     (if list_ex (\<lambda>x. node_id x = fresh k) tab then (tab, Inl (Sqlite ''UNIQUE''))
      else insert_copies new fresh (k + 1) rs
             (tab @ [\<lparr>node_id = fresh k, node_session = new, node_index = node_index r, node_parent = Some (node_id r),
                      node_start = node_start r, node_end = node_end r\<rparr>]))"

definition fork ::
  "tree_index \<Rightarrow> session_id \<Rightarrow> nat \<Rightarrow> session_id \<Rightarrow> (nat \<Rightarrow> segment_id) \<Rightarrow> tree_index \<times> (store_error, session_id) result" where
  "fork t sid from_offset new fresh =
     (let copied = copied_rows (query_segment_nodes t sid) from_offset
      in case check_cover copied from_offset of
           Inl e \<Rightarrow> (t, Inl e)
         | Inr _ \<Rightarrow>
             (case insert_copies new fresh 0 copied (segments t) of
                (tab, Inl e) \<Rightarrow> (t\<lparr>segments := tab\<rparr>, Inl e)
              | (tab, Inr _) \<Rightarrow> (t\<lparr>segments := tab\<rparr>, Inr new)))"

section \<open>Reading back\<close>

fun decode_rows :: "rmp \<Rightarrow> event_tuple list \<Rightarrow> (store_error, stored_event list) result" where
  "decode_rows rmp [] = Inr []"
| "decode_rows rmp (x # xs) =
     (case rmp_from_slice rmp (tuple_payload x) of
        Inl e \<Rightarrow> Inl (Serialization e)
      | Inr ev \<Rightarrow>
          (case decode_rows rmp xs of
             Inl e \<Rightarrow> Inl e
           | Inr evs \<Rightarrow> Inr (\<lparr>stored_offset = tuple_offset x, stored = ev\<rparr> # evs)))"

definition prefix_tuples :: "tree_index \<Rightarrow> session_id \<Rightarrow> nat \<Rightarrow> event_tuple list" where
  "prefix_tuples t sid from =
     (case prefix_end t sid of
        None \<Rightarrow> []
      | Some pe \<Rightarrow>
          if from \<le> pe
          then sort_key tuple_offset
                 (filter (\<lambda>x. Some (tuple_segment x) \<in> set (map node_parent (fork_rows t sid)) \<and>
                              from \<le> tuple_offset x \<and> tuple_offset x \<le> pe) (events t))
          else [])"

definition own_tuples :: "tree_index \<Rightarrow> session_id \<Rightarrow> nat \<Rightarrow> event_tuple list" where
  "own_tuples t sid from = sort_key tuple_offset (filter (\<lambda>x. tuple_session x = sid \<and> from \<le> tuple_offset x) (events t))"

definition read_events :: "rmp \<Rightarrow> tree_index \<Rightarrow> session_id \<Rightarrow> nat option \<Rightarrow> (store_error, stored_event list) result" where
  "read_events rmp t sid from_opt =
     (let from = (case from_opt of None \<Rightarrow> 0 | Some f \<Rightarrow> f)
      in case decode_rows rmp (prefix_tuples t sid from) of
           Inl e \<Rightarrow> Inl e
         | Inr inherited \<Rightarrow>
             if \<not> sql_int from then Inl (Sqlite ''integer'')
             else (case decode_rows rmp (own_tuples t sid from) of
                     Inl e \<Rightarrow> Inl e
                   | Inr own \<Rightarrow> Inr (inherited @ own)))"

section \<open>Lineage\<close>

record session_tree =
  tree_session :: session_id
  nodes :: "segment_node list"

definition tree :: "tree_index \<Rightarrow> session_id \<Rightarrow> session_tree" where
  "tree t sid = \<lparr>tree_session = sid, nodes = query_segment_nodes t sid\<rparr>"

definition roots :: "session_tree \<Rightarrow> segment_node list" where
  "roots st = filter (\<lambda>n. node_parent n = None) (nodes st)"

definition children_of :: "session_tree \<Rightarrow> segment_id \<Rightarrow> segment_node list" where
  "children_of st i = filter (\<lambda>n. node_parent n = Some i) (nodes st)"

definition node :: "session_tree \<Rightarrow> segment_id \<Rightarrow> segment_node option" where
  "node st i = find (\<lambda>n. node_id n = i) (nodes st)"

definition node_count :: "session_tree \<Rightarrow> nat" where
  "node_count st = length (nodes st)"

text \<open>
  The walk of \<^verbatim>\<open>fork_tree\<close>: the last identifier of the frontier is looked up unless it was seen. It ends
  because every identifier that is looked up is one of the table.
\<close>

function walk_parents ::
  "tree_index \<Rightarrow> segment_id set \<Rightarrow> segment_id list \<Rightarrow> segment_node list \<Rightarrow> (store_error, segment_node list) result" where
  "walk_parents t seen frontier acc =
     (if frontier = [] then Inr acc
      else (let pid = last frontier
            in if pid \<in> seen then walk_parents t seen (butlast frontier) acc
               else (case query_segment_node t pid of
                       Inl e \<Rightarrow> Inl e
                     | Inr n \<Rightarrow>
                         walk_parents t (insert pid seen)
                           (butlast frontier @ (case node_parent n of None \<Rightarrow> [] | Some gp \<Rightarrow> [gp])) (acc @ [n]))))"
  by pat_completeness auto

lemma query_segment_node_id: "query_segment_node t i = Inr n \<Longrightarrow> n \<in> set (segments t) \<and> node_id n = i"
  by (auto simp: query_segment_node_def find_Some_iff split: option.splits)

termination walk_parents
proof (relation "(\<lambda>(t, seen, frontier, acc). card (node_id ` set (segments t) - seen)) <*mlex*>
    measure (\<lambda>(t, seen, frontier, acc). length frontier)")
  fix t :: tree_index and seen and frontier :: "segment_id list" and acc pid n
  assume "frontier \<noteq> []" "pid = last frontier" "pid \<notin> seen" "query_segment_node t pid = Inr n"
  then have "pid \<in> node_id ` set (segments t) - seen" using query_segment_node_id [of t pid n] by (metis Diff_iff image_eqI)
  then have "card (node_id ` set (segments t) - insert pid seen) < card (node_id ` set (segments t) - seen)"
    by (intro psubset_card_mono) auto
  then show "((t, insert pid seen, butlast frontier @ (case node_parent n of None \<Rightarrow> [] | Some gp \<Rightarrow> [gp]), acc @ [n]),
      (t, seen, frontier, acc)) \<in> (\<lambda>(t, seen, frontier, acc). card (node_id ` set (segments t) - seen)) <*mlex*>
    measure (\<lambda>(t, seen, frontier, acc). length frontier)"
    by (simp add: mlex_prod_def)
qed (auto simp: mlex_prod_def wf_mlex)

definition fork_tree :: "tree_index \<Rightarrow> session_id \<Rightarrow> (store_error, session_tree) result" where
  "fork_tree t sid =
     (let ns = query_segment_nodes t sid
      in case walk_parents t (set (map node_id ns)) (List.map_filter node_parent ns) ns of
           Inl e \<Rightarrow> Inl e
         | Inr all \<Rightarrow> Inr \<lparr>tree_session = sid, nodes = sort_key node_index all\<rparr>)"

text \<open>
  The layers of \<^verbatim>\<open>ancestors\<close>: the identifiers of a layer in ascending order, then the parents of those that
  were not seen. A hash set is a list here, read through \<open>sort (remdups ...)\<close>.
\<close>

fun visit_layer ::
  "tree_index \<Rightarrow> segment_id list \<Rightarrow> segment_id list \<Rightarrow> segment_id list \<Rightarrow> segment_id list \<Rightarrow>
   (store_error, segment_id list \<times> segment_id list \<times> segment_id list) result" where
  "visit_layer t [] seen next out = Inr (seen, next, out)"
| "visit_layer t (pid # pids) seen next out =
     (if pid \<in> set seen then visit_layer t pids seen next out
      else (case query_segment_node t pid of
              Inl e \<Rightarrow> Inl e
            | Inr n \<Rightarrow>
                visit_layer t pids (pid # seen) (next @ (case node_parent n of None \<Rightarrow> [] | Some gp \<Rightarrow> [gp])) (out @ [pid])))"

lemma visit_layer_seen:
  "visit_layer t pids seen next out = Inr (seen', next', out') \<Longrightarrow>
   set seen \<subseteq> set seen' \<and> set seen' \<subseteq> set seen \<union> node_id ` set (segments t) \<and> (set seen' = set seen \<longrightarrow> next' = next)"
proof (induction pids arbitrary: seen "next" out)
  case (Cons pid pids)
  show ?case
  proof (cases "pid \<in> set seen")
    case False
    then obtain n where n: "query_segment_node t pid = Inr n"
      "visit_layer t pids (pid # seen) (next @ (case node_parent n of None \<Rightarrow> [] | Some gp \<Rightarrow> [gp])) (out @ [pid]) = Inr (seen', next', out')"
      using Cons.prems by (auto split: sum.splits)
    have "pid \<in> node_id ` set (segments t)" using query_segment_node_id [OF n(1)] by (metis image_eqI)
    then show ?thesis using Cons.IH [OF n(2)] False by auto
  qed (use Cons in simp)
qed simp

function ancestor_layers ::
  "tree_index \<Rightarrow> segment_id list \<Rightarrow> segment_id list \<Rightarrow> segment_id list \<Rightarrow> (store_error, segment_id list) result" where
  "ancestor_layers t layer seen out =
     (if layer = [] then Inr out
      else (case visit_layer t (sort (remdups layer)) seen [] out of
              Inl e \<Rightarrow> Inl e
            | Inr (seen', next', out') \<Rightarrow> ancestor_layers t next' seen' out'))"
  by pat_completeness auto

termination
proof (relation "(\<lambda>(t, layer, seen, out). card (node_id ` set (segments t) - set seen)) <*mlex*>
    measure (\<lambda>(t, layer, seen, out). length layer)")
  fix t layer seen out y x seen' z next' out'
  assume l: "layer \<noteq> []" and v: "visit_layer t (sort (remdups layer)) seen [] out = Inr y"
    and y: "(x, z) = y" "(next', out') = z"
  let ?ids = "node_id ` set (segments t)"
  have s: "set seen \<subseteq> set x" "set x \<subseteq> set seen \<union> ?ids" "set x = set seen \<longrightarrow> next' = []"
    using visit_layer_seen [of t _ seen "[]" out x next' out'] v y by auto
  show "((t, next', x, out'), (t, layer, seen, out)) \<in> (\<lambda>(t, layer, seen, out). card (node_id ` set (segments t) - set seen)) <*mlex*>
    measure (\<lambda>(t, layer, seen, out). length layer)"
  proof (cases "set x = set seen")
    case True
    then show ?thesis using s(3) l by (simp add: mlex_prod_def)
  next
    case False
    then have "?ids - set x \<subset> ?ids - set seen" using s by auto
    then have "card (?ids - set x) < card (?ids - set seen)" by (intro psubset_card_mono) auto
    then show ?thesis by (simp add: mlex_prod_def)
  qed
qed (auto simp: wf_mlex)

definition ancestors :: "tree_index \<Rightarrow> session_id \<Rightarrow> (store_error, segment_id list) result" where
  "ancestors t sid = ancestor_layers t (List.map_filter node_parent (query_segment_nodes t sid)) [] []"

text \<open>The file behind a row, over at most 64 references.\<close>

function resolve_physical :: "tree_index \<Rightarrow> segment_id \<Rightarrow> nat \<Rightarrow> (store_error, session_id \<times> nat) result" where
  "resolve_physical t i depth =
     (if 64 < depth then Inl (InvalidInput i)
      else (case query_segment_node t i of
              Inl e \<Rightarrow> Inl e
            | Inr n \<Rightarrow>
                (case node_parent n of
                   None \<Rightarrow> Inr (node_session n, node_index n)
                 | Some parent \<Rightarrow> resolve_physical t parent (depth + 1))))"
  by pat_completeness auto

termination
  by (relation "measure (\<lambda>(t, i, depth). 65 - depth)") auto

record segment_source =
  source_id :: segment_id
  file_session :: session_id
  file_index :: nat
  source_parent :: "segment_id option"
  source_start :: nat
  source_end :: nat

fun resolve_nodes :: "tree_index \<Rightarrow> segment_node list \<Rightarrow> (store_error, segment_source list) result" where
  "resolve_nodes t [] = Inr []"
| "resolve_nodes t (n # ns) =
     (case resolve_physical t (node_id n) 0 of
        Inl e \<Rightarrow> Inl e
      | Inr (fs, fi) \<Rightarrow>
          (case resolve_nodes t ns of
             Inl e \<Rightarrow> Inl e
           | Inr srcs \<Rightarrow>
               Inr (\<lparr>source_id = node_id n, file_session = fs, file_index = fi, source_parent = node_parent n,
                     source_start = node_start n, source_end = node_end n\<rparr> # srcs)))"

definition segment_sources :: "tree_index \<Rightarrow> session_id \<Rightarrow> (store_error, segment_source list) result" where
  "segment_sources t sid = resolve_nodes t (query_segment_nodes t sid)"

definition event_count :: "tree_index \<Rightarrow> session_id option \<Rightarrow> nat" where
  "event_count t so = (case so of None \<Rightarrow> length (events t) | Some sid \<Rightarrow> length (filter (\<lambda>x. tuple_session x = sid) (events t)))"

definition segment_count :: "tree_index \<Rightarrow> session_id \<Rightarrow> nat" where
  "segment_count t sid = length (filter (\<lambda>n. node_session n = sid) (segments t))"

section \<open>Rebuilding the index\<close>

record rebuild_stats =
  segments_scanned :: nat
  rows_inserted :: nat
  rows_skipped :: nat

text \<open>The files of a session, by ascending segment index; an empty one is passed over.\<close>

fun scan_files :: "codec \<Rightarrow> (nat \<times> bytes) list \<Rightarrow> (store_error, (nat \<times> segment_record list) list) result" where
  "scan_files cd [] = Inr []"
| "scan_files cd ((idx, file) # files) =
     (case read_all cd \<lparr>unread = file, rows_read = 0\<rparr> of
        Inl e \<Rightarrow> Inl e
      | Inr records \<Rightarrow>
          (case scan_files cd files of
             Inl e \<Rightarrow> Inl e
           | Inr scanned \<Rightarrow> Inr (if records = [] then scanned else (idx, records) # scanned)))"

text \<open>\<^verbatim>\<open>INSERT OR IGNORE\<close>: a row whose session and offset are taken is counted as skipped.\<close>

fun rebuild_events ::
  "rmp \<Rightarrow> session_id \<Rightarrow> segment_id \<Rightarrow> segment_record list \<Rightarrow> event_tuple list \<times> rebuild_stats \<Rightarrow>
   (store_error, event_tuple list \<times> rebuild_stats) result" where
  "rebuild_events rmp sid i [] (tab, st) = Inr (tab, st)"
| "rebuild_events rmp sid i (r # rs) (tab, st) =
     (case rmp_to_vec rmp (rec_event r) of
        Inl e \<Rightarrow> Inl (Serialization e)
      | Inr bs \<Rightarrow>
          if \<not> sql_int (rec_seq r) then Inl (Sqlite ''integer'')
          else if list_ex (\<lambda>x. tuple_session x = sid \<and> tuple_offset x = rec_seq r) tab
          then rebuild_events rmp sid i rs (tab, st\<lparr>rows_skipped := rows_skipped st + 1\<rparr>)
          else rebuild_events rmp sid i rs
                 (tab @ [\<lparr>tuple_offset = rec_seq r, tuple_session = sid, tuple_segment = i, tuple_payload = bs\<rparr>],
                  st\<lparr>rows_inserted := rows_inserted st + 1\<rparr>))"

fun rebuild_segments ::
  "rmp \<Rightarrow> session_id \<Rightarrow> (nat \<Rightarrow> segment_id) \<Rightarrow> (nat \<times> segment_record list) list \<Rightarrow>
   segment_node list \<times> event_tuple list \<times> rebuild_stats \<Rightarrow>
   (store_error, segment_node list \<times> event_tuple list \<times> rebuild_stats) result" where
  "rebuild_segments rmp sid fresh [] s = Inr s"
| "rebuild_segments rmp sid fresh ((idx, records) # rest) (segs, tab, st) =
     (let i = (case query_segment_id segs sid idx of None \<Rightarrow> fresh idx | Some i \<Rightarrow> i);
          start = rec_seq (hd records); endo = rec_seq (last records)
      in if \<not> (sql_int start \<and> sql_int endo) then Inl (Sqlite ''integer'')
         else (let segs' = upsert_segment \<lparr>node_id = i, node_session = sid, node_index = idx, node_parent = None,
                                           node_start = start, node_end = endo\<rparr> segs
               in case rebuild_events rmp sid i records (tab, st) of
                    Inl e \<Rightarrow> Inl e
                  | Inr (tab', st') \<Rightarrow> rebuild_segments rmp sid fresh rest (segs', tab', st')))"

definition rebuild_index ::
  "codec \<Rightarrow> rmp \<Rightarrow> tree_index \<Rightarrow> session_id \<Rightarrow> (nat \<Rightarrow> segment_id) \<Rightarrow> (nat \<times> bytes) list \<Rightarrow>
   tree_index \<times> (store_error, rebuild_stats) result" where
  "rebuild_index cd rmp t sid fresh files =
     (case scan_files cd files of
        Inl e \<Rightarrow> (t, Inl e)
      | Inr scanned \<Rightarrow>
          (case rebuild_segments rmp sid fresh scanned
                  (segments t, events t, \<lparr>segments_scanned = length scanned, rows_inserted = 0, rows_skipped = 0\<rparr>) of
             Inl e \<Rightarrow> (t, Inl e)
           | Inr (segs, tab, st) \<Rightarrow> (t\<lparr>segments := segs, events := tab\<rparr>, Inr st)))"

end
