(* ===== verification/Session_Writer.thy ===== *)
theory Session_Writer
  imports Session_Tree "HOL-Library.AList"
begin

text \<open>
  The batching writer of \<^verbatim>\<open>session-store/src/writer.rs\<close> over the segment files of theory \<open>Segment\<close> and
  the index of theory \<open>Session_Tree\<close>. The data directory is an association list from file names, a
  file stem with a segment index, to bytes; a segment writer reads and writes the shared bytes at its own
  position. One flush takes the whole queue; what the operating system and the generators answer to
  it is an environment: the faults of its appends, the order in which the hash map of the groups is
  iterated, and the fresh segment identifiers. The moving average behind the window of the background
  loop is a floating-point number that no other operation reads, and is left out.
\<close>

section \<open>The data directory\<close>

type_synonym disk = "((string \<times> nat) \<times> bytes) list"

definition segment_path :: "session_id \<Rightarrow> nat \<Rightarrow> string \<times> nat" where
  "segment_path sid index = (file_stem sid, index)"

definition read_file :: "disk \<Rightarrow> string \<times> nat \<Rightarrow> bytes option" where
  "read_file d path = map_of d path"

definition write_file :: "string \<times> nat \<Rightarrow> bytes \<Rightarrow> disk \<Rightarrow> disk" where
  "write_file path bs d = AList.update path bs d"

definition list_segment_files :: "disk \<Rightarrow> session_id \<Rightarrow> nat list" where
  "list_segment_files d sid = sort (map snd (filter (\<lambda>p. fst p = file_stem sid) (map fst d)))"

definition open_segment ::
  "codec \<Rightarrow> disk \<Rightarrow> session_id \<Rightarrow> nat \<Rightarrow> nat \<Rightarrow> disk \<times> (store_error, segment_writer) result" where
  "open_segment cd d sid idx start_seq =
     (case open_or_create cd sid idx start_seq (read_file d (segment_path sid idx)) of
        Inl e \<Rightarrow> (d, Inl e)
      | Inr w \<Rightarrow> (write_file (segment_path sid idx) (content w) d, Inr w))"

definition append_segment ::
  "codec \<Rightarrow> disk \<Rightarrow> segment_writer \<Rightarrow> session_event list \<Rightarrow> io_fault \<Rightarrow>
   disk \<times> segment_writer \<times> (store_error, offset list) result" where
  "append_segment cd d w evs fault =
     (let path = segment_path (seg_session w) (segment_index w);
          w0 = w\<lparr>content := (case read_file d path of None \<Rightarrow> [] | Some bs \<Rightarrow> bs)\<rparr>;
          (w1, res) = append_batch cd w0 evs fault
      in (write_file path (content w1) d, w1, res))"

section \<open>State\<close>

record store_config =
  max_rows_per_segment :: nat
  batch_size :: nat
  base_window_ms :: nat
  spawn_flush_loop :: bool

definition store_config_default :: store_config where
  "store_config_default = \<lparr>max_rows_per_segment = 4096, batch_size = 64, base_window_ms = 2, spawn_flush_loop = True\<rparr>"

record session_state =
  current :: segment_writer
  current_segment_id :: segment_id

record cbmr_writer =
  store_conf :: store_config
  index :: tree_index
  disk :: disk
  sessions :: "session_id \<rightharpoonup> session_state"
  pending_events :: "(session_id \<times> session_event) list"
  last_offset_by_session :: "session_id \<rightharpoonup> offset"

definition cbmr_new :: "store_config \<Rightarrow> tree_index \<Rightarrow> disk \<Rightarrow> cbmr_writer" where
  "cbmr_new cfg t d =
     \<lparr>store_conf = cfg, index = t, disk = d, sessions = Map.empty, pending_events = [], last_offset_by_session = Map.empty\<rparr>"

record flush_env =
  env_codec :: codec
  env_rmp :: rmp
  fault_at :: "session_id \<Rightarrow> nat \<Rightarrow> io_fault"
  group_order :: "session_id list \<Rightarrow> session_id list"
  fresh_segment :: "session_id \<Rightarrow> nat \<Rightarrow> segment_id"

section \<open>Reopening a session\<close>

text \<open>The indices are given in descending order; the first record of the first file that has one decides.\<close>

fun last_nonempty :: "codec \<Rightarrow> disk \<Rightarrow> session_id \<Rightarrow> nat list \<Rightarrow> (store_error, (nat \<times> nat) option) result" where
  "last_nonempty cd d sid [] = Inr None"
| "last_nonempty cd d sid (idx # idxs) =
     (case reader_open (read_file d (segment_path sid idx)) of
        Inl e \<Rightarrow> Inl e
      | Inr reader \<Rightarrow>
          (case next_record cd reader of
             (_, Inl e) \<Rightarrow> Inl e
           | (_, Inr (Some rec)) \<Rightarrow> Inr (Some (idx, rec_seq rec))
           | (_, Inr None) \<Rightarrow> last_nonempty cd d sid idxs))"

definition recover_session_state ::
  "codec \<Rightarrow> disk \<Rightarrow> tree_index \<Rightarrow> (nat \<Rightarrow> segment_id) \<Rightarrow> session_id \<Rightarrow> disk \<times> (store_error, session_state) result" where
  "recover_session_state cd d t fresh sid =
     (case last_nonempty cd d sid (rev (list_segment_files d sid)) of
        Inl e \<Rightarrow> (d, Inl e)
      | Inr recovered \<Rightarrow>
          (let (idx, start_seq) =
                 (case recovered of
                    Some pair \<Rightarrow> pair
                  | None \<Rightarrow> (0, case fork_point t sid of Some k \<Rightarrow> k | None \<Rightarrow> 0))
           in case open_segment cd d sid idx start_seq of
                (d', Inl e) \<Rightarrow> (d', Inl e)
              | (d', Inr w) \<Rightarrow>
                  (d', Inr \<lparr>current = w,
                            current_segment_id = (case segment_id_for t sid idx of Some i \<Rightarrow> i | None \<Rightarrow> fresh idx)\<rparr>)))"

section \<open>Flushing\<close>

record flush_out =
  out_rows :: "event_row list"
  out_metas :: "segment_meta list"
  out_last :: "session_id \<rightharpoonup> offset"

definition current_meta :: "session_state \<Rightarrow> segment_meta" where
  "current_meta st = meta (current st) (current_segment_id st) None"

text \<open>Closing the full segment: its metadata is noted, the next file takes over.\<close>

definition roll ::
  "codec \<Rightarrow> (nat \<Rightarrow> segment_id) \<Rightarrow> session_id \<Rightarrow> disk \<Rightarrow> session_state \<Rightarrow> disk \<times> (store_error, session_state) result" where
  "roll cd fresh sid d st =
     (let idx = segment_index (current st) + 1
      in case open_segment cd d sid idx (next_seq (current st)) of
           (d', Inl e) \<Rightarrow> (d', Inl e)
         | (d', Inr w) \<Rightarrow> (d', Inr \<lparr>current = w, current_segment_id = fresh idx\<rparr>))"

definition note_meta :: "session_state \<Rightarrow> flush_out \<Rightarrow> flush_out" where
  "note_meta st out = out\<lparr>out_metas := out_metas out @ [current_meta st]\<rparr>"

definition note_rows :: "session_id \<Rightarrow> segment_id \<Rightarrow> offset list \<Rightarrow> session_event list \<Rightarrow> flush_out \<Rightarrow> flush_out" where
  "note_rows sid i offs evs out =
     out\<lparr>out_rows := out_rows out @
           map2 (\<lambda>off ev. \<lparr>row_offset = off_seq off, row_session = sid, row_segment = i, row_event = ev\<rparr>) offs evs,
         out_last := (if offs = [] then out_last out else (out_last out)(sid \<mapsto> last offs))\<rparr>"

text \<open>
  The loop over the events of one session. With a row limit of zero it need not end, and \<open>None\<close> stands
  for that.
\<close>

partial_function (option) write_group ::
  "codec \<Rightarrow> nat \<Rightarrow> (nat \<Rightarrow> io_fault) \<Rightarrow> (nat \<Rightarrow> segment_id) \<Rightarrow> session_id \<Rightarrow> disk \<Rightarrow> session_state \<Rightarrow>
   session_event list \<Rightarrow> flush_out \<Rightarrow> (disk \<times> session_state \<times> (store_error, flush_out) result) option" where
  "write_group cd max_rows faults fresh sid d st events_left out =
     (let capacity = max_rows - row (current st)
      in if capacity = 0 then
           (case roll cd fresh sid d st of
              (d', Inl e) \<Rightarrow> Some (d', st, Inl e)
            | (d', Inr st') \<Rightarrow> write_group cd max_rows faults fresh sid d' st' events_left (note_meta st out))
         else
           (let n = min capacity (length events_left)
            in if n = 0 then Some (d, st, Inr (note_meta st out))
               else
                 (case append_segment cd d (current st) (take n events_left) (faults (segment_index (current st))) of
                    (d', w, Inl e) \<Rightarrow> Some (d', st\<lparr>current := w\<rparr>, Inl e)
                  | (d', w, Inr offsets) \<Rightarrow>
                      (let st1 = st\<lparr>current := w\<rparr>;
                           out1 = note_rows sid (current_segment_id st) offsets (take n events_left) out;
                           events_left1 = drop n events_left
                       in if events_left1 = [] then Some (d', st1, Inr (note_meta st1 out1))
                          else
                            (case roll cd fresh sid d' st1 of
                               (d'', Inl e) \<Rightarrow> Some (d'', st1, Inl e)
                             | (d'', Inr st2) \<Rightarrow>
                                 write_group cd max_rows faults fresh sid d'' st2 events_left1 (note_meta st1 out1))))))"

definition flush_group ::
  "flush_env \<Rightarrow> cbmr_writer \<Rightarrow> session_id \<Rightarrow> session_event list \<Rightarrow> flush_out \<Rightarrow>
   (cbmr_writer \<times> (store_error, flush_out) result) option" where
  "flush_group env s sid evs out =
     (let fresh = fresh_segment env sid;
          (s1, state) =
            (case sessions s sid of
               Some st \<Rightarrow> (s, Inr st)
             | None \<Rightarrow>
                 (case recover_session_state (env_codec env) (disk s) (index s) fresh sid of
                    (d, Inl e) \<Rightarrow> (s\<lparr>disk := d\<rparr>, Inl e)
                  | (d, Inr st) \<Rightarrow> (s\<lparr>disk := d, sessions := (sessions s)(sid \<mapsto> st)\<rparr>, Inr st)))
      in case state of
           Inl e \<Rightarrow> Some (s1, Inl e)
         | Inr st \<Rightarrow>
             (case write_group (env_codec env) (max_rows_per_segment (store_conf s)) (fault_at env sid) fresh sid (disk s1) st evs out of
                None \<Rightarrow> None
              | Some (d, st', res) \<Rightarrow> Some (s1\<lparr>disk := d, sessions := (sessions s1)(sid \<mapsto> st')\<rparr>, res)))"

fun flush_groups ::
  "flush_env \<Rightarrow> cbmr_writer \<Rightarrow> (session_id \<times> session_event) list \<Rightarrow> session_id list \<Rightarrow> flush_out \<Rightarrow>
   (cbmr_writer \<times> (store_error, flush_out) result) option" where
  "flush_groups env s batch [] out = Some (s, Inr out)"
| "flush_groups env s batch (sid # sids) out =
     (case flush_group env s sid (map snd (filter (\<lambda>p. fst p = sid) batch)) out of
        None \<Rightarrow> None
      | Some (s1, Inl e) \<Rightarrow> Some (s1, Inl e)
      | Some (s1, Inr out1) \<Rightarrow> flush_groups env s1 batch sids out1)"

fun insert_segments :: "tree_index \<Rightarrow> segment_meta list \<Rightarrow> tree_index \<times> (store_error, unit) result" where
  "insert_segments t [] = (t, Inr ())"
| "insert_segments t (m # ms) =
     (case insert_segment t m of (t', Inl e) \<Rightarrow> (t', Inl e) | (t', Inr _) \<Rightarrow> insert_segments t' ms)"

definition flush_sync :: "flush_env \<Rightarrow> cbmr_writer \<Rightarrow> (cbmr_writer \<times> (store_error, unit) result) option" where
  "flush_sync env s =
     (let batch = pending_events s; s0 = s\<lparr>pending_events := []\<rparr>
      in if batch = [] then Some (s0, Inr ())
         else
           (case flush_groups env s0 batch (group_order env (remdups (map fst batch)))
                   \<lparr>out_rows = [], out_metas = [], out_last = Map.empty\<rparr> of
              None \<Rightarrow> None
            | Some (s1, Inl e) \<Rightarrow> Some (s1, Inl e)
            | Some (s1, Inr out) \<Rightarrow>
                (case insert_segments (index s1) (out_metas out) of
                   (t, Inl e) \<Rightarrow> Some (s1\<lparr>index := t\<rparr>, Inl e)
                 | (t, Inr _) \<Rightarrow>
                     (case insert_events (env_rmp env) t (out_rows out) of
                        (t', Inl e) \<Rightarrow> Some (s1\<lparr>index := t'\<rparr>, Inl e)
                      | (t', Inr _) \<Rightarrow>
                          Some (s1\<lparr>index := t', last_offset_by_session := last_offset_by_session s1 ++ out_last out\<rparr>, Inr ())))))"

section \<open>The other operations\<close>

definition append_event ::
  "flush_env \<Rightarrow> cbmr_writer \<Rightarrow> session_id \<Rightarrow> session_event \<Rightarrow> (cbmr_writer \<times> (store_error, unit) result) option" where
  "append_event env s sid ev =
     (let s1 = s\<lparr>pending_events := pending_events s @ [(sid, ev)]\<rparr>
      in if batch_size (store_conf s) \<le> length (pending_events s1) then flush_sync env s1 else Some (s1, Inr ()))"

definition fork_session ::
  "codec \<Rightarrow> cbmr_writer \<Rightarrow> session_id \<Rightarrow> nat \<Rightarrow> session_id \<Rightarrow> (nat \<Rightarrow> segment_id) \<Rightarrow> segment_id \<Rightarrow>
   cbmr_writer \<times> (store_error, session_id) result" where
  "fork_session cd s parent from_offset new fresh own_id =
     (case fork (index s) parent from_offset new fresh of
        (t, Inl e) \<Rightarrow> (s\<lparr>index := t\<rparr>, Inl e)
      | (t, Inr new_sid) \<Rightarrow>
          (case open_segment cd (disk s) new_sid 0 from_offset of
             (d, Inl e) \<Rightarrow> (s\<lparr>index := t, disk := d\<rparr>, Inl e)
           | (d, Inr w) \<Rightarrow>
               (s\<lparr>index := t, disk := d, sessions := (sessions s)(new_sid \<mapsto> \<lparr>current = w, current_segment_id = own_id\<rparr>)\<rparr>,
                Inr new_sid)))"

definition session_events :: "rmp \<Rightarrow> cbmr_writer \<Rightarrow> session_id \<Rightarrow> nat option \<Rightarrow> (store_error, stored_event list) result" where
  "session_events rmp s sid from = read_events rmp (index s) sid from"

definition pending_len :: "cbmr_writer \<Rightarrow> nat" where
  "pending_len s = length (pending_events s)"

definition last_offset :: "cbmr_writer \<Rightarrow> session_id \<Rightarrow> offset option" where
  "last_offset s sid = last_offset_by_session s sid"

definition transactions :: "cbmr_writer \<Rightarrow> nat" where
  "transactions s = transaction_count (index s)"

text \<open>One round of the background loop; an error is only logged.\<close>

definition flush_round :: "flush_env \<Rightarrow> cbmr_writer \<Rightarrow> cbmr_writer option" where
  "flush_round env s = (if pending_events s = [] then Some s else map_option fst (flush_sync env s))"

end
