(* ===== verification/Session_Fork.thy ===== *)
theory Session_Fork
  imports Session_Tree
begin

text \<open>
  What a fork shares with its parent in the tree index of theory \<open>Session_Tree\<close>: the prefix of a session that is
  not a fork itself, and what happens to it in a second fork; the lookup of the files behind a session;
  the rebuild of the index.
\<close>

section \<open>Forking\<close>

text \<open>Every event row belongs to a row of its own session that is a file of that session.\<close>

definition tree_ok :: "tree_index \<Rightarrow> bool" where
  "tree_ok t \<longleftrightarrow> distinct (map node_id (segments t)) \<and>
     (\<forall>x \<in> set (events t). \<exists>n \<in> set (segments t). node_id n = tuple_segment x \<and> node_session n = tuple_session x \<and>
        node_parent n = None \<and> node_start n \<le> tuple_offset x)"

text \<open>The rows of a session cover the offsets from \<open>a\<close> up to, but without, \<open>n\<close>.\<close>

fun covers :: "nat \<Rightarrow> segment_node list \<Rightarrow> nat \<Rightarrow> bool" where
  "covers a [] n \<longleftrightarrow> a = n"
| "covers a (r # rs) n \<longleftrightarrow> node_start r = a \<and> a \<le> node_end r \<and> covers (node_end r + 1) rs n"

lemma covers_le: "covers a rows n \<Longrightarrow> a \<le> n"
  by (induction rows arbitrary: a) fastforce+

lemma covers_above: "covers a rows n \<Longrightarrow> r \<in> set rows \<Longrightarrow> a \<le> node_start r"
  by (induction rows arbitrary: a) fastforce+

lemma copied_covers:
  assumes "covers a rows n" "a < k" "k \<le> n"
  shows "covers a (copied_rows rows k) k"
  using assms
proof (induction rows arbitrary: a)
  case (Cons r rs)
  have c: "node_start r = a" "a \<le> node_end r" "covers (node_end r + 1) rs n" using Cons.prems by auto
  show ?case
  proof (cases "k \<le> node_end r + 1")
    case True
    have "filter (\<lambda>r. node_start r < k) rs = []" using covers_above [OF c(3)] True by (fastforce simp: filter_empty_conv)
    then show ?thesis using c True Cons.prems by (auto simp: copied_rows_def)
  next
    case False
    then show ?thesis using Cons.IH [OF c(3)] c Cons.prems by (auto simp: copied_rows_def)
  qed
qed simp

lemma covers_bounds: "covers a rows n \<Longrightarrow> rows \<noteq> [] \<Longrightarrow> node_start (hd rows) = a \<and> node_end (last rows) = n - 1"
  by (induction rows arbitrary: a) (auto split: if_splits)

lemma covers_end: "covers a rows n \<Longrightarrow> r \<in> set rows \<Longrightarrow> node_end r < n"
proof (induction rows arbitrary: a)
  case (Cons x rows)
  then show ?case using covers_le [of "node_end x + 1" rows n] by auto
qed simp

lemma covers_check: "covers 0 rows k \<Longrightarrow> check_cover rows k = Inr ()"
  using covers_bounds [of 0 rows k] by (auto simp: check_cover_def)

text \<open>The rows that a fork adds.\<close>

definition copies :: "session_id \<Rightarrow> (nat \<Rightarrow> segment_id) \<Rightarrow> nat \<Rightarrow> segment_node list \<Rightarrow> segment_node list" where
  "copies new fresh k rs =
     map (\<lambda>(j, r). \<lparr>node_id = fresh j, node_session = new, node_index = node_index r, node_parent = Some (node_id r),
                    node_start = node_start r, node_end = node_end r\<rparr>) (enumerate k rs)"

lemma copies_simps [simp]:
  "copies new fresh k [] = []"
  "copies new fresh k (r # rs) =
     \<lparr>node_id = fresh k, node_session = new, node_index = node_index r, node_parent = Some (node_id r),
      node_start = node_start r, node_end = node_end r\<rparr> # copies new fresh (Suc k) rs"
  by (simp_all add: copies_def)

lemma copies_fields [simp]:
  "map node_parent (copies new fresh k rs) = map (\<lambda>r. Some (node_id r)) rs"
  "map node_end (copies new fresh k rs) = map node_end rs" "map node_start (copies new fresh k rs) = map node_start rs"
  "map node_index (copies new fresh k rs) = map node_index rs"
  by (induction rs arbitrary: k) simp_all

lemma copies_mem: "n \<in> set (copies new fresh k rs) \<Longrightarrow> node_session n = new \<and> node_parent n \<noteq> None \<and> node_id n \<in> range fresh"
  by (induction rs arbitrary: k) auto

lemma insert_copies_ok:
  "inj fresh \<Longrightarrow> \<forall>j \<ge> k. fresh j \<notin> node_id ` set tab \<Longrightarrow> insert_copies new fresh k rs tab = (tab @ copies new fresh k rs, Inr ())"
proof (induction rs arbitrary: k tab)
  case (Cons r rs)
  let ?c = "\<lparr>node_id = fresh k, node_session = new, node_index = node_index r, node_parent = Some (node_id r),
      node_start = node_start r, node_end = node_end r\<rparr>"
  have "\<not> list_ex (\<lambda>x. node_id x = fresh k) tab" using Cons.prems(2) by (force simp: list_ex_iff)
  moreover have "insert_copies new fresh (Suc k) rs (tab @ [?c]) = ((tab @ [?c]) @ copies new fresh (Suc k) rs, Inr ())"
    using Cons.prems by (intro Cons.IH) (auto dest: injD)
  ultimately show ?case by simp
qed simp

text \<open>Identifiers that no row of the tables has yet.\<close>

definition unused :: "tree_index \<Rightarrow> session_id \<Rightarrow> (nat \<Rightarrow> segment_id) \<Rightarrow> bool" where
  "unused t new fresh \<longleftrightarrow> inj fresh \<and> (\<forall>j. fresh j \<notin> node_id ` set (segments t)) \<and>
     (\<forall>n \<in> set (segments t). node_session n \<noteq> new) \<and> (\<forall>x \<in> set (events t). tuple_session x \<noteq> new)"

lemma fork_ok:
  assumes "check_cover (copied_rows (query_segment_nodes t sid) k) k = Inr ()" "unused t new fresh"
  shows "fork t sid k new fresh = (t\<lparr>segments := segments t @ copies new fresh 0 (copied_rows (query_segment_nodes t sid) k)\<rparr>, Inr new)"
  using assms insert_copies_ok [of fresh 0 "segments t" new] by (simp add: fork_def unused_def Let_def)

lemma fork_Ok_cases:
  assumes "fork t sid k new fresh = (t', Inr c)" "unused t new fresh"
  shows "c = new \<and> check_cover (copied_rows (query_segment_nodes t sid) k) k = Inr () \<and>
    t' = t\<lparr>segments := segments t @ copies new fresh 0 (copied_rows (query_segment_nodes t sid) k)\<rparr>"
proof (cases "check_cover (copied_rows (query_segment_nodes t sid) k) k")
  case (Inr u)
  then show ?thesis using fork_ok [of t sid k new fresh] assms by simp
qed (use assms in \<open>simp add: fork_def Let_def\<close>)

lemma fork_rows_append:
  "fork_rows (t\<lparr>segments := segments t @ cs\<rparr>) s = fork_rows t s @ filter (\<lambda>r. node_session r = s \<and> node_parent r \<noteq> None) cs"
  by (simp add: fork_rows_def)

lemma fork_rows_new:
  assumes "unused t new fresh"
  shows "fork_rows (t\<lparr>segments := segments t @ copies new fresh 0 rs\<rparr>) new = copies new fresh 0 rs"
proof -
  have "fork_rows t new = []" using assms by (auto simp: fork_rows_def unused_def filter_empty_conv)
  moreover have "filter (\<lambda>r. node_session r = new \<and> node_parent r \<noteq> None) (copies new fresh 0 rs) = copies new fresh 0 rs"
    using copies_mem [of _ new fresh 0 rs] by (simp add: filter_id_conv)
  ultimately show ?thesis by (simp add: fork_rows_append)
qed

lemma fork_rows_other:
  assumes "s \<noteq> new"
  shows "fork_rows (t\<lparr>segments := segments t @ copies new fresh 0 rs\<rparr>) s = fork_rows t s"
proof -
  have "filter (\<lambda>r. node_session r = s \<and> node_parent r \<noteq> None) (copies new fresh 0 rs) = []"
    using copies_mem [of _ new fresh 0 rs] assms by (auto simp: filter_empty_conv)
  then show ?thesis by (simp add: fork_rows_append)
qed

lemma read_events_cong:
  "fork_rows t' s = fork_rows t s \<Longrightarrow> events t' = events t \<Longrightarrow> read_events rmp t' s f = read_events rmp t s f"
proof -
  assume r: "fork_rows t' s = fork_rows t s" "events t' = events t"
  then have "prefix_tuples t' s = prefix_tuples t s" "own_tuples t' s = own_tuples t s"
    by (simp_all only: fun_eq_iff prefix_tuples_def own_tuples_def prefix_end_def simp_thms)
  then show ?thesis unfolding read_events_def by (simp only:)
qed

lemma foldl_max: "foldl max (a :: nat) xs = Max (insert a (set xs))"
proof (induction xs arbitrary: a)
  case (Cons x xs)
  have "insert (max a x) (set xs) \<noteq> {}" by simp
  have "Max (insert a (set (x # xs))) = max a (Max (insert x (set xs)))" by simp
  also have "\<dots> = Max (insert (max a x) (set xs))"
    by (cases "xs = []") (simp_all add: max.assoc)
  finally show ?case using Cons by simp
qed simp

lemma prefix_end_Some:
  assumes "fork_rows t s \<noteq> []"
  shows "prefix_end t s = Some (Max (node_end ` set (fork_rows t s)))"
  using assms by (cases "fork_rows t s") (simp_all add: prefix_end_def foldl_max)

lemma covers_Max: "covers a rows n \<Longrightarrow> rows \<noteq> [] \<Longrightarrow> Max (node_end ` set rows) = n - 1"
proof -
  assume c: "covers a rows n" "rows \<noteq> []"
  then have "n - 1 = node_end (last rows)" using covers_bounds by simp
  then have "n - 1 \<in> node_end ` set rows" using c(2) by simp
  then show ?thesis using covers_end [OF c(1)] by (intro Max_eqI) fastforce+
qed

section \<open>Decoding\<close>

lemma decode_rows_filter:
  "decode_rows rmp xs = Inr es \<Longrightarrow>
   decode_rows rmp (filter (\<lambda>x. P (tuple_offset x)) xs) = Inr (filter (\<lambda>e. P (stored_offset e)) es)"
  by (induction xs arbitrary: es) (auto split: sum.splits)

lemma decode_rows_offsets: "decode_rows rmp xs = Inr es \<Longrightarrow> map stored_offset es = map tuple_offset xs"
  by (induction xs arbitrary: es) (auto split: sum.splits)

lemma decode_rows_append:
  "decode_rows rmp xs = Inr es \<Longrightarrow> decode_rows rmp ys = Inr fs \<Longrightarrow> decode_rows rmp (xs @ ys) = Inr (es @ fs)"
  by (induction xs arbitrary: es) (auto split: sum.splits)

section \<open>What a fork sees\<close>

text \<open>The rows the parent query finds for a fresh fork are those of the parent session below the fork point.\<close>

lemma prefix_of_fork:
  assumes "tree_ok t" "unused t new fresh" "covers 0 (query_segment_nodes t sid) n" "0 < k" "k \<le> n"
    "t' = t\<lparr>segments := segments t @ copies new fresh 0 (copied_rows (query_segment_nodes t sid) k)\<rparr>"
  shows "prefix_tuples t' new from = filter (\<lambda>x. tuple_offset x < k) (own_tuples t sid from)"
proof -
  let ?q = "query_segment_nodes t sid" and ?c = "copied_rows (query_segment_nodes t sid) k"
  have cov: "covers 0 ?c k" using copied_covers [OF assms(3-5)] .
  then have ne: "?c \<noteq> []" using assms(4) by (cases ?c) simp_all
  have fr: "fork_rows t' new = copies new fresh 0 ?c" using fork_rows_new [OF assms(2)] assms(6) by simp
  have "Max (node_end ` set ?c) = k - 1" using covers_Max [OF cov ne] .
  moreover have "node_end ` set (copies new fresh 0 ?c) = node_end ` set ?c"
    by (simp only: set_map [symmetric] copies_fields)
  moreover have "copies new fresh 0 ?c \<noteq> []" using ne by (cases ?c) simp_all
  ultimately have pe: "prefix_end t' new = Some (k - 1)" using prefix_end_Some [of t' new] fr by simp
  have ids: "Some i \<in> set (map node_parent (fork_rows t' new)) \<longleftrightarrow> (\<exists>r \<in> set ?q. node_id r = i \<and> node_start r < k)" for i
    unfolding fr copies_fields by (auto simp: copied_rows_def)
  have mem: "r \<in> set ?q \<longleftrightarrow> r \<in> set (segments t) \<and> node_session r = sid" for r by (auto simp: query_segment_nodes_def)
  have "Some (tuple_segment x) \<in> set (map node_parent (fork_rows t' new)) \<and> from \<le> tuple_offset x \<and> tuple_offset x \<le> k - 1 \<longleftrightarrow>
      tuple_offset x < k \<and> tuple_session x = sid \<and> from \<le> tuple_offset x" if x: "x \<in> set (events t)" for x
  proof -
    obtain m where m: "m \<in> set (segments t)" "node_id m = tuple_segment x" "node_session m = tuple_session x" "node_start m \<le> tuple_offset x"
      using assms(1) x by (auto simp: tree_ok_def)
    have u: "r = m" if "r \<in> set (segments t)" "node_id r = tuple_segment x" for r
      using assms(1) that m(1,2) by (metis inj_onD distinct_map tree_ok_def)
    have "(\<exists>r \<in> set ?q. node_id r = tuple_segment x \<and> node_start r < k) \<longleftrightarrow> tuple_session x = sid \<and> node_start m < k"
      using u m mem by metis
    then show ?thesis using m(4) assms(4) unfolding ids by auto
  qed
  then have "filter (\<lambda>x. Some (tuple_segment x) \<in> set (map node_parent (fork_rows t' new)) \<and> from \<le> tuple_offset x \<and> tuple_offset x \<le> k - 1) (events t)
      = filter (\<lambda>x. tuple_offset x < k \<and> tuple_session x = sid \<and> from \<le> tuple_offset x) (events t)"
    by (rule filter_cong [OF refl])
  moreover have "events t' = events t" using assms(6) by simp
  ultimately have p: "prefix_tuples t' new from = (if from < k then
      sort_key tuple_offset (filter (\<lambda>x. tuple_offset x < k \<and> tuple_session x = sid \<and> from \<le> tuple_offset x) (events t)) else [])"
    unfolding prefix_tuples_def pe using assms(4) by auto
  have "filter (\<lambda>x. tuple_offset x < k) (own_tuples t sid from) =
      sort_key tuple_offset (filter (\<lambda>x. tuple_offset x < k \<and> tuple_session x = sid \<and> from \<le> tuple_offset x) (events t))"
    by (auto simp: own_tuples_def filter_sort filter_filter intro!: arg_cong [of _ _ "sort_key tuple_offset"] filter_cong)
  moreover have "filter (\<lambda>x. tuple_offset x < k) (own_tuples t sid from) = []" if "\<not> from < k"
    using that by (auto simp: own_tuples_def filter_empty_conv)
  ultimately show ?thesis using p by simp
qed

lemma own_of_unused: "unused t new fresh \<Longrightarrow> events t' = events t \<Longrightarrow> own_tuples t' new from = []"
  by (auto simp: own_tuples_def unused_def filter_empty_conv)

lemma prefix_of_root: "fork_rows t sid = [] \<Longrightarrow> prefix_tuples t sid from = []"
  by (simp add: prefix_tuples_def prefix_end_def)

section \<open>The file behind a row\<close>

text \<open>\<open>lineage t i d r\<close>: from the row \<open>i\<close> it takes \<open>d\<close> references to reach the file row \<open>r\<close>.\<close>

inductive lineage :: "tree_index \<Rightarrow> segment_id \<Rightarrow> nat \<Rightarrow> segment_node \<Rightarrow> bool" for t where
  physical: "query_segment_node t i = Inr n \<Longrightarrow> node_parent n = None \<Longrightarrow> lineage t i 0 n"
| reference: "query_segment_node t i = Inr n \<Longrightarrow> node_parent n = Some p \<Longrightarrow> lineage t p d r \<Longrightarrow> lineage t i (Suc d) r"

lemma resolve_lineage:
  "lineage t i d r \<Longrightarrow>
   if k + d \<le> 64 then resolve_physical t i k = Inr (node_session r, node_index r)
   else \<exists>j. resolve_physical t i k = Inl (InvalidInput j)"
proof (induction arbitrary: k rule: lineage.induct)
  case (physical i n)
  then show ?case by (subst (1 2) resolve_physical.simps) simp
next
  case (reference i n p d r)
  have "resolve_physical t i k = (if 64 < k then Inl (InvalidInput i) else resolve_physical t p (k + 1))"
    by (subst resolve_physical.simps) (simp add: reference.hyps)
  with reference.IH [of "k + 1"] show ?case by (cases "64 < k") auto
qed

lemma lineage_unique: "lineage t i d r \<Longrightarrow> lineage t i d' r' \<Longrightarrow> d' = d"
proof (induction arbitrary: d' r' rule: lineage.induct)
  case (physical i n)
  from physical.prems show ?case
  proof (cases rule: lineage.cases)
    case (reference m p e)
    then show ?thesis using physical.hyps by simp
  qed simp
next
  case (reference i n p d r)
  from reference.prems show ?case
  proof (cases rule: lineage.cases)
    case physical
    then show ?thesis using reference.hyps by simp
  next
    case (reference m q e)
    then have "q = p" using \<open>query_segment_node t i = Inr n\<close> \<open>node_parent n = Some p\<close> by simp
    then show ?thesis using \<open>\<And>d' r'. lineage t p d' r' \<Longrightarrow> d' = d\<close> reference by blast
  qed
qed

lemma query_segment_node_append:
  "query_segment_node t i = Inr n \<Longrightarrow> query_segment_node (t\<lparr>segments := segments t @ rows\<rparr>) i = Inr n"
  by (auto simp: query_segment_node_def find_append split: option.splits)

lemma lineage_append: "lineage t i d r \<Longrightarrow> lineage (t\<lparr>segments := segments t @ rows\<rparr>) i d r"
  by (induction rule: lineage.induct) (auto intro: lineage.intros query_segment_node_append)

lemma find_copy:
  assumes "inj fresh" "j < length rs"
  shows "find (\<lambda>r. node_id r = fresh (k + j)) (copies new fresh k rs) = Some (copies new fresh k rs ! j)"
  using assms(2)
proof (induction rs arbitrary: k j)
  case (Cons r rs)
  show ?case
  proof (cases j)
    case (Suc i)
    then have "fresh k \<noteq> fresh (k + j)" using assms(1) by (auto dest: injD)
    then show ?thesis using Cons.IH [of i "Suc k"] Cons.prems Suc by simp
  qed simp
qed simp

lemma nth_copies:
  "j < length rs \<Longrightarrow> copies new fresh k rs ! j =
     \<lparr>node_id = fresh (k + j), node_session = new, node_index = node_index (rs ! j), node_parent = Some (node_id (rs ! j)),
      node_start = node_start (rs ! j), node_end = node_end (rs ! j)\<rparr>"
  by (simp add: copies_def nth_enumerate_eq)

lemma length_copies [simp]: "length (copies new fresh k rs) = length rs"
  by (simp add: copies_def)

lemma lineage_copy:
  assumes "unused t new fresh" "j < length rs" "lineage t (node_id (rs ! j)) d r"
  shows "lineage (t\<lparr>segments := segments t @ copies new fresh 0 rs\<rparr>) (fresh j) (Suc d) r"
proof (rule lineage.reference)
  let ?t = "t\<lparr>segments := segments t @ copies new fresh 0 rs\<rparr>"
  have "find (\<lambda>x. node_id x = fresh j) (segments t) = None" using assms(1) unfolding find_None_iff unused_def image_iff by metis
  then show "query_segment_node ?t (fresh j) = Inr (copies new fresh 0 rs ! j)"
    using find_copy [of fresh j rs 0 new] assms(1,2) by (simp add: query_segment_node_def find_append unused_def)
  show "node_parent (copies new fresh 0 rs ! j) = Some (node_id (rs ! j))" using assms(2) by (simp add: nth_copies)
  show "lineage ?t (node_id (rs ! j)) d r" using lineage_append [OF assms(3)] .
qed

lemma resolve_nodes_all:
  assumes "\<forall>n \<in> set ns. resolve_physical t (node_id n) 0 = Inr (loc n)"
  shows "resolve_nodes t ns = Inr (map (\<lambda>n. \<lparr>source_id = node_id n, file_session = fst (loc n), file_index = snd (loc n),
      source_parent = node_parent n, source_start = node_start n, source_end = node_end n\<rparr>) ns)"
  using assms by (induction ns) (auto split: prod.splits)

lemma resolve_nodes_fails:
  "n \<in> set ns \<Longrightarrow> resolve_physical t (node_id n) 0 = Inl e \<Longrightarrow> \<exists>e. resolve_nodes t ns = Inl e"
  by (induction ns) (auto split: sum.splits)

text \<open>The rows of a fresh fork, in the order of the query.\<close>

lemma query_of_fork:
  assumes "unused t new fresh"
  shows "query_segment_nodes (t\<lparr>segments := segments t @ copies new fresh 0 (copied_rows (query_segment_nodes t b) k)\<rparr>) new =
    copies new fresh 0 (copied_rows (query_segment_nodes t b) k)"
proof -
  let ?c = "copied_rows (query_segment_nodes t b) k"
  have "filter (\<lambda>r. node_session r = new) (segments t) = []" using assms by (auto simp: unused_def filter_empty_conv)
  moreover have "filter (\<lambda>r. node_session r = new) (copies new fresh 0 ?c) = copies new fresh 0 ?c"
    using copies_mem [of _ new fresh 0 ?c] by (simp add: filter_id_conv)
  moreover have "map node_index (copies new fresh 0 ?c) = map node_index (filter (\<lambda>r. node_start r < k) (query_segment_nodes t b))"
    by (simp add: copied_rows_def comp_def)
  then have "sorted (map node_index (copies new fresh 0 ?c))"
    by (simp add: query_segment_nodes_def filter_sort)
  ultimately show ?thesis by (simp add: query_segment_nodes_def sort_key_id_if_sorted)
qed

lemma copied_ids: "node_id ` set (copied_rows rows k) = node_id ` {r \<in> set rows. node_start r < k}"
proof -
  have "map node_id (copied_rows rows k) = map node_id (filter (\<lambda>r. node_start r < k) rows)"
    by (auto simp: copied_rows_def)
  then show ?thesis by (metis set_map set_filter)
qed

lemma map_copies:
  "map (\<lambda>n. F (node_parent n) (node_start n) (node_end n)) (copies new fresh k rs) =
   map (\<lambda>r. F (Some (node_id r)) (node_start r) (node_end r)) rs"
  by (induction rs arbitrary: k) simp_all

lemma file_of_fork:
  assumes "unused t new fresh" "n \<in> set (copies new fresh 0 rs)" "node_parent n = Some i" "lineage t i d r" "d < 64"
  shows "resolve_physical (t\<lparr>segments := segments t @ copies new fresh 0 rs\<rparr>) (node_id n) 0 = resolve_physical t i 0"
proof -
  obtain j where j: "j < length rs" "n = copies new fresh 0 rs ! j" using assms(2) by (metis in_set_conv_nth length_copies)
  then have i: "i = node_id (rs ! j)" "node_id n = fresh j" using assms(3) by (simp_all add: nth_copies)
  have l: "lineage t (node_id (rs ! j)) d r" using assms(4) i by simp
  from resolve_lineage [OF lineage_copy [OF assms(1) j(1) l], of 0] resolve_lineage [OF l, of 0] assms(5)
  show ?thesis by (simp add: i)
qed

text \<open>
  Rows are copied in the order of their segment index, in which the copied rows of a fork and its own rows are
  mixed. A fork whose parent had several segments below the fork point can therefore not be forked
  behind that point: the last row in this order is a copied one, and the check finds the history short.
\<close>

lemma fork_of_fork_rejected:
  assumes "r0 \<in> set (query_segment_nodes t b)" "0 < node_index r0" "node_start r0 < j"
    "\<forall>r \<in> set (query_segment_nodes t b). 0 < node_index r \<longrightarrow> node_end r < k" "k < j"
  shows "\<exists>e. fork t b j new fresh = (t, Inl (ForkViolation e))"
proof -
  let ?F = "filter (\<lambda>r. node_start r < j) (query_segment_nodes t b)" and ?c = "copied_rows (query_segment_nodes t b) j"
  have r0: "r0 \<in> set ?F" using assms(1,3) by simp
  then have ne: "?F \<noteq> []" by (metis empty_iff empty_set)
  have "sorted (map node_index ?F)" by (simp add: query_segment_nodes_def filter_sort)
  moreover have "sorted (xs :: nat list) \<Longrightarrow> x \<in> set xs \<Longrightarrow> x \<le> last xs" for xs x by (induction xs) auto
  moreover have "node_index r0 \<in> set (map node_index ?F)" unfolding set_map by (rule imageI [OF r0])
  ultimately have "node_index r0 \<le> last (map node_index ?F)" by blast
  then have "0 < node_index (last ?F)" using assms(2) ne by (simp add: last_map)
  moreover have "last ?F \<in> set (query_segment_nodes t b)" using last_in_set [OF ne] by simp
  ultimately have "node_end (last ?F) < k" using assms(4) by blast
  then have "node_end (last ?c) \<noteq> j - 1" "?c \<noteq> []" using assms(5) ne by (auto simp: copied_rows_def last_map)
  then have "\<exists>e. check_cover ?c j = Inl (ForkViolation e)" using assms(5) by (auto simp: check_cover_def)
  then show ?thesis by (auto simp: fork_def Let_def)
qed

section \<open>Well-formed tables\<close>

text \<open>Every operation keeps the tables well formed, if the events it adds belong to a file row of their session.\<close>

lemma tree_ok_segments:
  "tree_ok (t\<lparr>segments := rows\<rparr>) \<longleftrightarrow> distinct (map node_id rows) \<and>
     (\<forall>x \<in> set (events t). \<exists>n \<in> set rows. node_id n = tuple_segment x \<and> node_session n = tuple_session x \<and>
        node_parent n = None \<and> node_start n \<le> tuple_offset x)"
  by (simp add: tree_ok_def)

lemma tree_ok_open [inv_intros]: "tree_ok tree_open"
  by (simp add: tree_ok_def tree_open_def)

lemma tree_ok_insert_segment [inv_intros]:
  assumes "tree_ok t" "insert_segment t m = (t', r)"
  shows "tree_ok t'"
proof -
  let ?n = "node_of_meta m"
  let ?g = "\<lambda>r. if node_id r = node_id ?n then r\<lparr>node_end := node_end ?n\<rparr> else r"
  have "tree_ok (t\<lparr>segments := upsert_segment ?n (segments t)\<rparr>)"
  proof (cases "list_ex (\<lambda>r. node_id r = node_id ?n) (segments t)")
    case True
    then have u: "upsert_segment ?n (segments t) = map ?g (segments t)" by (simp add: upsert_segment_def)
    have ids: "map node_id (map ?g (segments t)) = map node_id (segments t)" by simp
    have same: "node_id (?g n) = node_id n \<and> node_session (?g n) = node_session n \<and> node_parent (?g n) = node_parent n \<and>
      node_start (?g n) = node_start n" for n by simp
    have "\<exists>n \<in> set (map ?g (segments t)). node_id n = tuple_segment x \<and> node_session n = tuple_session x \<and> node_parent n = None \<and>
        node_start n \<le> tuple_offset x" if "x \<in> set (events t)" for x
    proof -
      obtain n where n: "n \<in> set (segments t)" "node_id n = tuple_segment x" "node_session n = tuple_session x" "node_parent n = None"
        "node_start n \<le> tuple_offset x" using assms(1) \<open>x \<in> set (events t)\<close> unfolding tree_ok_def by blast
      then have "?g n \<in> set (map ?g (segments t))" unfolding set_map by (intro imageI)
      moreover have "node_id (?g n) = tuple_segment x \<and> node_session (?g n) = tuple_session x \<and> node_parent (?g n) = None \<and>
          node_start (?g n) \<le> tuple_offset x" using same [of n] n(2-5) by simp
      ultimately show ?thesis by blast
    qed
    moreover have "distinct (map node_id (map ?g (segments t)))" unfolding ids using assms(1) by (simp add: tree_ok_def)
    ultimately show ?thesis unfolding tree_ok_segments u by blast
  next
    case False
    then have u: "upsert_segment ?n (segments t) = segments t @ [?n]" by (simp add: upsert_segment_def)
    have "node_id ?n \<notin> set (map node_id (segments t))" using False by (auto simp: list_ex_iff)
    then show ?thesis using assms(1) unfolding tree_ok_def u by auto
  qed
  then show ?thesis using assms by (auto simp: insert_segment_def split: if_splits)
qed

lemma insert_rows_result:
  "insert_rows rmp rows tab = Inr tab' \<Longrightarrow>
   \<exists>xs. tab' = tab @ xs \<and> map (\<lambda>x. (tuple_offset x, tuple_session x, tuple_segment x)) xs = map (\<lambda>r. (row_offset r, row_session r, row_segment r)) rows"
proof (induction rows arbitrary: tab)
  case (Cons r rows)
  obtain bs where "rmp_to_vec rmp (row_event r) = Inr bs"
    "insert_rows rmp rows (tab @ [\<lparr>tuple_offset = row_offset r, tuple_session = row_session r, tuple_segment = row_segment r, tuple_payload = bs\<rparr>]) = Inr tab'"
    using Cons.prems by (auto split: sum.splits if_splits)
  from Cons.IH [OF this(2)] obtain xs where "tab' = (tab @ [\<lparr>tuple_offset = row_offset r, tuple_session = row_session r, tuple_segment = row_segment r, tuple_payload = bs\<rparr>]) @ xs"
    "map (\<lambda>x. (tuple_offset x, tuple_session x, tuple_segment x)) xs = map (\<lambda>r. (row_offset r, row_session r, row_segment r)) rows" by blast
  then show ?case
    by (intro exI [of _ "\<lparr>tuple_offset = row_offset r, tuple_session = row_session r, tuple_segment = row_segment r, tuple_payload = bs\<rparr> # xs"]) simp
qed simp

lemma tree_ok_insert_events [inv_intros]:
  assumes "tree_ok t" "insert_events rmp t rows = (t', r)"
    "\<forall>x \<in> set rows. \<exists>n \<in> set (segments t). node_id n = row_segment x \<and> node_session n = row_session x \<and> node_parent n = None \<and> node_start n \<le> row_offset x"
  shows "tree_ok t'"
proof (cases "insert_rows rmp rows (events t)")
  case (Inr tab)
  obtain xs where xs: "tab = events t @ xs"
    "map (\<lambda>x. (tuple_offset x, tuple_session x, tuple_segment x)) xs = map (\<lambda>r. (row_offset r, row_session r, row_segment r)) rows"
    using insert_rows_result [OF Inr] by blast
  have "\<exists>y \<in> set rows. tuple_offset x = row_offset y \<and> tuple_session x = row_session y \<and> tuple_segment x = row_segment y" if "x \<in> set xs" for x
  proof -
    have "(tuple_offset x, tuple_session x, tuple_segment x) \<in> set (map (\<lambda>r. (row_offset r, row_session r, row_segment r)) rows)"
      unfolding xs(2) [symmetric] using that by force
    then show ?thesis by auto
  qed
  then have "\<exists>n \<in> set (segments t). node_id n = tuple_segment x \<and> node_session n = tuple_session x \<and> node_parent n = None \<and> node_start n \<le> tuple_offset x"
    if "x \<in> set xs" for x using that assms(3) by metis
  then have "tree_ok (t\<lparr>events := tab, transaction_count := transaction_count t + 1\<rparr>)" using assms(1) unfolding tree_ok_def xs(1) by auto
  then show ?thesis using assms Inr by (auto simp: insert_events_def split: if_splits)
qed (use assms in \<open>auto simp: insert_events_def split: if_splits\<close>)

lemma tree_ok_fork [inv_intros]:
  assumes "tree_ok t" "unused t new fresh" "fork t sid k new fresh = (t', Inr c)"
  shows "tree_ok t'"
proof -
  let ?rs = "copied_rows (query_segment_nodes t sid) k"
  have t': "t' = t\<lparr>segments := segments t @ copies new fresh 0 ?rs\<rparr>" using fork_Ok_cases [OF assms(3,2)] by simp
  have "map node_id (copies new fresh i rs) = map fresh [i..<i + length rs]" for i rs
    by (induction rs arbitrary: i) (simp_all add: upt_conv_Cons del: upt_Suc)
  moreover have "distinct (map fresh js) \<longleftrightarrow> distinct js" for js using assms(2) by (auto simp: unused_def distinct_map intro: inj_on_subset)
  ultimately have "distinct (map node_id (copies new fresh 0 ?rs))" by simp
  moreover have "set (map node_id (segments t)) \<inter> set (map node_id (copies new fresh 0 ?rs)) = {}"
  proof -
    have "set (map node_id (copies new fresh 0 ?rs)) \<subseteq> range fresh" using copies_mem [of _ new fresh 0 ?rs] by auto
    moreover have "set (map node_id (segments t)) \<inter> range fresh = {}" using assms(2) unfolding unused_def set_map
      by (metis (no_types, lifting) disjoint_iff rangeE)
    ultimately show ?thesis by blast
  qed
  ultimately have "distinct (map node_id (segments t @ copies new fresh 0 ?rs))" using assms(1) by (simp add: tree_ok_def)
  moreover have "\<forall>x \<in> set (events t). \<exists>n \<in> set (segments t @ copies new fresh 0 ?rs). node_id n = tuple_segment x \<and>
      node_session n = tuple_session x \<and> node_parent n = None \<and> node_start n \<le> tuple_offset x"
    using assms(1) unfolding tree_ok_def set_append by blast
  ultimately show ?thesis unfolding t' tree_ok_segments by blast
qed

section \<open>A concrete tree\<close>

text \<open>
  A session with one segment of two events; the same session with a fork that has a segment of its own
  behind them. All events are encoded as the empty byte string.
\<close>

definition demo_rmp :: rmp where
  "demo_rmp = \<lparr>rmp_to_vec = (\<lambda>_. Inr []), rmp_from_slice = (\<lambda>_. Inr (plain_event ''hi''))\<rparr>"

definition demo_tuple :: "session_id \<Rightarrow> segment_id \<Rightarrow> nat \<Rightarrow> event_tuple" where
  "demo_tuple s i n = \<lparr>tuple_offset = n, tuple_session = s, tuple_segment = i, tuple_payload = []\<rparr>"

definition demo_node :: "segment_id \<Rightarrow> session_id \<Rightarrow> segment_id option \<Rightarrow> nat \<Rightarrow> nat \<Rightarrow> segment_node" where
  "demo_node i s p a e = \<lparr>node_id = i, node_session = s, node_index = 0, node_parent = p, node_start = a, node_end = e\<rparr>"

definition demo_tree :: tree_index where
  "demo_tree =
     \<lparr>segments = [demo_node ''sa'' ''a'' None 0 1], events = [demo_tuple ''a'' ''sa'' 0, demo_tuple ''a'' ''sa'' 1], transaction_count = 1\<rparr>"

definition demo_forked :: tree_index where
  "demo_forked =
     \<lparr>segments = [demo_node ''sa'' ''a'' None 0 1, demo_node ''b0'' ''b'' (Some ''sa'') 0 1, demo_node ''sb'' ''b'' None 2 2],
      events = [demo_tuple ''a'' ''sa'' 0, demo_tuple ''a'' ''sa'' 1, demo_tuple ''b'' ''sb'' 2], transaction_count = 2\<rparr>"

definition demo_fresh :: "nat \<Rightarrow> segment_id" where
  "demo_fresh j = ''f'' @ replicate j CHR ''x''"

lemma demo_fresh_inj: "inj demo_fresh"
  by (rule injI) (auto simp: demo_fresh_def dest: arg_cong [of _ _ length])

lemma demo_unused: "unused demo_tree ''b'' demo_fresh" "unused demo_forked ''c'' demo_fresh"
  using demo_fresh_inj by (auto simp: unused_def demo_tree_def demo_forked_def demo_node_def demo_tuple_def demo_fresh_def)

lemma demo_tree_ok: "tree_ok demo_tree" "tree_ok demo_forked"
  by (auto simp: tree_ok_def demo_tree_def demo_forked_def demo_node_def demo_tuple_def)

lemma demo_query: "query_segment_nodes demo_tree ''a'' = [demo_node ''sa'' ''a'' None 0 1]"
  "query_segment_nodes demo_forked ''b'' = [demo_node ''b0'' ''b'' (Some ''sa'') 0 1, demo_node ''sb'' ''b'' None 2 2]"
  by (simp_all add: query_segment_nodes_def demo_tree_def demo_forked_def demo_node_def)

lemma demo_read:
  "read_events demo_rmp demo_tree ''a'' None = Inr [\<lparr>stored_offset = 0, stored = plain_event ''hi''\<rparr>, \<lparr>stored_offset = 1, stored = plain_event ''hi''\<rparr>]"
  by (simp add: read_events_def prefix_tuples_def prefix_end_def fork_rows_def own_tuples_def demo_tree_def demo_node_def demo_tuple_def
      demo_rmp_def sql_int_def)

section \<open>Properties\<close>

text \<open>
  C16: a fork shares its parent's history. Forking a session that is not itself a fork, at any point of
  its history, succeeds without touching an event row; the new session reads exactly the events of the
  parent before the fork point, and every other session reads what it read before.
\<close>

theorem fork_shares_prefix:
  assumes "tree_ok t" "unused t new fresh" "covers 0 (query_segment_nodes t sid) n" "k \<le> n"
    "\<forall>r \<in> set (query_segment_nodes t sid). node_parent r = None" "read_events rmp t sid from = Inr es"
  shows "\<exists>t'. fork t sid k new fresh = (t', Inr new) \<and> events t' = events t \<and>
    read_events rmp t' new from = Inr (filter (\<lambda>e. stored_offset e < k) es) \<and>
    (\<forall>s f. s \<noteq> new \<longrightarrow> read_events rmp t' s f = read_events rmp t s f)"
proof -
  let ?f = "case from of None \<Rightarrow> 0 | Some f \<Rightarrow> f" and ?c = "copied_rows (query_segment_nodes t sid) k"
  let ?t' = "t\<lparr>segments := segments t @ copies new fresh 0 ?c\<rparr>"
  have "fork_rows t sid = []" using assms(5) by (auto simp: fork_rows_def query_segment_nodes_def filter_empty_conv)
  then have es: "decode_rows rmp (own_tuples t sid ?f) = Inr es" "sql_int ?f"
    using assms(6) prefix_of_root [of t sid ?f] by (auto simp: read_events_def Let_def split: if_splits sum.splits)
  have chk: "check_cover ?c k = Inr ()"
    using covers_check [OF copied_covers [OF assms(3) _ assms(4)]] by (cases "k = 0") (simp_all add: check_cover_def)
  have pre: "prefix_tuples ?t' new ?f = filter (\<lambda>x. tuple_offset x < k) (own_tuples t sid ?f)"
  proof (cases "k = 0")
    case True
    then have "fork_rows ?t' new = []" using fork_rows_new [OF assms(2), of ?c] by (simp add: copied_rows_def)
    then show ?thesis using True prefix_of_root by simp
  next
    case False
    then show ?thesis by (intro prefix_of_fork [OF assms(1-3) _ assms(4) refl]) simp
  qed
  have own: "own_tuples ?t' new ?f = []" by (rule own_of_unused [OF assms(2)]) simp
  have "read_events rmp ?t' new from = Inr (filter (\<lambda>e. stored_offset e < k) es)"
    using decode_rows_filter [OF es(1), of "\<lambda>u. u < k"] es(2) unfolding read_events_def Let_def pre own by simp
  moreover have "\<forall>s f. s \<noteq> new \<longrightarrow> read_events rmp ?t' s f = read_events rmp t s f"
    using read_events_cong [OF fork_rows_other] by simp
  ultimately show ?thesis using fork_ok [OF chk assms(2)] by auto
qed

theorem fork_shares_prefix_witness:
  "\<exists>t'. fork demo_tree ''a'' 1 ''b'' demo_fresh = (t', Inr ''b'') \<and>
     read_events demo_rmp t' ''b'' None = Inr [\<lparr>stored_offset = 0, stored = plain_event ''hi''\<rparr>]"
proof -
  have c: "covers 0 (query_segment_nodes demo_tree ''a'') 2" by (simp add: demo_query demo_node_def)
  show ?thesis
    using fork_shares_prefix [OF demo_tree_ok(1) demo_unused(1) c _ _ demo_read, of 1] by (auto simp: demo_query demo_node_def)
qed

text \<open>
  The files behind a fork. At every depth of forking below the limit of 64 references, a fork is
  replayed from the same files as its parent: its sources are those of the parent that start before the
  fork point, each cut off at the fork point. A row at the limit can still be forked, but
  then no file is found for the new session.
\<close>

theorem fork_sources:
  assumes "unused t new fresh" "fork t b k new fresh = (t', Inr c)" "\<forall>n \<in> set (query_segment_nodes t b). \<exists>d r. lineage t (node_id n) d r \<and> d \<le> 64"
  shows "if \<exists>n \<in> set (query_segment_nodes t b). \<exists>r. node_start n < k \<and> lineage t (node_id n) 64 r
    then \<exists>e. segment_sources t' c = Inl e
    else \<exists>srcs srcs'. segment_sources t b = Inr srcs \<and> segment_sources t' c = Inr srcs' \<and>
      map (\<lambda>s. (file_session s, file_index s, source_start s, source_end s)) srcs' =
      map (\<lambda>s. (file_session s, file_index s, source_start s, min (source_end s) (k - 1))) (filter (\<lambda>s. source_start s < k) srcs)"
proof -
  let ?q = "query_segment_nodes t b"
  let ?rs = "copied_rows ?q k"
  let ?mk = "\<lambda>loc i p a e. (fst (loc i), snd (loc i), a, e)"
  note f = fork_Ok_cases [OF assms(2,1)]
  then have t': "t' = t\<lparr>segments := segments t @ copies new fresh 0 ?rs\<rparr>" and c: "c = new" by simp_all
  have q: "query_segment_nodes t' c = copies new fresh 0 ?rs" using query_of_fork [OF assms(1)] t' c by simp
  show ?thesis
  proof (cases "\<exists>n \<in> set ?q. \<exists>r. node_start n < k \<and> lineage t (node_id n) 64 r")
    case True
    then obtain n r where n: "n \<in> set ?q" "node_start n < k" "lineage t (node_id n) 64 r" by blast
    then have "node_id n \<in> node_id ` set ?rs" unfolding copied_ids by blast
    then obtain j where j: "j < length ?rs" "node_id (?rs ! j) = node_id n" by (auto simp: in_set_conv_nth)
    then have "lineage t' (fresh j) 65 r" using lineage_copy [OF assms(1) j(1), of 64 r] n(3) t' by simp
    then obtain e where "resolve_physical t' (fresh j) 0 = Inl e" using resolve_lineage [of t' "fresh j" 65 r 0] by auto
    moreover have "copies new fresh 0 ?rs ! j \<in> set (copies new fresh 0 ?rs)" "node_id (copies new fresh 0 ?rs ! j) = fresh j"
      using j(1) nth_mem [of j "copies new fresh 0 ?rs"] by (simp_all add: nth_copies)
    ultimately show ?thesis using True resolve_nodes_fails q unfolding segment_sources_def by metis
  next
    case False
    have "\<forall>n \<in> set ?q. \<exists>p. resolve_physical t (node_id n) 0 = Inr p" using assms(3) resolve_lineage [of t _ _ _ 0] by fastforce
    then have loc: "\<forall>n \<in> set ?q. resolve_physical t (node_id n) 0 = Inr (projr (resolve_physical t (node_id n) 0))" by fastforce
    define loc where "loc i = projr (resolve_physical t i 0)" for i
    note loc = loc [folded loc_def]
    have "resolve_physical t' (node_id n) 0 = Inr (loc (the (node_parent n)))" if n: "n \<in> set (copies new fresh 0 ?rs)" for n
    proof -
      have "node_parent n \<in> set (map node_parent (copies new fresh 0 ?rs))" unfolding set_map by (rule imageI [OF n])
      then have "node_parent n \<in> set (map (\<lambda>r. Some (node_id r)) ?rs)" unfolding copies_fields .
      then obtain x where x: "x \<in> set ?rs" "node_parent n = Some (node_id x)" by auto
      then have "node_id x \<in> node_id ` {r \<in> set ?q. node_start r < k}" unfolding copied_ids [symmetric] by blast
      then obtain m where m: "m \<in> set ?q" "node_start m < k" "node_parent n = Some (node_id m)" using x(2) by auto
      then obtain d r where "lineage t (node_id m) d r" "d < 64" using assms(3) False by (metis nless_le)
      from file_of_fork [OF assms(1) n m(3) this] loc m t' show ?thesis by simp
    qed
    then have "\<forall>n \<in> set (copies new fresh 0 ?rs). resolve_physical t' (node_id n) 0 = Inr (loc (the (node_parent n)))" by blast
    note R = resolve_nodes_all [OF this] resolve_nodes_all [OF loc]
    let ?F = "\<lambda>p a e. (fst (loc (the p)), snd (loc (the p)), a, e)"
    have cut: "?F (Some (node_id (if k \<le> node_end r then r\<lparr>node_end := k - 1\<rparr> else r)))
        (node_start (if k \<le> node_end r then r\<lparr>node_end := k - 1\<rparr> else r)) (node_end (if k \<le> node_end r then r\<lparr>node_end := k - 1\<rparr> else r)) =
      ?F (Some (node_id r)) (node_start r) (min (node_end r) (k - 1))" if "node_start r < k" for r using that by auto
    have "map (\<lambda>n. ?F (node_parent n) (node_start n) (node_end n)) (copies new fresh 0 ?rs) =
        map (\<lambda>r. ?F (Some (node_id r)) (node_start r) (node_end r)) ?rs"
      by (rule map_copies [of ?F])
    also have "\<dots> = map (\<lambda>r. ?F (Some (node_id r)) (node_start r) (min (node_end r) (k - 1))) (filter (\<lambda>r. node_start r < k) ?q)"
      unfolding copied_rows_def map_map comp_def by (rule map_cong [OF refl]) (use cut in simp)
    finally have "map (\<lambda>n. ?F (node_parent n) (node_start n) (node_end n)) (copies new fresh 0 ?rs) =
        map (\<lambda>r. ?F (Some (node_id r)) (node_start r) (min (node_end r) (k - 1))) (filter (\<lambda>r. node_start r < k) ?q)" .
    then show ?thesis using False R q by (simp add: segment_sources_def filter_map comp_def)
  qed
qed

theorem fork_sources_witness:
  "\<exists>t' srcs'. fork demo_tree ''a'' 1 ''b'' demo_fresh = (t', Inr ''b'') \<and> segment_sources t' ''b'' = Inr srcs' \<and>
     map (\<lambda>s. (file_session s, file_index s, source_start s, source_end s)) srcs' = [(''a'', 0, 0, 0)]"
proof -
  have n: "query_segment_node demo_tree ''sa'' = Inr (demo_node ''sa'' ''a'' None 0 1)" by (simp add: query_segment_node_def demo_tree_def demo_node_def)
  then have l: "lineage demo_tree ''sa'' 0 (demo_node ''sa'' ''a'' None 0 1)" by (rule lineage.physical) (simp add: demo_node_def)
  have no: "\<not> lineage demo_tree ''sa'' 64 r" for r
    by (rule notI, erule lineage.cases) (use n in \<open>auto simp: demo_node_def\<close>)
  obtain t' where t': "fork demo_tree ''a'' 1 ''b'' demo_fresh = (t', Inr ''b'')"
    using fork_ok [OF _ demo_unused(1), of "''a''" 1] by (auto simp: demo_query copied_rows_def check_cover_def demo_node_def)
  have src: "segment_sources demo_tree ''a'' = Inr [\<lparr>source_id = ''sa'', file_session = ''a'', file_index = 0, source_parent = None,
      source_start = 0, source_end = 1\<rparr>]"
    using resolve_lineage [OF l, of 0] by (simp add: segment_sources_def demo_query demo_node_def)
  have "\<forall>n \<in> set (query_segment_nodes demo_tree ''a''). \<exists>d r. lineage demo_tree (node_id n) d r \<and> d \<le> 64"
    using l by (auto simp: demo_query demo_node_def)
  from fork_sources [OF demo_unused(1) t' this] no src t' show ?thesis by (auto simp: demo_query demo_node_def)
qed

text \<open>
  A fork of a fork reads less than it should. When the parent is itself a fork, with files of its own from
  its fork point on, a fork of it is accepted as covering the history from offset 0, but reading it
  back through the index returns no event from before the parent's own fork point.
\<close>

theorem second_fork_loses_prefix:
  assumes "tree_ok t" "unused t new fresh" "fork t b j new fresh = (t', Inr c)" "0 < j"
    "\<forall>n \<in> set (segments t). node_session n = b \<and> node_parent n = None \<longrightarrow> k \<le> node_start n"
    "read_events rmp t' c from = Inr es"
  shows "(\<exists>n \<in> set (query_segment_nodes t' c). node_start n = 0) \<and> (\<forall>e \<in> set es. k \<le> stored_offset e)"
proof -
  let ?q = "query_segment_nodes t b" and ?f = "case from of None \<Rightarrow> 0 | Some f \<Rightarrow> f"
  let ?rs = "copied_rows ?q j"
  note f = fork_Ok_cases [OF assms(3,2)]
  then have t': "t' = t\<lparr>segments := segments t @ copies new fresh 0 ?rs\<rparr>" and c: "c = new" by simp_all
  have q: "query_segment_nodes t' c = copies new fresh 0 ?rs" using query_of_fork [OF assms(2)] t' c by simp
  have chk: "?rs \<noteq> []" "node_start (hd ?rs) = 0" using f assms(4) by (auto simp: check_cover_def split: if_splits)
  then have "\<exists>n \<in> set (copies new fresh 0 ?rs). node_start n = 0" by (cases ?rs) auto
  moreover have "k \<le> tuple_offset x" if x: "x \<in> set (prefix_tuples t' c ?f)" for x
  proof -
    have "x \<in> set (events t)" "Some (tuple_segment x) \<in> set (map node_parent (copies new fresh 0 ?rs))"
      using x fork_rows_new [OF assms(2), of ?rs] by (auto simp: prefix_tuples_def t' c split: option.splits if_splits)
    moreover from this(2) have "Some (tuple_segment x) \<in> Some ` node_id ` set ?q"
      unfolding copies_fields copied_rows_def by (auto split: if_splits)
    moreover obtain m where m: "m \<in> set (segments t)" "node_id m = tuple_segment x" "node_parent m = None" "node_start m \<le> tuple_offset x"
      using assms(1) calculation(1) by (auto simp: tree_ok_def)
    ultimately obtain r where r: "r \<in> set (segments t)" "node_session r = b" "node_id r = node_id m"
      by (auto simp: query_segment_nodes_def)
    then have "r = m" using m(1) assms(1) by (metis inj_onD distinct_map tree_ok_def)
    then show ?thesis using assms(5) m r by fastforce
  qed
  moreover have "own_tuples t' c ?f = []" by (rule own_of_unused [OF assms(2), folded c]) (simp add: t')
  ultimately show ?thesis
    using assms(6) q decode_rows_offsets [of rmp "prefix_tuples t' c ?f"]
    by (auto simp: read_events_def Let_def split: sum.splits if_splits) (metis (no_types) image_eqI image_iff list.set_map)
qed

theorem second_fork_loses_prefix_witness:
  "\<exists>t' es. fork demo_forked ''b'' 3 ''c'' demo_fresh = (t', Inr ''c'') \<and> read_events demo_rmp t' ''c'' None = Inr es \<and>
     (\<forall>e \<in> set es. 2 \<le> stored_offset e)"
proof -
  obtain t' where f: "fork demo_forked ''b'' 3 ''c'' demo_fresh = (t', Inr ''c'')"
    using fork_ok [OF _ demo_unused(2), of "''b''" 3] by (auto simp: demo_query copied_rows_def check_cover_def demo_node_def)
  have d: "\<exists>es. decode_rows demo_rmp xs = Inr es" for xs by (induction xs) (auto simp: demo_rmp_def)
  obtain es where es: "read_events demo_rmp t' ''c'' None = Inr es"
    using d [of "prefix_tuples t' ''c'' 0"] d [of "own_tuples t' ''c'' 0"] by (auto simp: read_events_def sql_int_def)
  have "\<forall>n \<in> set (segments demo_forked). node_session n = ''b'' \<and> node_parent n = None \<longrightarrow> 2 \<le> node_start n"
    by (auto simp: demo_forked_def demo_node_def)
  from second_fork_loses_prefix [OF demo_tree_ok(2) demo_unused(2) f _ this es] f es show ?thesis by auto
qed

end
