(* ===== verification/Writer_Log.thy ===== *)
theory Writer_Log
  imports Session_Writer Session_Fork
begin

text \<open>
  What a flush of theory \<open>Session_Writer\<close> does to a consistent store: the segment files and the index of
  every session grow by its queued events, in order and without a gap. The log of a session is the
  list of the event lists of its segments; the first offset of a session is its \<open>base\<close>, the fork point
  of a fork.
\<close>

section \<open>The data directory\<close>

lemma read_write [simp]: "read_file (write_file p bs d) q = (if q = p then Some bs else read_file d q)"
  by (simp add: read_file_def write_file_def update_conv')

lemma write_keys: "distinct (map fst d) \<Longrightarrow> distinct (map fst (write_file p bs d))"
  by (simp add: write_file_def distinct_update)

lemma listed_files:
  assumes "distinct (map fst d)" "\<And>i. read_file d (segment_path sid i) \<noteq> None \<longleftrightarrow> i < n"
  shows "list_segment_files d sid = [0..<n]"
proof -
  let ?l = "map snd (filter (\<lambda>p. fst p = file_stem sid) (map fst d))"
  have "set ?l = {i. (file_stem sid, i) \<in> set (map fst d)}" by force
  also have "\<dots> = {i. read_file d (segment_path sid i) \<noteq> None}"
    by (simp add: read_file_def segment_path_def map_of_eq_None_iff)
  also have "\<dots> = set [0..<n]" using assms(2) by auto
  finally have s: "set ?l = set [0..<n]" .
  have "inj_on snd (set (filter (\<lambda>p. fst p = file_stem sid) (map fst d)))" by (auto simp: inj_on_def)
  then have "distinct ?l" using assms(1) by (simp add: distinct_map)
  then show ?thesis unfolding list_segment_files_def using s by (intro sorted_distinct_set_unique) simp_all
qed

section \<open>The log of a session on disk\<close>

definition seg_start :: "nat \<Rightarrow> session_event list list \<Rightarrow> nat \<Rightarrow> nat" where
  "seg_start base segs i = base + length (concat (take i segs))"

definition seg_records :: "nat \<Rightarrow> session_event list list \<Rightarrow> nat \<Rightarrow> segment_record list" where
  "seg_records base segs i = records_of (seg_start base segs i) 0 (segs ! i)"

definition log_on_disk :: "codec \<Rightarrow> disk \<Rightarrow> session_id \<Rightarrow> nat \<Rightarrow> session_event list list \<Rightarrow> bool" where
  "log_on_disk cd d sid base segs \<longleftrightarrow> distinct (map fst d) \<and>
     (\<forall>i. read_file d (segment_path sid i) = (if i < length segs then Some (file_of cd (seg_records base segs i)) else None)) \<and>
     (\<forall>i < length segs. \<forall>r \<in> set (seg_records base segs i). encodable cd r)"

definition writer_at :: "codec \<Rightarrow> segment_writer \<Rightarrow> session_id \<Rightarrow> nat \<Rightarrow> session_event list list \<Rightarrow> bool" where
  "writer_at cd w sid base segs \<longleftrightarrow> segs \<noteq> [] \<and> seg_session w = sid \<and> segment_index w = length segs - 1 \<and>
     first_seq w = seg_start base segs (length segs - 1) \<and> seg_ok cd w (last segs)"

text \<open>Writing into the last segment and opening the next one.\<close>

definition extend_log :: "session_event list list \<Rightarrow> session_event list \<Rightarrow> session_event list list" where
  "extend_log segs evs = butlast segs @ [last segs @ evs]"

lemma extend_log_props:
  assumes "segs \<noteq> []"
  shows "length (extend_log segs evs) = length segs" "last (extend_log segs evs) = last segs @ evs"
    "concat (extend_log segs evs) = concat segs @ evs" "extend_log segs evs \<noteq> []"
    "i < length segs \<Longrightarrow> take i (extend_log segs evs) = take i segs"
    "i < length segs - 1 \<Longrightarrow> extend_log segs evs ! i = segs ! i"
    "extend_log segs evs ! (length segs - Suc 0) = last segs @ evs"
proof -
  obtain xs x where s: "segs = xs @ [x]" using assms by (metis rev_exhaust)
  show "length (extend_log segs evs) = length segs" "last (extend_log segs evs) = last segs @ evs"
    "concat (extend_log segs evs) = concat segs @ evs" "extend_log segs evs \<noteq> []"
    "i < length segs \<Longrightarrow> take i (extend_log segs evs) = take i segs"
    "i < length segs - 1 \<Longrightarrow> extend_log segs evs ! i = segs ! i"
    "extend_log segs evs ! (length segs - Suc 0) = last segs @ evs"
    by (simp_all add: extend_log_def s nth_append)
qed

lemma extend_log_start: "segs \<noteq> [] \<Longrightarrow> i < length segs \<Longrightarrow> seg_start base (extend_log segs evs) i = seg_start base segs i"
  by (simp add: seg_start_def extend_log_props)

lemma seg_start_last: "segs \<noteq> [] \<Longrightarrow> seg_start base segs (length segs - 1) + length (last segs) = base + length (concat segs)"
proof -
  assume "segs \<noteq> []"
  then obtain xs x where "segs = xs @ [x]" by (metis rev_exhaust)
  then show ?thesis by (simp add: seg_start_def)
qed

lemma append_batch_ids: "append_batch cd w evs fault = (w', r) \<Longrightarrow> seg_session w' = seg_session w \<and> segment_index w' = segment_index w"
proof -
  have e: "encode_events cd s0 r0 w evs buf offs = (w1, q) \<Longrightarrow> seg_session w1 = seg_session w \<and> segment_index w1 = segment_index w"
    for s0 r0 w buf offs w1 q
  proof (induction evs arbitrary: w buf offs)
    case (Cons ev evs)
    show ?case
      using Cons.prems Cons.IH [of "w\<lparr>next_seq := next_seq w + 1, row := row w + 1\<rparr>"]
      by (auto simp: Let_def rollback_batch_def split: sum.splits if_splits)
  qed simp
  assume "append_batch cd w evs fault = (w', r)"
  then show ?thesis
    by (auto simp: append_batch_def Let_def rollback_batch_def write_all_def dest: e split: if_splits prod.splits sum.splits io_fault.splits)
qed

lemma log_extended:
  assumes "log_on_disk cd d sid base segs" "segs \<noteq> []" "distinct (map fst d')"
    "\<And>i. read_file d' (segment_path sid i) =
       (if i = length segs - 1 then Some (file_of cd (records_of (seg_start base segs i) 0 (last segs @ evs))) else read_file d (segment_path sid i))"
    "\<forall>r \<in> set (records_of (seg_start base segs (length segs - 1)) 0 (last segs @ evs)). encodable cd r"
  shows "log_on_disk cd d' sid base (extend_log segs evs)"
proof -
  let ?j = "length segs - 1"
  have same: "seg_records base (extend_log segs evs) i = seg_records base segs i" if "i < ?j" for i
    using that assms(2) by (simp add: seg_records_def extend_log_props extend_log_start)
  have here: "seg_records base (extend_log segs evs) ?j = records_of (seg_start base segs ?j) 0 (last segs @ evs)"
    using assms(2) by (simp add: seg_records_def extend_log_props extend_log_start)
  have split: "i < length segs \<longleftrightarrow> i < ?j \<or> i = ?j" for i using assms(2) by (cases segs) auto
  have files: "read_file d' (segment_path sid i) =
      (if i < length (extend_log segs evs) then Some (file_of cd (seg_records base (extend_log segs evs) i)) else None)" for i
    using assms(1) same here split [of i] assms(2) unfolding assms(4) by (auto simp: log_on_disk_def extend_log_props)
  have "\<forall>r \<in> set (seg_records base (extend_log segs evs) i). encodable cd r" if "i < length (extend_log segs evs)" for i
  proof -
    have il: "i < length segs" using that assms(2) by (simp add: extend_log_props)
    then consider "i = ?j" | "i < ?j" using split by blast
    then show ?thesis
    proof cases
      case 1
      show ?thesis unfolding 1 here by (rule assms(5))
    next
      case 2
      then show ?thesis using same [OF 2] assms(1) il by (simp add: log_on_disk_def)
    qed
  qed
  with files assms(3) show ?thesis unfolding log_on_disk_def by blast
qed

lemma append_segment_log:
  assumes "log_on_disk cd d sid base segs" "writer_at cd w sid base segs" "evs \<noteq> []"
    "append_segment cd d w evs fault = (d', w', Inr offs)"
  shows "log_on_disk cd d' sid base (extend_log segs evs)" "writer_at cd w' sid base (extend_log segs evs)"
    "offs = map (\<lambda>i. Offset (base + length (concat segs) + i) (row w + i)) [0..<length evs]"
    "segment_path sid' i \<notin> range (segment_path sid) \<Longrightarrow> read_file d' (segment_path sid' i) = read_file d (segment_path sid' i)"
    "distinct (map fst d')"
proof -
  let ?p = "segment_path sid (length segs - 1)" and ?j = "length segs - 1"
  have w: "segs \<noteq> []" "seg_session w = sid" "segment_index w = ?j" "first_seq w = seg_start base segs ?j" "seg_ok cd w (last segs)"
    using assms(2) by (simp_all add: writer_at_def)
  have lst: "segs ! ?j = last segs" using w(1) by (simp add: last_conv_nth)
  have rf: "read_file d ?p = Some (content w)"
    using assms(1) w lst by (simp add: log_on_disk_def seg_records_def seg_ok_def)
  have "append_segment cd d w evs fault = (case append_batch cd w evs fault of (w1, res) \<Rightarrow> (write_file ?p (content w1) d, w1, res))"
    unfolding append_segment_def Let_def w(2,3) rf by simp
  then obtain w1 r where a: "append_batch cd w evs fault = (w1, r)" "d' = write_file ?p (content w1) d" "w' = w1" "r = Inr offs"
    using assms(4) by (cases "append_batch cd w evs fault") simp
  then have nf: "append_batch cd w evs NoFault = (w1, Inr offs)"
    using assms(3) by (cases fault) (auto simp: append_batch_def Let_def split: sum.splits prod.splits)
  note succ = append_batch_success [OF nf]
  have w1: "seg_session w1 = sid" "segment_index w1 = ?j" "first_seq w1 = first_seq w"
    using append_batch_ids [OF a(1)] succ w by simp_all
  have ok1: "seg_ok cd w1 (last segs @ evs)" using succ w(5) by (auto simp: seg_ok_def records_of_append)
  show wa: "writer_at cd w' sid base (extend_log segs evs)"
    using w w1 ok1 a(3) by (simp add: writer_at_def extend_log_props extend_log_start)
  have c1: "content w1 = file_of cd (records_of (seg_start base segs ?j) 0 (last segs @ evs))"
    and enc: "\<forall>r \<in> set (records_of (seg_start base segs ?j) 0 (last segs @ evs)). encodable cd r"
    using ok1 w w1 by (simp_all add: seg_ok_def)
  have dist: "distinct (map fst d')" using assms(1) a(2) write_keys by (simp add: log_on_disk_def)
  show "log_on_disk cd d' sid base (extend_log segs evs)"
    by (rule log_extended [OF assms(1) w(1) dist _ enc]) (auto simp: a(2) c1 segment_path_def)
  show "distinct (map fst d')" by (rule dist)
  have ns: "next_seq w = base + length (concat segs)" using w(4,5) seg_start_last [OF w(1), of base] by (simp add: seg_ok_def)
  have "map offset_of (records_of s r evs) = map (\<lambda>i. Offset (s + i) (r + i)) [0..<length evs]" for s r
  proof (induction evs arbitrary: s r)
    case (Cons e es)
    have "[0..<length (e # es)] = 0 # map Suc [0..<length es]" by (simp add: map_Suc_upt upt_conv_Cons del: upt_Suc)
    then show ?case using Cons.IH [of "s + 1" "r + 1"] by (simp add: offset_of_def comp_def)
  qed simp
  then show "offs = map (\<lambda>i. Offset (base + length (concat segs) + i) (row w + i)) [0..<length evs]" using succ ns by simp
  show "segment_path sid' i \<notin> range (segment_path sid) \<Longrightarrow> read_file d' (segment_path sid' i) = read_file d (segment_path sid' i)"
    using a(2) by auto
qed

lemma open_absent: "read_file d (segment_path sid idx) = None \<Longrightarrow>
  open_segment cd d sid idx start = (write_file (segment_path sid idx) [] d,
    Inr \<lparr>seg_session = sid, segment_index = idx, content = [], pos = 0, row = 0, next_seq = start, first_seq = start, last_fsync_ok = True\<rparr>)"
  by (simp add: open_segment_def open_or_create_def recover_tail_def recover_scan_end unframe_def)

lemma roll_log:
  assumes "log_on_disk cd d sid base segs" "writer_at cd (current st) sid base segs"
  obtains d' w where "roll cd fresh sid d st = (d', Inr \<lparr>current = w, current_segment_id = fresh (length segs)\<rparr>)"
    "log_on_disk cd d' sid base (segs @ [[]])" "writer_at cd w sid base (segs @ [[]])" "row w = 0"
    "\<And>sid' i. segment_path sid' i \<notin> range (segment_path sid) \<Longrightarrow> read_file d' (segment_path sid' i) = read_file d (segment_path sid' i)"
    "distinct (map fst d')"
proof -
  let ?d = "write_file (segment_path sid (length segs)) [] d"
  let ?w = "\<lparr>seg_session = sid, segment_index = length segs, content = [], pos = 0, row = 0, next_seq = base + length (concat segs),
    first_seq = base + length (concat segs), last_fsync_ok = True\<rparr>"
  have w: "segs \<noteq> []" "segment_index (current st) = length segs - 1" "next_seq (current st) = base + length (concat segs)"
    using assms(2) seg_start_last [of segs base] by (simp_all add: writer_at_def seg_ok_def)
  have none: "read_file d (segment_path sid (length segs)) = None" using assms(1) by (simp add: log_on_disk_def)
  have r: "roll cd fresh sid d st = (?d, Inr \<lparr>current = ?w, current_segment_id = fresh (length segs)\<rparr>)"
    using w open_absent [OF none] by (simp add: roll_def Let_def)
  have k: "distinct (map fst ?d)" using assms(1) write_keys by (simp add: log_on_disk_def)
  have recs: "seg_records base (segs @ [[]]) i = seg_records base segs i" if "i < length segs" for i
    using that by (simp add: seg_records_def seg_start_def nth_append)
  have nil: "seg_records base (segs @ [[]]) (length segs) = []" by (simp add: seg_records_def)
  have "log_on_disk cd ?d sid base (segs @ [[]])"
    unfolding log_on_disk_def
  proof (intro conjI allI impI)
    fix i
    show "read_file ?d (segment_path sid i) =
        (if i < length (segs @ [[]]) then Some (file_of cd (seg_records base (segs @ [[]]) i)) else None)"
    proof (cases "i = length segs")
      case True
      then show ?thesis by (simp add: nil)
    next
      case False
      then show ?thesis using assms(1) recs by (auto simp: log_on_disk_def segment_path_def)
    qed
    assume "i < length (segs @ [[]])"
    then show "\<forall>r \<in> set (seg_records base (segs @ [[]]) i). encodable cd r"
      using assms(1) recs [of i] nil by (cases "i = length segs") (auto simp: log_on_disk_def less_Suc_eq)
  qed (rule k)
  moreover have "writer_at cd ?w sid base (segs @ [[]])" by (simp add: writer_at_def seg_ok_def seg_start_def)
  moreover have "read_file ?d (segment_path sid' i) = read_file d (segment_path sid' i)" if "segment_path sid' i \<notin> range (segment_path sid)" for sid' i
    using that by auto
  ultimately show thesis using that r k by simp
qed

section \<open>The log of a session in the index\<close>

definition own_rows :: "segment_node list \<Rightarrow> session_id \<Rightarrow> segment_node list" where
  "own_rows rows sid = filter (\<lambda>n. node_session n = sid \<and> node_parent n = None) rows"

definition own_events :: "event_tuple list \<Rightarrow> session_id \<Rightarrow> event_tuple list" where
  "own_events xs sid = filter (\<lambda>x. tuple_session x = sid) xs"

definition payload_of :: "rmp \<Rightarrow> session_event \<Rightarrow> bytes" where
  "payload_of rmp ev = (case rmp_to_vec rmp ev of Inr bs \<Rightarrow> bs | Inl _ \<Rightarrow> [])"

definition tuple_of :: "rmp \<Rightarrow> event_row \<Rightarrow> event_tuple" where
  "tuple_of rmp r =
     \<lparr>tuple_offset = row_offset r, tuple_session = row_session r, tuple_segment = row_segment r,
      tuple_payload = payload_of rmp (row_event r)\<rparr>"

definition filled :: "session_event list list \<Rightarrow> nat" where
  "filled segs = (if segs = [] \<or> last segs \<noteq> [] then length segs else length segs - 1)"

definition row_data :: "nat \<Rightarrow> session_event list list \<Rightarrow> nat \<Rightarrow> nat \<times> nat \<times> nat" where
  "row_data base segs i = (i, seg_start base segs i, seg_start base segs i + length (segs ! i) - 1)"

text \<open>The event rows and the file rows of a session list its log; only its last segment may be empty.\<close>

definition indexed :: "rmp \<Rightarrow> segment_node list \<Rightarrow> event_tuple list \<Rightarrow> nat \<Rightarrow> session_event list list \<Rightarrow> bool" where
  "indexed rmp rs xs base segs \<longleftrightarrow>
     map tuple_offset xs = [base..<base + length (concat segs)] \<and> map tuple_payload xs = map (payload_of rmp) (concat segs) \<and>
     (\<forall>x \<in> set xs. \<exists>n \<in> set rs. node_id n = tuple_segment x \<and> node_start n \<le> tuple_offset x) \<and>
     map (\<lambda>n. (node_index n, node_start n, node_end n)) rs = map (row_data base segs) [0..<filled segs] \<and>
     (\<forall>x \<in> set (butlast segs). x \<noteq> [])"

text \<open>The identifier an open session writes under is that of its last row, or new if its last segment has no row yet.\<close>

definition id_ok :: "segment_node list \<Rightarrow> session_id \<Rightarrow> session_event list list \<Rightarrow> segment_id \<Rightarrow> bool" where
  "id_ok rows sid segs i \<longleftrightarrow>
     (if last segs = [] then i \<notin> node_id ` set rows else own_rows rows sid \<noteq> [] \<and> node_id (last (own_rows rows sid)) = i)"

definition last_row :: "session_id \<Rightarrow> nat \<Rightarrow> session_event list list \<Rightarrow> segment_id \<Rightarrow> segment_node" where
  "last_row sid base segs i =
     \<lparr>node_id = i, node_session = sid, node_index = length segs - 1, node_parent = None,
      node_start = seg_start base segs (length segs - 1), node_end = seg_start base segs (length segs - 1) + length (last segs) - 1\<rparr>"

lemma own_rows_append [simp]: "own_rows (xs @ ys) sid = own_rows xs sid @ own_rows ys sid"
  by (simp add: own_rows_def)

lemma own_events_append [simp]: "own_events (xs @ ys) sid = own_events xs sid @ own_events ys sid"
  by (simp add: own_events_def)

lemma row_data_extend:
  assumes "segs \<noteq> []" "i < length segs - 1"
  shows "row_data base (extend_log segs evs) i = row_data base segs i"
  using assms by (simp add: row_data_def extend_log_props extend_log_start)

lemma row_data_last: "segs \<noteq> [] \<Longrightarrow> row_data base segs (length segs - 1) =
    (length segs - 1, seg_start base segs (length segs - 1), seg_start base segs (length segs - 1) + length (last segs) - 1)"
  by (simp add: row_data_def last_conv_nth)

lemma filled_last: "segs \<noteq> [] \<Longrightarrow> last segs \<noteq> [] \<Longrightarrow> [0..<filled segs] = [0..<length segs - 1] @ [length segs - 1]"
  by (cases segs) (simp_all add: filled_def)

text \<open>
  The effect of noting a segment in the table of segments: its identifier is there, the rows of the other
  sessions and all copied rows are as before, and no row of the session is lost.
\<close>

definition row_noted :: "segment_node list \<Rightarrow> segment_node list \<Rightarrow> session_id \<Rightarrow> segment_id \<Rightarrow> nat \<Rightarrow> bool" where
  "row_noted rows rows' sid i start \<longleftrightarrow> distinct (map node_id rows') \<and> node_id ` set rows' = insert i (node_id ` set rows) \<and>
     (\<forall>s. s \<noteq> sid \<longrightarrow> own_rows rows' s = own_rows rows s) \<and>
     (\<forall>s. filter (\<lambda>n. node_session n = s \<and> node_parent n \<noteq> None) rows' = filter (\<lambda>n. node_session n = s \<and> node_parent n \<noteq> None) rows) \<and>
     (\<exists>n \<in> set (own_rows rows' sid). node_id n = i \<and> node_start n = start) \<and>
     (\<forall>n \<in> set (own_rows rows sid). \<exists>m \<in> set (own_rows rows' sid). node_id m = node_id n \<and> node_start m = node_start n)"

lemma note_new:
  assumes "distinct (map node_id rows)" "node_id n \<notin> node_id ` set rows" "node_parent n = None"
  shows "own_rows (upsert_segment n rows) (node_session n) = own_rows rows (node_session n) @ [n]"
    "row_noted rows (upsert_segment n rows) (node_session n) (node_id n) (node_start n)"
proof -
  have u: "upsert_segment n rows = rows @ [n]" 
  proof -
    have "\<not> list_ex (\<lambda>r. node_id r = node_id n) rows" using assms(2) unfolding list_ex_iff image_iff by metis
    then show ?thesis by (simp add: upsert_segment_def)
  qed
  show "own_rows (upsert_segment n rows) (node_session n) = own_rows rows (node_session n) @ [n]"
    using assms(3) by (simp add: u own_rows_def)
  show "row_noted rows (upsert_segment n rows) (node_session n) (node_id n) (node_start n)"
    using assms unfolding u row_noted_def by (auto simp: own_rows_def)
qed

lemma note_old:
  assumes "distinct (map node_id rows)" "own_rows rows sid = xs @ [m]" "node_id m = node_id n"
  shows "own_rows (upsert_segment n rows) sid = xs @ [m\<lparr>node_end := node_end n\<rparr>]"
    "row_noted rows (upsert_segment n rows) sid (node_id n) (node_start m)"
proof -
  let ?g = "\<lambda>r. if node_id r = node_id n then r\<lparr>node_end := node_end n\<rparr> else r"
  have "m \<in> set (own_rows rows sid)" using assms(2) by simp
  then have mm: "m \<in> set rows" "node_session m = sid" "node_parent m = None" by (simp_all add: own_rows_def)
  have u: "upsert_segment n rows = map ?g rows" using mm(1) assms(3) by (auto simp: upsert_segment_def list_ex_iff)
  have flt: "filter P (map ?g rows) = map ?g (filter P rows)" if "\<And>r. P (?g r) = P r" for P
    using that by (simp add: filter_map comp_def)
  have own: "own_rows (map ?g rows) s = map ?g (own_rows rows s)" for s unfolding own_rows_def by (rule flt) simp
  have uniq: "r = m" if "r \<in> set rows" "node_id r = node_id n" for r
    using assms(1,3) that mm(1) by (metis inj_onD distinct_map)
  have others: "map ?g (own_rows rows s) = own_rows rows s" if "s \<noteq> sid" for s
    using uniq mm(2) that by (intro map_idI) (auto simp: own_rows_def)
  have forks: "map ?g (filter (\<lambda>n. node_session n = s \<and> node_parent n \<noteq> None) rows) = filter (\<lambda>n. node_session n = s \<and> node_parent n \<noteq> None) rows" for s
    using uniq mm(3) by (intro map_idI) auto
  have "distinct (map node_id (own_rows rows sid))" using assms(1) unfolding own_rows_def by (rule distinct_map_filter)
  then have "node_id n \<notin> node_id ` set xs" using assms(2,3) by auto
  then have "\<forall>x \<in> set xs. node_id x \<noteq> node_id n" unfolding image_iff by metis
  then have "map ?g xs = xs" by (simp add: map_idI)
  then show rr: "own_rows (upsert_segment n rows) sid = xs @ [m\<lparr>node_end := node_end n\<rparr>]"
    unfolding u own assms(2) using assms(3) by simp
  have ids: "map node_id (map ?g rows) = map node_id rows" by simp
  have "node_id n \<in> node_id ` set rows" using imageI [OF mm(1), of node_id] assms(3) by simp
  then have "node_id ` set rows = insert (node_id n) (node_id ` set rows)" by (simp only: insert_absorb)
  moreover have "node_id ` set (map ?g rows) = set (map node_id (map ?g rows))" by (rule set_map [symmetric])
  ultimately have "node_id ` set (map ?g rows) = insert (node_id n) (node_id ` set rows)" unfolding ids set_map by simp
  moreover have "\<exists>y \<in> set (own_rows (map ?g rows) sid). node_id y = node_id x \<and> node_start y = node_start x" if "x \<in> set (own_rows rows sid)" for x
    unfolding own using that by (intro bexI [of _ "?g x"]) auto
  moreover have "filter (\<lambda>n. node_session n = s \<and> node_parent n \<noteq> None) (map ?g rows) = filter (\<lambda>n. node_session n = s \<and> node_parent n \<noteq> None) rows" for s
    using flt [of "\<lambda>n. node_session n = s \<and> node_parent n \<noteq> None"] forks [of s] by simp
  moreover have "\<exists>y \<in> set (own_rows (map ?g rows) sid). node_id y = node_id n \<and> node_start y = node_start m"
    using rr assms(3) unfolding u by simp
  moreover have "distinct (map node_id (map ?g rows))" unfolding ids by (rule assms(1))
  moreover have "own_rows (map ?g rows) s = own_rows rows s" if "s \<noteq> sid" for s unfolding own by (rule others [OF that])
  ultimately show "row_noted rows (upsert_segment n rows) sid (node_id n) (node_start m)"
    unfolding row_noted_def u by blast
qed

lemma upsert_last:
  assumes "distinct (map node_id rows)" "id_ok rows sid segs i" "segs \<noteq> []" "last segs @ es \<noteq> []"
    and r: "map (\<lambda>n. (node_index n, node_start n, node_end n)) (own_rows rows sid) = map (row_data base segs) [0..<filled segs]"
  defines "rows' \<equiv> upsert_segment (last_row sid base (extend_log segs es) i) rows"
  shows "row_noted rows rows' sid i (seg_start base segs (length segs - 1))" "id_ok rows' sid (extend_log segs es) i"
    "map (\<lambda>n. (node_index n, node_start n, node_end n)) (own_rows rows' sid) =
       map (row_data base (extend_log segs es)) [0..<filled (extend_log segs es)]"
proof -
  let ?j = "length segs - 1" and ?n = "last_row sid base (extend_log segs es) i" and ?X = "extend_log segs es"
  have n: "node_id ?n = i" "node_session ?n = sid" "node_parent ?n = None" "node_start ?n = seg_start base segs ?j" "node_index ?n = ?j"
    "node_end ?n = seg_start base segs ?j + length (last segs @ es) - 1"
    using assms(3) by (simp_all add: last_row_def extend_log_props extend_log_start)
  have data: "(?j, seg_start base segs ?j, node_end ?n) = row_data base ?X ?j"
    using assms(3) n by (simp add: row_data_def extend_log_props extend_log_start)
  have fX: "[0..<filled ?X] = [0..<?j] @ [?j]" and lX: "last ?X \<noteq> []"
    using assms(3,4) filled_last [of ?X] by (simp_all add: extend_log_props)
  have same: "map (row_data base ?X) [0..<?j] = map (row_data base segs) [0..<?j]"
    using row_data_extend [OF assms(3)] by simp
  obtain xs m where own: "own_rows rows' sid = xs @ [m]" "node_id m = i" "(node_index m, node_start m, node_end m) = row_data base ?X ?j"
    "map (\<lambda>n. (node_index n, node_start n, node_end n)) xs = map (row_data base segs) [0..<?j]"
    and noted: "row_noted rows rows' sid i (seg_start base segs ?j)"
  proof (cases "last segs = []")
    case True
    then have "node_id ?n \<notin> node_id ` set rows" using assms(2) n(1) by (simp add: id_ok_def)
    note new = note_new [OF assms(1) this n(3)]
    have "[0..<filled segs] = [0..<?j]" using True assms(3) by (simp add: filled_def)
    with new that [of "own_rows rows sid" ?n] n data r show thesis by (simp add: rows'_def)
  next
    case False
    then obtain ys m where ys: "own_rows rows sid = ys @ [m]" "node_id m = node_id ?n"
      using assms(2) n(1) by (auto simp: id_ok_def) (metis append_butlast_last_id)
    note old = note_old [OF assms(1) ys]
    have "map (\<lambda>n. (node_index n, node_start n, node_end n)) (ys @ [m]) = map (row_data base segs) ([0..<?j] @ [?j])"
      using r filled_last [OF assms(3) False] ys(1) by simp
    then have "map (\<lambda>n. (node_index n, node_start n, node_end n)) ys = map (row_data base segs) [0..<?j]"
      "node_index m = ?j" "node_start m = seg_start base segs ?j" by (simp_all add: row_data_def)
    with old that [of ys "m\<lparr>node_end := node_end ?n\<rparr>"] n data ys(2) show thesis by (simp add: rows'_def)
  qed
  show "row_noted rows rows' sid i (seg_start base segs ?j)" by (rule noted)
  show "id_ok rows' sid ?X i" using lX own by (simp add: id_ok_def)
  show "map (\<lambda>n. (node_index n, node_start n, node_end n)) (own_rows rows' sid) = map (row_data base ?X) [0..<filled ?X]"
    unfolding own(1) fX using own(3,4) same by simp
qed

lemma new_tuples:
  fixes n r es sid i rmp
  defines "new \<equiv> map (tuple_of rmp) (map2 (\<lambda>off ev. \<lparr>row_offset = off_seq off, row_session = sid, row_segment = i, row_event = ev\<rparr>)
      (map (\<lambda>k. Offset (n + k) (r + k)) [0..<length es]) es)"
  shows "map tuple_offset new = [n..<n + length es]" "map tuple_payload new = map (payload_of rmp) es"
    "x \<in> set new \<Longrightarrow> tuple_session x = sid \<and> tuple_segment x = i \<and> n \<le> tuple_offset x"
proof -
  show "map tuple_offset new = [n..<n + length es]"
    unfolding new_def by (rule nth_equalityI) (simp_all add: tuple_of_def)
  show "map tuple_payload new = map (payload_of rmp) es"
    unfolding new_def by (rule nth_equalityI) (simp_all add: tuple_of_def)
  show "x \<in> set new \<Longrightarrow> tuple_session x = sid \<and> tuple_segment x = i \<and> n \<le> tuple_offset x"
    unfolding new_def by (auto simp: tuple_of_def set_zip)
qed

lemma indexed_extend:
  assumes "distinct (map node_id rows)" "id_ok rows sid segs i" "segs \<noteq> []" "last segs @ es \<noteq> []"
    "indexed rmp (own_rows rows sid) (own_events xs sid) base segs"
    "map tuple_offset new = [base + length (concat segs)..<base + length (concat segs) + length es]"
    "map tuple_payload new = map (payload_of rmp) es"
    "\<And>x. x \<in> set new \<Longrightarrow> tuple_session x = sid \<and> tuple_segment x = i \<and> base + length (concat segs) \<le> tuple_offset x"
  defines "rows' \<equiv> upsert_segment (last_row sid base (extend_log segs es) i) rows"
  shows "indexed rmp (own_rows rows' sid) (own_events (xs @ new) sid) base (extend_log segs es)"
proof -
  note old = assms(5) [unfolded indexed_def]
  have rows: "map (\<lambda>n. (node_index n, node_start n, node_end n)) (own_rows rows sid) = map (row_data base segs) [0..<filled segs]"
    using old by blast
  note up = upsert_last [OF assms(1-4) rows, folded rows'_def]
  have own: "own_events (xs @ new) sid = own_events xs sid @ new"
    using assms(8) by (simp add: own_events_def filter_id_conv)
  have le: "seg_start base segs (length segs - 1) \<le> base + length (concat segs)" using seg_start_last [OF assms(3), of base] by simp
  obtain n where n: "n \<in> set (own_rows rows' sid)" "node_id n = i" "node_start n = seg_start base segs (length segs - 1)"
    using up(1) unfolding row_noted_def by blast
  have "\<exists>n \<in> set (own_rows rows' sid). node_id n = tuple_segment x \<and> node_start n \<le> tuple_offset x" if "x \<in> set new" for x
    using assms(8) [OF that] le by (intro bexI [OF _ n(1)]) (simp add: n)
  moreover have "\<exists>n \<in> set (own_rows rows' sid). node_id n = tuple_segment x \<and> node_start n \<le> tuple_offset x" if "x \<in> set (own_events xs sid)" for x
    using up(1) old that unfolding row_noted_def by metis
  moreover have "map tuple_offset (own_events xs sid @ new) = [base..<base + length (concat (extend_log segs es))]"
    using old assms(3,6) upt_add_eq_append [of base "base + length (concat segs)" "length es"] by (simp add: extend_log_props add.assoc)
  moreover have "map tuple_payload (own_events xs sid @ new) = map (payload_of rmp) (concat (extend_log segs es))"
    using old assms(3,7) by (simp add: extend_log_props)
  moreover have "x \<noteq> []" if "x \<in> set (butlast (extend_log segs es))" for x using old that by (simp add: extend_log_def)
  ultimately show ?thesis unfolding indexed_def own set_append ball_Un using up(3) by (intro conjI ballI)
qed

section \<open>One group of a flush\<close>

text \<open>What the tables hold once the collected segments and rows are inserted.\<close>

definition table_after :: "segment_node list \<Rightarrow> flush_out \<Rightarrow> segment_node list" where
  "table_after rows out = foldl (\<lambda>rs m. upsert_segment (node_of_meta m) rs) rows (out_metas out)"

definition events_after :: "rmp \<Rightarrow> event_tuple list \<Rightarrow> flush_out \<Rightarrow> event_tuple list" where
  "events_after rmp xs out = xs @ map (tuple_of rmp) (out_rows out)"

definition group_ok ::
  "codec \<Rightarrow> rmp \<Rightarrow> segment_node list \<Rightarrow> event_tuple list \<Rightarrow> (nat \<Rightarrow> segment_id) \<Rightarrow> session_id \<Rightarrow> nat \<Rightarrow>
   disk \<Rightarrow> session_state \<Rightarrow> session_event list list \<Rightarrow> flush_out \<Rightarrow> bool" where
  "group_ok cd rmp rows xs fresh sid base d st segs out \<longleftrightarrow>
     log_on_disk cd d sid base segs \<and> writer_at cd (current st) sid base segs \<and> distinct (map node_id (table_after rows out)) \<and>
     indexed rmp (own_rows (table_after rows out) sid) (own_events (events_after rmp xs out) sid) base segs \<and>
     id_ok (table_after rows out) sid segs (current_segment_id st) \<and> inj fresh \<and>
     (\<forall>k \<ge> length segs. fresh k \<notin> insert (current_segment_id st) (node_id ` set (table_after rows out)))"

text \<open>What a group leaves alone.\<close>

definition frame_ok_group ::
  "rmp \<Rightarrow> segment_node list \<Rightarrow> event_tuple list \<Rightarrow> session_id \<Rightarrow> disk \<Rightarrow> flush_out \<Rightarrow> disk \<Rightarrow> flush_out \<Rightarrow> bool" where
  "frame_ok_group rmp rows xs sid d out d' out' \<longleftrightarrow>
     (\<forall>s i. segment_path s i \<notin> range (segment_path sid) \<longrightarrow> read_file d' (segment_path s i) = read_file d (segment_path s i)) \<and>
     (\<forall>s. s \<noteq> sid \<longrightarrow> own_rows (table_after rows out') s = own_rows (table_after rows out) s \<and>
        own_events (events_after rmp xs out') s = own_events (events_after rmp xs out) s) \<and>
     (\<forall>s. filter (\<lambda>n. node_session n = s \<and> node_parent n \<noteq> None) (table_after rows out') =
        filter (\<lambda>n. node_session n = s \<and> node_parent n \<noteq> None) (table_after rows out))"

lemma frame_refl: "frame_ok_group rmp rows xs sid d out d out"
  by (simp add: frame_ok_group_def)

lemma frame_trans:
  "frame_ok_group rmp rows xs sid d out d1 out1 \<Longrightarrow> frame_ok_group rmp rows xs sid d1 out1 d2 out2 \<Longrightarrow>
   frame_ok_group rmp rows xs sid d out d2 out2"
  unfolding frame_ok_group_def by simp

lemma table_note_meta: "table_after rows (note_meta st out) = upsert_segment (node_of_meta (current_meta st)) (table_after rows out)"
  by (simp add: table_after_def note_meta_def)

lemma table_note_rows [simp]: "table_after rows (note_rows sid i offs es out) = table_after rows out"
  by (simp add: table_after_def note_rows_def)

lemma events_note_meta [simp]: "events_after rmp xs (note_meta st out) = events_after rmp xs out"
  by (simp add: events_after_def note_meta_def)

lemma current_row:
  assumes "writer_at cd (current st) sid base segs" "last segs \<noteq> []"
  shows "node_of_meta (current_meta st) = last_row sid base segs (current_segment_id st)"
proof -
  have "0 < length (last segs)" using assms(2) by simp
  then show ?thesis using assms(1) by (auto simp: current_meta_def meta_def node_of_meta_def last_row_def writer_at_def seg_ok_def)
qed

text \<open>The three moves of the loop: writing and noting, noting a full segment, opening the next file.\<close>

lemma step_write:
  assumes "group_ok cd rmp rows xs fresh sid base d st segs out" "es \<noteq> []"
    "append_segment cd d (current st) es fault = (d', w, Inr offs)"
  defines "st' \<equiv> st\<lparr>current := w\<rparr>"
  defines "out' \<equiv> note_meta st' (note_rows sid (current_segment_id st) offs es out)"
  shows "group_ok cd rmp rows xs fresh sid base d' st' (extend_log segs es) out'" "frame_ok_group rmp rows xs sid d out d' out'"
    "node_id ` set (table_after rows out') = insert (current_segment_id st) (node_id ` set (table_after rows out))"
    "\<exists>off. out_last out' = (out_last out)(sid \<mapsto> off) \<and> off_seq off + 1 = base + length (concat segs) + length es"
    "\<exists>new. out_rows out' = out_rows out @ new \<and> map row_event new = es"
proof -
  note g = assms(1) [unfolded group_ok_def]
  have log: "log_on_disk cd d sid base segs" "writer_at cd (current st) sid base segs" and ne: "segs \<noteq> []"
    using g by (simp_all add: writer_at_def)
  note a = append_segment_log [OF log assms(2,3)]
  let ?T = "table_after rows out" and ?i = "current_segment_id st" and ?X = "extend_log segs es"
  let ?rows = "map2 (\<lambda>off ev. \<lparr>row_offset = off_seq off, row_session = sid, row_segment = ?i, row_event = ev\<rparr>) offs es"
  have lX: "last segs @ es \<noteq> []" "last ?X \<noteq> []" using assms(2) ne by (simp_all add: extend_log_props)
  have st': "writer_at cd (current st') sid base ?X" "current_segment_id st' = ?i" using a(2) by (simp_all add: st'_def)
  have T': "table_after rows out' = upsert_segment (last_row sid base ?X ?i) ?T"
    using current_row [OF st'(1) lX(2)] st'(2) by (simp add: out'_def table_note_meta)
  have E': "events_after rmp xs out' = events_after rmp xs out @ map (tuple_of rmp) ?rows"
    by (simp add: out'_def events_after_def note_rows_def note_meta_def)
  note new = new_tuples [where rmp = rmp and sid = sid and i = ?i and n = "base + length (concat segs)" and r = "row (current st)" and es = es, folded a(3)]
  have ix: "indexed rmp (own_rows ?T sid) (own_events (events_after rmp xs out) sid) base segs" using g by blast
  then have rd: "map (\<lambda>n. (node_index n, node_start n, node_end n)) (own_rows ?T sid) = map (row_data base segs) [0..<filled segs]"
    by (simp add: indexed_def)
  have dist: "distinct (map node_id ?T)" and io: "id_ok ?T sid segs ?i" using g by blast+
  note up = upsert_last [OF dist io ne lX(1) rd, folded T']
  have ids: "node_id ` set (table_after rows out') = insert ?i (node_id ` set ?T)" using up(1) by (simp add: row_noted_def)
  show "node_id ` set (table_after rows out') = insert ?i (node_id ` set ?T)" by (rule ids)
  have "indexed rmp (own_rows (table_after rows out') sid) (own_events (events_after rmp xs out') sid) base ?X"
    using indexed_extend [OF dist io ne lX(1) ix new, folded T' E'] by blast
  moreover have "distinct (map node_id (table_after rows out'))" using up(1) by (simp add: row_noted_def)
  ultimately show "group_ok cd rmp rows xs fresh sid base d' st' ?X out'"
    using g a(1) st' up(2) ids ne unfolding group_ok_def by (simp add: extend_log_props)
  have "own_events (map (tuple_of rmp) ?rows) s = []" if "s \<noteq> sid" for s
    using new(3) that by (auto simp: own_events_def filter_empty_conv)
  then show "frame_ok_group rmp rows xs sid d out d' out'"
    using a(4) up(1) unfolding frame_ok_group_def row_noted_def E' by simp
  have "offs \<noteq> []" "off_seq (last offs) + 1 = base + length (concat segs) + length es"
    using assms(2) unfolding a(3) by (simp_all add: last_map)
  then show "\<exists>off. out_last out' = (out_last out)(sid \<mapsto> off) \<and> off_seq off + 1 = base + length (concat segs) + length es"
    by (intro exI [of _ "last offs"]) (simp add: out'_def note_meta_def note_rows_def)
  have "map row_event ?rows = es" unfolding a(3) by (rule nth_equalityI) simp_all
  then show "\<exists>new. out_rows out' = out_rows out @ new \<and> map row_event new = es"
    by (intro exI [of _ ?rows]) (simp add: out'_def note_meta_def note_rows_def)
qed

lemma extend_log_Nil: "segs \<noteq> [] \<Longrightarrow> extend_log segs [] = segs"
  by (simp add: extend_log_def)

lemma step_note:
  assumes "group_ok cd rmp rows xs fresh sid base d st segs out" "last segs \<noteq> []"
  shows "group_ok cd rmp rows xs fresh sid base d st segs (note_meta st out)" "frame_ok_group rmp rows xs sid d out d (note_meta st out)"
    "node_id ` set (table_after rows (note_meta st out)) = insert (current_segment_id st) (node_id ` set (table_after rows out))"
proof -
  note g = assms(1) [unfolded group_ok_def]
  have w: "writer_at cd (current st) sid base segs" and ne: "segs \<noteq> []" using g by (simp_all add: writer_at_def)
  let ?T = "table_after rows out" and ?i = "current_segment_id st"
  have T': "table_after rows (note_meta st out) = upsert_segment (last_row sid base (extend_log segs []) ?i) ?T"
    using current_row [OF w assms(2)] extend_log_Nil [OF ne] by (simp add: table_note_meta)
  have ix: "indexed rmp (own_rows ?T sid) (own_events (events_after rmp xs out) sid) base segs" using g by blast
  then have rd: "map (\<lambda>n. (node_index n, node_start n, node_end n)) (own_rows ?T sid) = map (row_data base segs) [0..<filled segs]"
    by (simp add: indexed_def)
  have dist: "distinct (map node_id ?T)" and io: "id_ok ?T sid segs ?i" and l: "last segs @ [] \<noteq> []" using g assms(2) by simp_all
  note up = upsert_last [OF dist io ne l rd, folded T']
  show ids: "node_id ` set (table_after rows (note_meta st out)) = insert ?i (node_id ` set ?T)" using up(1) by (simp add: row_noted_def)
  have "indexed rmp (own_rows (table_after rows (note_meta st out)) sid) (own_events (events_after rmp xs out @ []) sid) base (extend_log segs [])"
    unfolding T' by (rule indexed_extend [OF dist io ne l ix]) simp_all
  moreover have "distinct (map node_id (table_after rows (note_meta st out)))" using up(1) by (simp add: row_noted_def)
  ultimately show "group_ok cd rmp rows xs fresh sid base d st segs (note_meta st out)"
    using g up(2) ids extend_log_Nil [OF ne] unfolding group_ok_def by simp
  show "frame_ok_group rmp rows xs sid d out d (note_meta st out)"
    using up(1) unfolding frame_ok_group_def row_noted_def by simp
qed

lemma step_roll:
  assumes "group_ok cd rmp rows xs fresh sid base d st segs out" "last segs \<noteq> []"
  obtains d' st' where "roll cd fresh sid d st = (d', Inr st')" "group_ok cd rmp rows xs fresh sid base d' st' (segs @ [[]]) out"
    "frame_ok_group rmp rows xs sid d out d' out" "row (current st') = 0" "current_segment_id st' \<in> range fresh"
proof -
  note g = assms(1) [unfolded group_ok_def]
  have log: "log_on_disk cd d sid base segs" "writer_at cd (current st) sid base segs" and ne: "segs \<noteq> []"
    using g by (simp_all add: writer_at_def)
  obtain d' w where r: "roll cd fresh sid d st = (d', Inr \<lparr>current = w, current_segment_id = fresh (length segs)\<rparr>)"
    "log_on_disk cd d' sid base (segs @ [[]])" "writer_at cd w sid base (segs @ [[]])" "row w = 0"
    "\<And>sid' i. segment_path sid' i \<notin> range (segment_path sid) \<Longrightarrow> read_file d' (segment_path sid' i) = read_file d (segment_path sid' i)"
    using roll_log [OF log] by metis
  have "filled (segs @ [[]]) = filled segs" "\<forall>x \<in> set segs. x \<noteq> []"
    using g assms(2) ne append_butlast_last_id [OF ne] unfolding indexed_def by (auto simp: filled_def) (metis Un_iff set_append list.set_intros(1) append_butlast_last_id empty_iff set_ConsD list.set(1))
  moreover have "row_data base (segs @ [[]]) i = row_data base segs i" if "i < length segs" for i
    using that by (simp add: row_data_def seg_start_def nth_append)
  moreover have "filled segs = length segs" using assms(2) by (simp add: filled_def)
  ultimately have "indexed rmp (own_rows (table_after rows out) sid) (own_events (events_after rmp xs out) sid) base (segs @ [[]])"
    using g unfolding indexed_def by simp
  moreover have "fresh k \<noteq> fresh (length segs)" if "length (segs @ [[]]) \<le> k" for k using g that by (auto dest!: injD)
  ultimately have "group_ok cd rmp rows xs fresh sid base d' \<lparr>current = w, current_segment_id = fresh (length segs)\<rparr> (segs @ [[]]) out"
    using g r unfolding group_ok_def id_ok_def by auto
  moreover have "frame_ok_group rmp rows xs sid d out d' out" using r(5) by (simp add: frame_ok_group_def)
  ultimately show thesis using that r(1,4) by simp
qed

text \<open>The loop, as long as the current segment has room.\<close>

definition group_done ::
  "codec \<Rightarrow> rmp \<Rightarrow> segment_node list \<Rightarrow> event_tuple list \<Rightarrow> (nat \<Rightarrow> segment_id) \<Rightarrow> session_id \<Rightarrow> nat \<Rightarrow> nat \<Rightarrow>
   disk \<Rightarrow> session_state \<Rightarrow> session_event list list \<Rightarrow> flush_out \<Rightarrow> session_event list \<Rightarrow>
   disk \<Rightarrow> session_state \<Rightarrow> flush_out \<Rightarrow> bool" where
  "group_done cd rmp rows xs fresh sid base max_rows d st segs out evs d' st' out' \<longleftrightarrow>
     (\<exists>segs'. group_ok cd rmp rows xs fresh sid base d' st' segs' out' \<and> concat segs' = concat segs @ evs \<and> last segs' \<noteq> [] \<and>
        ((\<forall>x \<in> set segs. length x \<le> max_rows) \<longrightarrow> (\<forall>x \<in> set segs'. length x \<le> max_rows))) \<and>
     frame_ok_group rmp rows xs sid d out d' out' \<and>
     node_id ` set (table_after rows out') \<subseteq> node_id ` set (table_after rows out) \<union> insert (current_segment_id st) (range fresh) \<and>
     current_segment_id st' \<in> insert (current_segment_id st) (range fresh) \<and>
     (\<exists>off. out_last out' = (out_last out)(sid \<mapsto> off) \<and> off_seq off + 1 = base + length (concat segs) + length evs) \<and>
     (\<exists>new. out_rows out' = out_rows out @ new \<and> map row_event new = evs)"

lemma ids_later:
  "A \<subseteq> B \<union> insert i R \<Longrightarrow> B \<subseteq> C \<union> insert j R \<Longrightarrow> i \<in> insert j R \<Longrightarrow> A \<subseteq> C \<union> insert j R"
  "k \<in> insert i R \<Longrightarrow> i \<in> insert j R \<Longrightarrow> k \<in> insert j R"
  by blast+

lemma group_done_later:
  assumes "group_done cd rmp rows xs fresh sid base m d1 st1 segs1 out1 evs2 d' st' out'"
    "concat segs1 = concat segs @ evs1" "frame_ok_group rmp rows xs sid d out d1 out1"
    "(\<forall>x \<in> set segs. length x \<le> m) \<longrightarrow> (\<forall>x \<in> set segs1. length x \<le> m)"
    "node_id ` set (table_after rows out1) \<subseteq> node_id ` set (table_after rows out) \<union> insert (current_segment_id st) (range fresh)"
    "current_segment_id st1 \<in> insert (current_segment_id st) (range fresh)" "out_last out1 = out_last out \<or> (\<exists>off. out_last out1 = (out_last out)(sid \<mapsto> off))"
    "\<exists>new. out_rows out1 = out_rows out @ new \<and> map row_event new = evs1"
  shows "group_done cd rmp rows xs fresh sid base m d st segs out (evs1 @ evs2) d' st' out'"
proof -
  note g = assms(1) [unfolded group_done_def]
  obtain off where "out_last out' = (out_last out1)(sid \<mapsto> off)" "off_seq off + 1 = base + length (concat segs1) + length evs2" using g by blast
  then have "\<exists>off. out_last out' = (out_last out)(sid \<mapsto> off) \<and> off_seq off + 1 = base + length (concat segs) + length (evs1 @ evs2)"
    using assms(2,7) by auto
  moreover have "frame_ok_group rmp rows xs sid d out d' out'" using frame_trans [OF assms(3)] g by blast
  moreover obtain segs' where "group_ok cd rmp rows xs fresh sid base d' st' segs' out'" "concat segs' = concat segs1 @ evs2" "last segs' \<noteq> []"
    "(\<forall>x \<in> set segs1. length x \<le> m) \<longrightarrow> (\<forall>x \<in> set segs'. length x \<le> m)" using g by blast
  then have "\<exists>segs'. group_ok cd rmp rows xs fresh sid base d' st' segs' out' \<and> concat segs' = concat segs @ evs1 @ evs2 \<and> last segs' \<noteq> [] \<and>
      ((\<forall>x \<in> set segs. length x \<le> m) \<longrightarrow> (\<forall>x \<in> set segs'. length x \<le> m))" using assms(2,4) by (intro exI [of _ segs']) simp
  moreover have "node_id ` set (table_after rows out') \<subseteq> node_id ` set (table_after rows out) \<union> insert (current_segment_id st) (range fresh)"
    "current_segment_id st' \<in> insert (current_segment_id st) (range fresh)"
    by (rule ids_later(1) [OF _ assms(5,6)], use g in simp) (rule ids_later(2) [OF _ assms(6)], use g in simp)
  moreover obtain new1 new2 where "out_rows out1 = out_rows out @ new1" "map row_event new1 = evs1"
    "out_rows out' = out_rows out1 @ new2" "map row_event new2 = evs2" using g assms(8) by blast
  then have "\<exists>new. out_rows out' = out_rows out @ new \<and> map row_event new = evs1 @ evs2" by (intro exI [of _ "new1 @ new2"]) simp
  ultimately show ?thesis unfolding group_done_def by (simp only: append_assoc simp_thms)
qed

lemma extend_log_bound:
  assumes "segs \<noteq> []" "length (last segs) + length es \<le> m" "\<forall>x \<in> set segs. length x \<le> m"
  shows "\<forall>x \<in> set (extend_log segs es). length x \<le> m"
  using assms by (auto simp: extend_log_def dest: in_set_butlastD)

lemma write_group_room:
  assumes "group_ok cd rmp rows xs fresh sid base d st segs out" "row (current st) < m" "evs \<noteq> []"
    "write_group cd m faults fresh sid d st evs out = Some (d', st', Inr out')"
  shows "group_done cd rmp rows xs fresh sid base m d st segs out evs d' st' out'"
  using assms
proof (induction "length evs" arbitrary: d st segs out evs rule: less_induct)
  case less
  let ?n = "min (m - row (current st)) (length evs)"
  have w: "writer_at cd (current st) sid base segs" and ne: "segs \<noteq> []"
    using less.prems(1) by (simp_all add: group_ok_def writer_at_def)
  have n: "0 < ?n" "take ?n evs \<noteq> []" using less.prems(2,3) by auto
  have room: "length (last segs) + length (take ?n evs) \<le> m" using w less.prems(2) by (simp add: writer_at_def seg_ok_def)
  note run = less.prems(4) [unfolded write_group.simps [of cd m faults fresh sid d st evs out] Let_def]
  have cap: "m - row (current st) \<noteq> 0" "?n \<noteq> 0" using less.prems(2) n(1) by simp_all
  obtain d1 w1 res where a0: "append_segment cd d (current st) (take ?n evs) (faults (segment_index (current st))) = (d1, w1, res)"
    by (metis prod_cases3)
  with run obtain offs where res: "res = Inr offs" unfolding if_not_P [OF cap(1)] if_not_P [OF cap(2)] by (cases res) simp_all
  note a = a0 [unfolded res]
  let ?st1 = "st\<lparr>current := w1\<rparr>" and ?X = "extend_log segs (take ?n evs)"
  let ?out1 = "note_meta ?st1 (note_rows sid (current_segment_id st) offs (take ?n evs) out)"
  note wr = step_write [OF less.prems(1) n(2) a]
  have X: "concat ?X = concat segs @ take ?n evs" "last ?X \<noteq> []" using ne n(2) by (simp_all add: extend_log_props)
  have bound: "(\<forall>x \<in> set segs. length x \<le> m) \<longrightarrow> (\<forall>x \<in> set ?X. length x \<le> m)" using extend_log_bound [OF ne room] by blast
  show ?case
  proof (cases "drop ?n evs = []")
    case True
    then have "d' = d1" "st' = ?st1" "out' = ?out1" "take ?n evs = evs" using run less.prems(2) n a by auto
    then show ?thesis using wr X bound unfolding group_done_def by auto
  next
    case False
    obtain d2 st2 where r: "roll cd fresh sid d1 ?st1 = (d2, Inr st2)" "group_ok cd rmp rows xs fresh sid base d2 st2 (?X @ [[]]) ?out1"
      "frame_ok_group rmp rows xs sid d1 ?out1 d2 ?out1" "row (current st2) = 0" "current_segment_id st2 \<in> range fresh"
      using step_roll [OF wr(1) X(2)] by metis
    have rest: "write_group cd m faults fresh sid d2 st2 (drop ?n evs) ?out1 = Some (d', st', Inr out')"
      using run less.prems(2) n a r(1) False by (simp del: take_eq_Nil drop_eq_Nil)
    have "length (drop ?n evs) < length evs" using n less.prems(3) by simp
    then have fin: "group_done cd rmp rows xs fresh sid base m d2 st2 (?X @ [[]]) ?out1 (drop ?n evs) d' st' out'"
      using less.hyps [OF _ r(2) _ False rest] r(4) less.prems(2) by simp
    have "group_done cd rmp rows xs fresh sid base m d st segs out (take ?n evs @ drop ?n evs) d' st' out'"
      by (rule group_done_later [OF fin]) (use X bound frame_trans [OF wr(2) r(3)] wr(3,4,5) r(5) in auto)
    then show ?thesis by (simp only: append_take_drop_id)
  qed
qed

lemma write_group_ok:
  assumes "group_ok cd rmp rows xs fresh sid base d st segs out" "0 < m" "evs \<noteq> []"
    "write_group cd m faults fresh sid d st evs out = Some (d', st', Inr out')"
  shows "group_done cd rmp rows xs fresh sid base m d st segs out evs d' st' out'"
proof (cases "row (current st) < m")
  case True
  then show ?thesis using write_group_room assms by blast
next
  case False
  have w: "writer_at cd (current st) sid base segs" using assms(1) by (simp add: group_ok_def)
  then have l: "last segs \<noteq> []" using False assms(2) by (auto simp: writer_at_def seg_ok_def)
  note nt = step_note [OF assms(1) l]
  obtain d1 st1 where r: "roll cd fresh sid d st = (d1, Inr st1)" "group_ok cd rmp rows xs fresh sid base d1 st1 (segs @ [[]]) (note_meta st out)"
    "frame_ok_group rmp rows xs sid d (note_meta st out) d1 (note_meta st out)" "row (current st1) = 0" "current_segment_id st1 \<in> range fresh"
    using step_roll [OF nt(1) l] by metis
  have "write_group cd m faults fresh sid d1 st1 evs (note_meta st out) = Some (d', st', Inr out')"
    using assms(4) False r(1) by (subst (asm) write_group.simps) simp
  then have fin: "group_done cd rmp rows xs fresh sid base m d1 st1 (segs @ [[]]) (note_meta st out) evs d' st' out'"
    using write_group_room [OF r(2) _ assms(3)] r(4) assms(2) by simp
  have "group_done cd rmp rows xs fresh sid base m d st segs out ([] @ evs) d' st' out'"
    by (rule group_done_later [OF fin]) (use frame_trans [OF nt(2) r(3)] nt(3) r(5) in \<open>auto simp: note_meta_def\<close>)
  then show ?thesis by simp
qed

end
