(* ===== verification/Writer_Store.thy ===== *)
theory Writer_Store
  imports Writer_Log
begin

text \<open>
  A consistent store of sessions, and what the operations of the writer do to it: reopening a session finds
  its writer again, a flush appends the queued events of every session to its log, in the files and in
  the index, and a flush that fails keeps nothing of the queue.
\<close>

section \<open>The invariant of the store\<close>

definition fork_base :: "segment_node list \<Rightarrow> session_id \<Rightarrow> nat" where
  "fork_base rows sid =
     (case map node_end (filter (\<lambda>n. node_session n = sid \<and> node_parent n \<noteq> None) rows) of [] \<Rightarrow> 0 | e # es \<Rightarrow> foldl max e es + 1)"

definition session_ok ::
  "codec \<Rightarrow> rmp \<Rightarrow> disk \<Rightarrow> session_state option \<Rightarrow> segment_node list \<Rightarrow> event_tuple list \<Rightarrow> session_id \<Rightarrow>
   session_event list list \<Rightarrow> bool" where
  "session_ok cd rmp d so rows xs sid sg \<longleftrightarrow>
     log_on_disk cd d sid (fork_base rows sid) sg \<and> indexed rmp (own_rows rows sid) (own_events xs sid) (fork_base rows sid) sg \<and>
     (last sg = [] \<longrightarrow> sg = [] \<or> sg = [[]]) \<and>
     (case so of
        None \<Rightarrow> True
      | Some st \<Rightarrow> writer_at cd (current st) sid (fork_base rows sid) sg \<and> id_ok rows sid sg (current_segment_id st))"

definition logs_ok ::
  "codec \<Rightarrow> rmp \<Rightarrow> session_id set \<Rightarrow> (session_id \<Rightarrow> session_event list list) \<Rightarrow>
   disk \<Rightarrow> (session_id \<rightharpoonup> session_state) \<Rightarrow> segment_node list \<Rightarrow> event_tuple list \<Rightarrow> bool" where
  "logs_ok cd rmp S segs d ses rows xs \<longleftrightarrow>
     inj_on file_stem S \<and> distinct (map node_id rows) \<and> (\<forall>sid \<in> S. session_ok cd rmp d (ses sid) rows xs sid (segs sid)) \<and>
     (\<forall>a \<in> S. \<forall>b \<in> S. \<forall>p q. ses a = Some p \<longrightarrow> ses b = Some q \<longrightarrow> a \<noteq> b \<longrightarrow> current_segment_id p \<noteq> current_segment_id q)"

definition log_of :: "(session_id \<Rightarrow> session_event list list) \<Rightarrow> session_id \<Rightarrow> session_event list" where
  "log_of segs sid = concat (segs sid)"

definition store_ok :: "codec \<Rightarrow> rmp \<Rightarrow> session_id set \<Rightarrow> (session_id \<Rightarrow> session_event list list) \<Rightarrow> cbmr_writer \<Rightarrow> bool" where
  "store_ok cd rmp S segs s \<longleftrightarrow>
     logs_ok cd rmp S segs (disk s) (sessions s) (segments (index s)) (events (index s)) \<and>
     (\<forall>sid \<in> S. \<forall>ev \<in> set (log_of segs sid). is_Ok (rmp_to_vec rmp ev))"

lemma fork_point_base: "(case fork_point t sid of Some k \<Rightarrow> k | None \<Rightarrow> 0) = fork_base (segments t) sid"
  by (simp add: fork_point_def prefix_end_def fork_rows_def fork_base_def split: list.splits)

section \<open>Reopening a session\<close>

lemma rewrite_file: "read_file d p = Some bs \<Longrightarrow> write_file p bs d = d"
  by (simp add: read_file_def write_file_def update_triv)

lemma open_listed:
  assumes "codec_ok cd" "log_on_disk cd d sid base segs" "i < length segs"
  obtains w where "open_segment cd d sid i (seg_start base segs i) = (d, Inr w)" "seg_ok cd w (segs ! i)"
    "first_seq w = seg_start base segs i" "seg_session w = sid" "segment_index w = i"
proof -
  let ?start = "seg_start base segs i" and ?es = "segs ! i"
  have f: "read_file d (segment_path sid i) = Some (file_of cd (records_of ?start 0 ?es))"
    and e: "\<forall>r \<in> set (records_of ?start 0 ?es). encodable cd r"
    using assms(2,3) by (simp_all add: log_on_disk_def seg_records_def)
  have u: "unframe [] = None" by (simp add: unframe_def)
  obtain w where w: "open_or_create cd sid i ?start (Some (file_of cd (records_of ?start 0 ?es))) = Inr w" "seg_ok cd w ?es" "first_seq w = ?start"
    using open_torn [OF assms(1) e u, of sid i] by auto
  have ids: "seg_session w = sid" "segment_index w = i"
    using w(1) by (auto simp: open_or_create_def recover_tail_def split: sum.splits)
  have "content w = file_of cd (records_of ?start 0 ?es)" using w(2,3) by (simp add: seg_ok_def)
  then have "open_segment cd d sid i ?start = (d, Inr w)" using f w(1) rewrite_file [OF f] by (simp add: open_segment_def)
  with that w ids show thesis by blast
qed

lemma find_conj: "find (\<lambda>x. P x \<and> Q x) xs = find Q (filter P xs)"
  by (induction xs) simp_all

lemma find_last: "distinct (map f (xs @ [x])) \<Longrightarrow> find (\<lambda>y. f y = f x) (xs @ [x]) = Some x"
  by (induction xs) auto

lemma segment_id_last:
  assumes "indexed rmp (own_rows rows sid) xs base segs" "last segs \<noteq> []" "segs \<noteq> []"
  shows "query_segment_id rows sid (length segs - 1) = Some (node_id (last (own_rows rows sid)))"
proof -
  have m: "map (\<lambda>n. (node_index n, node_start n, node_end n)) (own_rows rows sid) = map (row_data base segs) [0..<filled segs]"
    using assms(1) by (simp add: indexed_def)
  then have "map fst (map (\<lambda>n. (node_index n, node_start n, node_end n)) (own_rows rows sid)) = map fst (map (row_data base segs) [0..<filled segs])"
    by (rule arg_cong)
  then have ix: "map node_index (own_rows rows sid) = [0..<length segs - 1] @ [length segs - 1]"
    using filled_last [OF assms(3,2)] by (simp add: comp_def row_data_def)
  then obtain ys y where y: "own_rows rows sid = ys @ [y]" "node_index y = length segs - 1"
    by (auto simp: map_eq_append_conv)
  have "distinct (map node_index (ys @ [y]))" using ix y(1) by (metis distinct_upt upt_Suc_append le0 distinct_append distinct_append ix)
  note fl = find_last [OF this]
  have "find (\<lambda>r. node_session r = sid \<and> node_index r = length segs - 1 \<and> node_parent r = None) rows =
      find (\<lambda>r. node_index r = length segs - 1) (own_rows rows sid)"
    unfolding own_rows_def find_conj [symmetric] by (rule arg_cong [where f = "\<lambda>P. find P rows"]) auto
  then show ?thesis using fl y by (simp add: query_segment_id_def)
qed

lemma log_listing:
  assumes "log_on_disk cd d sid base segs"
  shows "list_segment_files d sid = [0..<length segs]"
  using assms by (intro listed_files) (simp_all add: log_on_disk_def)

text \<open>The log once its session is open: there is at least one file.\<close>

definition opened :: "session_event list list \<Rightarrow> session_event list list" where
  "opened segs = (if segs = [] then [[]] else segs)"

lemma opened_concat [simp]: "concat (opened segs) = concat segs" "opened segs \<noteq> []"
  by (simp_all add: opened_def)

lemma next_record_first:
  assumes "codec_ok cd" "log_on_disk cd d sid base segs" "i < length segs" "segs ! i \<noteq> []"
  shows "\<exists>rd rd' rec. reader_open (read_file d (segment_path sid i)) = Inr rd \<and> next_record cd rd = (rd', Inr (Some rec)) \<and>
    rec_seq rec = seg_start base segs i"
proof -
  obtain ev evs where ev: "segs ! i = ev # evs" using assms(4) by (cases "segs ! i") auto
  let ?r = "\<lparr>rec_seq = seg_start base segs i, rec_row = 0, rec_event = ev\<rparr>"
  have recs: "seg_records base segs i = ?r # records_of (seg_start base segs i + 1) 1 evs" by (simp add: seg_records_def ev)
  then have "encodable cd ?r" using assms(2,3) by (auto simp: log_on_disk_def)
  then have "next_record cd \<lparr>unread = file_of cd (seg_records base segs i), rows_read = 0\<rparr> =
      (\<lparr>unread = file_of cd (records_of (seg_start base segs i + 1) 1 evs), rows_read = 1\<rparr>, Inr (Some ?r))"
    unfolding recs by (simp add: next_record_def unframe_body from_slice_body [OF assms(1)])
  then show ?thesis using assms(2,3) by (simp add: log_on_disk_def reader_open_def)
qed

lemma recover_full:
  assumes "codec_ok cd" "log_on_disk cd d sid base segs" "segs \<noteq> []" "last segs \<noteq> []"
    "indexed rmp (own_rows (segments t) sid) xs base segs"
  obtains w where "recover_session_state cd d t fresh sid =
      (d, Inr \<lparr>current = w, current_segment_id = node_id (last (own_rows (segments t) sid))\<rparr>)" "writer_at cd w sid base segs"
proof -
  let ?j = "length segs - 1"
  have j: "?j < length segs" "segs ! ?j = last segs" "segs ! ?j \<noteq> []" using assms(3,4) by (simp_all add: last_conv_nth)
  have "rev [0..<length segs] = ?j # rev [0..<?j]" using assms(3) by (cases segs) simp_all
  then have l: "last_nonempty cd d sid (rev (list_segment_files d sid)) = Inr (Some (?j, seg_start base segs ?j))"
    using next_record_first [OF assms(1,2) j(1,3)] log_listing [OF assms(2)] by auto
  obtain w where w: "open_segment cd d sid ?j (seg_start base segs ?j) = (d, Inr w)" "seg_ok cd w (segs ! ?j)"
    "first_seq w = seg_start base segs ?j" "seg_session w = sid" "segment_index w = ?j"
    using open_listed [OF assms(1,2) j(1)] by metis
  have "writer_at cd w sid base segs" using w j(2) assms(3) by (simp add: writer_at_def)
  moreover have "segment_id_for t sid ?j = Some (node_id (last (own_rows (segments t) sid)))"
    unfolding segment_id_for_def by (rule segment_id_last [OF assms(5,4,3)])
  ultimately show thesis using that l w(1) by (simp add: recover_session_state_def)
qed

lemma recover_empty:
  assumes "codec_ok cd" "log_on_disk cd d sid base segs" "segs = [] \<or> segs = [[]]" "base = fork_base (segments t) sid"
    "indexed rmp (own_rows (segments t) sid) xs base segs"
  obtains d' w where "recover_session_state cd d t fresh sid = (d', Inr \<lparr>current = w, current_segment_id = fresh 0\<rparr>)"
    "log_on_disk cd d' sid base [[]]" "writer_at cd w sid base [[]]"
    "\<And>s i. segment_path s i \<notin> range (segment_path sid) \<Longrightarrow> read_file d' (segment_path s i) = read_file d (segment_path s i)"
proof -
  have none: "own_rows (segments t) sid = []" using assms(3,5) by (auto simp: indexed_def filled_def)
  then have id: "segment_id_for t sid 0 = None"
    by (auto simp: segment_id_for_def query_segment_id_def own_rows_def find_None_iff filter_empty_conv)
  have base: "(case fork_point t sid of Some k \<Rightarrow> k | None \<Rightarrow> 0) = base" using assms(4) fork_point_base by simp
  show thesis
  proof (cases "segs = []")
    case True
    let ?w = "\<lparr>seg_session = sid, segment_index = 0, content = [], pos = 0, row = 0, next_seq = base, first_seq = base, last_fsync_ok = True\<rparr>"
    let ?d = "write_file (segment_path sid 0) [] d"
    have no: "read_file d (segment_path sid i) = None" for i using assms(2) True by (simp add: log_on_disk_def)
    have "list_segment_files d sid = []" using log_listing [OF assms(2)] True by simp
    then have r: "recover_session_state cd d t fresh sid = (?d, Inr \<lparr>current = ?w, current_segment_id = fresh 0\<rparr>)"
      using open_absent [OF no] base id by (simp add: recover_session_state_def)
    have l: "log_on_disk cd ?d sid base [[]]"
      using assms(2) no write_keys by (auto simp: log_on_disk_def seg_records_def segment_path_def)
    have w: "writer_at cd ?w sid base [[]]" by (simp add: writer_at_def seg_ok_def seg_start_def)
    have "read_file ?d (segment_path s i) = read_file d (segment_path s i)" if "segment_path s i \<notin> range (segment_path sid)" for s i
      using that by auto
    then show thesis by (rule that [OF r l w])
  next
    case False
    then have s: "segs = [[]]" using assms(3) by blast
    obtain w where w: "open_segment cd d sid 0 (seg_start base [[]] 0) = (d, Inr w)" "seg_ok cd w []"
      "first_seq w = seg_start base [[]] 0" "seg_session w = sid" "segment_index w = 0"
      using open_listed [OF assms(1,2), of 0] s by auto
    have "last_nonempty cd d sid (rev (list_segment_files d sid)) = Inr None"
      using log_listing [OF assms(2)] assms(2) s by (simp add: log_on_disk_def reader_open_def seg_records_def next_record_def unframe_def)
    then have "recover_session_state cd d t fresh sid = (d, Inr \<lparr>current = w, current_segment_id = fresh 0\<rparr>)"
      using w(1) base id by (simp add: recover_session_state_def seg_start_def)
    moreover have "writer_at cd w sid base [[]]" using w by (simp add: writer_at_def)
    ultimately show thesis using that assms(2) s by blast
  qed
qed

section \<open>Flushing\<close>

lemma path_other: "inj_on file_stem S \<Longrightarrow> a \<in> S \<Longrightarrow> b \<in> S \<Longrightarrow> a \<noteq> b \<Longrightarrow> segment_path a i \<notin> range (segment_path b)"
  by (auto simp: segment_path_def inj_on_def)

lemma log_frame:
  assumes "log_on_disk cd d sid base segs" "distinct (map fst d')" "\<And>i. read_file d' (segment_path sid i) = read_file d (segment_path sid i)"
  shows "log_on_disk cd d' sid base segs"
  using assms by (simp add: log_on_disk_def)

text \<open>The state in the middle of a flush: the tables stand for what they will hold once it succeeds.\<close>

definition flush_ok ::
  "codec \<Rightarrow> rmp \<Rightarrow> session_id set \<Rightarrow> (session_id \<Rightarrow> session_event list list) \<Rightarrow> cbmr_writer \<Rightarrow> flush_out \<Rightarrow> bool" where
  "flush_ok cd rmp S segs s out \<longleftrightarrow>
     logs_ok cd rmp S segs (disk s) (sessions s) (table_after (segments (index s)) out) (events_after rmp (events (index s)) out)"

text \<open>A session before its group is written: no row of it is pending, and its fresh identifiers are fresh.\<close>

definition untouched :: "flush_env \<Rightarrow> cbmr_writer \<Rightarrow> flush_out \<Rightarrow> session_id \<Rightarrow> bool" where
  "untouched env s out sid \<longleftrightarrow>
     own_rows (table_after (segments (index s)) out) sid = own_rows (segments (index s)) sid \<and>
     fork_base (table_after (segments (index s)) out) sid = fork_base (segments (index s)) sid \<and> inj (fresh_segment env sid) \<and>
     (\<forall>k. fresh_segment env sid k \<notin> node_id ` set (table_after (segments (index s)) out) \<and>
        (\<forall>a st. sessions s a = Some st \<longrightarrow> fresh_segment env sid k \<noteq> current_segment_id st))"

text \<open>The first half of a group: whatever it takes to have the session open.\<close>

lemma open_group:
  assumes "codec_ok cd" "flush_ok cd rmp S segs s out" "untouched env s out sid" "sid \<in> S" "env_codec env = cd"
  obtains d st where
    "(case sessions s sid of Some st \<Rightarrow> (s, Inr st)
      | None \<Rightarrow> (case recover_session_state cd (disk s) (index s) (fresh_segment env sid) sid of
           (d, Inl e) \<Rightarrow> (s\<lparr>disk := d\<rparr>, Inl e)
         | (d, Inr st) \<Rightarrow> (s\<lparr>disk := d, sessions := (sessions s)(sid \<mapsto> st)\<rparr>, Inr st))) =
     (s\<lparr>disk := d, sessions := (sessions s)(sid \<mapsto> st)\<rparr>, Inr st :: (store_error, session_state) result)"
    "group_ok cd rmp (segments (index s)) (events (index s)) (fresh_segment env sid) sid (fork_base (segments (index s)) sid) d st
       (opened (segs sid)) out"
    "\<And>a i. segment_path a i \<notin> range (segment_path sid) \<Longrightarrow> read_file d (segment_path a i) = read_file (disk s) (segment_path a i)"
    "sessions s sid = Some st \<or> sessions s sid = None \<and>
       current_segment_id st \<in> range (fresh_segment env sid) \<union> node_id ` set (own_rows (table_after (segments (index s)) out) sid)"
proof -
  let ?T = "table_after (segments (index s)) out" and ?b = "fork_base (segments (index s)) sid" and ?f = "fresh_segment env sid"
  let ?ok = "\<lambda>d st sg. group_ok cd rmp (segments (index s)) (events (index s)) ?f sid ?b d st sg out"
  note u = assms(3) [unfolded untouched_def]
  have same: "own_rows (segments (index s)) sid = own_rows ?T sid" "fork_base ?T sid = ?b" using u by simp_all
  note l = assms(2) [unfolded flush_ok_def logs_ok_def]
  then have dist: "distinct (map node_id ?T)" by blast
  from l assms(4) have "session_ok cd rmp (disk s) (sessions s sid) ?T (events_after rmp (events (index s)) out) sid (segs sid)" by blast
  note l1 = this [unfolded session_ok_def same(2)]
  have log: "log_on_disk cd (disk s) sid ?b (segs sid)" and shape: "last (segs sid) = [] \<longrightarrow> segs sid = [] \<or> segs sid = [[]]"
    and ix: "indexed rmp (own_rows ?T sid) (own_events (events_after rmp (events (index s)) out) sid) ?b (segs sid)"
    using l1 by blast+
  have inj: "inj ?f" and new: "?f k \<notin> node_id ` set ?T" for k using u by blast+
  show thesis
  proof (cases "sessions s sid")
    case (Some st)
    have w: "writer_at cd (current st) sid ?b (segs sid)" "id_ok ?T sid (segs sid) (current_segment_id st)" using l1 Some by simp_all
    have "?f k \<noteq> current_segment_id st" for k using u Some by blast
    moreover have "opened (segs sid) = segs sid" using w(1) by (simp add: opened_def writer_at_def)
    ultimately have "?ok (disk s) st (opened (segs sid))" using log dist ix w inj new unfolding group_ok_def by simp
    moreover have "s\<lparr>disk := disk s, sessions := (sessions s)(sid \<mapsto> st)\<rparr> = s" using Some by (simp add: fun_upd_idem)
    ultimately show thesis using that [where d = "disk s" and st = st] Some by simp
  next
    case None
    show thesis
    proof (cases "segs sid = [] \<or> segs sid = [[]]")
      case True
      obtain d w where r: "recover_session_state cd (disk s) (index s) ?f sid = (d, Inr \<lparr>current = w, current_segment_id = ?f 0\<rparr>)"
        "log_on_disk cd d sid ?b [[]]" "writer_at cd w sid ?b [[]]"
        "\<And>a i. segment_path a i \<notin> range (segment_path sid) \<Longrightarrow> read_file d (segment_path a i) = read_file (disk s) (segment_path a i)"
        using recover_empty [OF assms(1) log True refl, of rmp] ix unfolding same(1) by metis
      have "indexed rmp (own_rows ?T sid) (own_events (events_after rmp (events (index s)) out) sid) ?b [[]]"
        using ix True by (auto simp: indexed_def filled_def)
      moreover have "?f k \<noteq> ?f 0" if "1 \<le> k" for k using inj that by (auto dest: injD)
      ultimately have "?ok d \<lparr>current = w, current_segment_id = ?f 0\<rparr> [[]]"
        using r(2,3) dist inj new unfolding group_ok_def by (auto simp: id_ok_def)
      moreover have "opened (segs sid) = [[]]" using True by (auto simp: opened_def)
      ultimately show thesis using that [where d = d and st = "\<lparr>current = w, current_segment_id = ?f 0\<rparr>"] r(1,4) None by simp
    next
      case False
      then have ne: "segs sid \<noteq> []" "last (segs sid) \<noteq> []" using shape by blast+
      let ?i = "node_id (last (own_rows ?T sid))"
      obtain w where r: "recover_session_state cd (disk s) (index s) ?f sid = (disk s, Inr \<lparr>current = w, current_segment_id = ?i\<rparr>)"
        "writer_at cd w sid ?b (segs sid)"
        using recover_full [OF assms(1) log ne, of rmp "index s"] ix unfolding same(1) by metis
      have "map (\<lambda>n. (node_index n, node_start n, node_end n)) (own_rows ?T sid) = map (row_data ?b (segs sid)) [0..<filled (segs sid)]"
        using ix by (simp add: indexed_def)
      then have "own_rows ?T sid \<noteq> []" using ne by (auto simp: filled_def)
      then have mem: "?i \<in> node_id ` set (own_rows ?T sid)" "id_ok ?T sid (segs sid) ?i" using ne by (simp_all add: id_ok_def)
      then have "?i \<in> node_id ` set ?T" by (auto simp: own_rows_def)
      then have "?f k \<noteq> ?i" for k using new by metis
      then have "?ok (disk s) \<lparr>current = w, current_segment_id = ?i\<rparr> (opened (segs sid))"
        using log ix r(2) dist inj new mem(2) ne unfolding group_ok_def by (auto simp: opened_def)
      then show thesis using that [where d = "disk s" and st = "\<lparr>current = w, current_segment_id = ?i\<rparr>"] r(1) None mem(1) by simp
    qed
  qed
qed

lemma fork_base_frame:
  "filter (\<lambda>n. node_session n = a \<and> node_parent n \<noteq> None) rows' = filter (\<lambda>n. node_session n = a \<and> node_parent n \<noteq> None) rows \<Longrightarrow>
   fork_base rows' a = fork_base rows a"
  by (simp add: fork_base_def)

lemma own_ids_disjoint:
  assumes "distinct (map node_id rows)" "i \<in> node_id ` set (own_rows rows a)" "i \<in> node_id ` set (own_rows rows b)"
  shows "a = b"
  using assms by (auto simp: own_rows_def distinct_map inj_on_def)

text \<open>No other open session writes under the identifier that a group uses.\<close>

lemma id_other:
  assumes "flush_ok cd rmp S segs s out" "untouched env s out sid" "sid \<in> S" "b \<in> S" "b \<noteq> sid" "sessions s b = Some q"
    "sessions s sid = Some st \<or> sessions s sid = None \<and>
       current_segment_id st \<in> range (fresh_segment env sid) \<union> node_id ` set (own_rows (table_after (segments (index s)) out) sid)"
    "i \<in> insert (current_segment_id st) (range (fresh_segment env sid))"
  shows "i \<noteq> current_segment_id q"
proof -
  let ?T = "table_after (segments (index s)) out"
  note l = assms(1) [unfolded flush_ok_def logs_ok_def]
  have "session_ok cd rmp (disk s) (sessions s b) ?T (events_after rmp (events (index s)) out) b (segs b)" using l assms(4) by blast
  then have q: "id_ok ?T b (segs b) (current_segment_id q)" using assms(6) by (simp add: session_ok_def)
  have fresh: "current_segment_id q \<notin> range (fresh_segment env sid)" using assms(2,6) unfolding untouched_def by (metis rangeE)
  have "current_segment_id q \<noteq> current_segment_id st"
  proof (cases "sessions s sid")
    case (Some p)
    then have "p = st" using assms(7) by simp
    moreover have "\<forall>a \<in> S. \<forall>b \<in> S. \<forall>p q. sessions s a = Some p \<longrightarrow> sessions s b = Some q \<longrightarrow> a \<noteq> b \<longrightarrow> current_segment_id p \<noteq> current_segment_id q"
      using l by blast
    ultimately show ?thesis using Some assms(3-6) by blast
  next
    case None
    then consider "current_segment_id st \<in> range (fresh_segment env sid)" | "current_segment_id st \<in> node_id ` set (own_rows ?T sid)"
      using assms(7) by auto
    then show ?thesis
    proof cases
      case 2
      have "current_segment_id q \<notin> node_id ` set (own_rows ?T sid)"
      proof (cases "last (segs b) = []")
        case True
        then show ?thesis using q by (auto simp: id_ok_def own_rows_def)
      next
        case False
        then have "own_rows ?T b \<noteq> []" "node_id (last (own_rows ?T b)) = current_segment_id q" using q by (simp_all add: id_ok_def)
        then have "current_segment_id q \<in> node_id ` set (own_rows ?T b)" by (metis imageI last_in_set)
        then show ?thesis using own_ids_disjoint [of ?T _ b sid] l assms(5) by blast
      qed
      with 2 show ?thesis by metis
    qed (use fresh in metis)
  qed
  with fresh assms(8) show ?thesis by blast
qed

lemma untouched_later:
  assumes "untouched env s out b" "b \<noteq> sid" "inj (\<lambda>(a, k). fresh_segment env a k)" "index s1 = index s" "sessions s1 = (sessions s)(sid \<mapsto> st')"
    "frame_ok_group rmp (segments (index s)) xs sid d out d' out1"
    "node_id ` set (table_after (segments (index s)) out1) \<subseteq>
       node_id ` set (table_after (segments (index s)) out) \<union> insert (current_segment_id st) (range (fresh_segment env sid))"
    "current_segment_id st' \<in> insert (current_segment_id st) (range (fresh_segment env sid))"
    "sessions s sid = Some st \<or> sessions s sid = None \<and>
       current_segment_id st \<in> range (fresh_segment env sid) \<union> node_id ` set (own_rows (table_after (segments (index s)) out) sid)"
  shows "untouched env s1 out1 b"
proof -
  let ?T = "table_after (segments (index s)) out"
  note u = assms(1) [unfolded untouched_def]
  have pair: "fresh_segment env b k \<notin> range (fresh_segment env sid)" for k
  proof
    assume "fresh_segment env b k \<in> range (fresh_segment env sid)"
    then obtain j where "(\<lambda>(a, k). fresh_segment env a k) (b, k) = (\<lambda>(a, k). fresh_segment env a k) (sid, j)" by auto
    from injD [OF assms(3) this] assms(2) show False by simp
  qed
  have "set (own_rows ?T sid) \<subseteq> set ?T" by (auto simp: own_rows_def)
  then have st: "fresh_segment env b k \<noteq> current_segment_id st" for k using assms(9) u pair [of k] by (metis UnE image_mono subsetD)
  have "fresh_segment env b k \<notin> node_id ` set (table_after (segments (index s)) out1)" for k
    using u st [of k] pair [of k] assms(7) by blast
  moreover have "fresh_segment env b k \<noteq> current_segment_id p" if "sessions s1 a = Some p" for a p k
    using that u st [of k] pair [of k] assms(5,8) by (cases "a = sid") auto
  moreover have "own_rows (table_after (segments (index s)) out1) b = own_rows (segments (index s)) b"
    "fork_base (table_after (segments (index s)) out1) b = fork_base (segments (index s)) b"
    using assms(2,6) u fork_base_frame [of b "table_after (segments (index s)) out1" ?T] unfolding frame_ok_group_def by simp_all
  ultimately show ?thesis using u unfolding untouched_def assms(4) by blast
qed

text \<open>A whole group, for the session it writes and for the others.\<close>

lemma group_step:
  assumes "codec_ok cd" "flush_ok cd rmp S segs s out" "untouched env s out sid" "sid \<in> S" "env_codec env = cd"
    "0 < max_rows_per_segment (store_conf s)" "evs \<noteq> []" "flush_group env s sid evs out = Some (s1, Inr out1)"
    "inj (\<lambda>(a, k). fresh_segment env a k)"
  obtains sg where "flush_ok cd rmp S (segs(sid := sg)) s1 out1" "concat sg = concat (segs sid) @ evs"
    "(\<forall>x \<in> set (segs sid). length x \<le> max_rows_per_segment (store_conf s)) \<longrightarrow> (\<forall>x \<in> set sg. length x \<le> max_rows_per_segment (store_conf s))"
    "index s1 = index s" "store_conf s1 = store_conf s" "pending_events s1 = pending_events s"
    "last_offset_by_session s1 = last_offset_by_session s" "\<And>b. b \<noteq> sid \<Longrightarrow> untouched env s out b \<Longrightarrow> untouched env s1 out1 b"
    "\<exists>off. out_last out1 = (out_last out)(sid \<mapsto> off) \<and> off_seq off + 1 = fork_base (segments (index s)) sid + length (concat sg)"
    "\<And>a. fork_base (table_after (segments (index s)) out1) a = fork_base (table_after (segments (index s)) out) a"
    "\<exists>new. out_rows out1 = out_rows out @ new \<and> map row_event new = evs"
proof -
  let ?rows = "segments (index s)" and ?xs = "events (index s)" and ?f = "fresh_segment env sid" and ?m = "max_rows_per_segment (store_conf s)"
  let ?T = "table_after ?rows out" and ?T1 = "table_after ?rows out1" and ?b = "fork_base ?rows sid"
  obtain d st where op: "(case sessions s sid of Some st \<Rightarrow> (s, Inr st)
      | None \<Rightarrow> (case recover_session_state cd (disk s) (index s) ?f sid of
           (d, Inl e) \<Rightarrow> (s\<lparr>disk := d\<rparr>, Inl e)
         | (d, Inr st) \<Rightarrow> (s\<lparr>disk := d, sessions := (sessions s)(sid \<mapsto> st)\<rparr>, Inr st))) =
     (s\<lparr>disk := d, sessions := (sessions s)(sid \<mapsto> st)\<rparr>, Inr st :: (store_error, session_state) result)"
    and g: "group_ok cd rmp ?rows ?xs ?f sid ?b d st (opened (segs sid)) out"
    and df: "\<And>a i. segment_path a i \<notin> range (segment_path sid) \<Longrightarrow> read_file d (segment_path a i) = read_file (disk s) (segment_path a i)"
    and src: "sessions s sid = Some st \<or> sessions s sid = None \<and> current_segment_id st \<in> range ?f \<union> node_id ` set (own_rows ?T sid)"
    by (rule open_group [OF assms(1-5)]) (rule that)
  obtain d1 st1 where w: "write_group cd ?m (fault_at env sid) ?f sid d st evs out = Some (d1, st1, Inr out1)"
    and s1: "s1 = s\<lparr>disk := d1, sessions := (sessions s)(sid \<mapsto> st1)\<rparr>"
    using assms(8) unfolding flush_group_def assms(5) Let_def op by (auto split: option.splits)
  note fin = write_group_ok [OF g assms(6,7) w, unfolded group_done_def]
  obtain sg where sg: "group_ok cd rmp ?rows ?xs ?f sid ?b d1 st1 sg out1" "concat sg = concat (segs sid) @ evs" "last sg \<noteq> []"
    "(\<forall>x \<in> set (opened (segs sid)). length x \<le> ?m) \<longrightarrow> (\<forall>x \<in> set sg. length x \<le> ?m)" using fin by auto
  have fr: "frame_ok_group rmp ?rows ?xs sid d out d1 out1"
    and ids: "node_id ` set ?T1 \<subseteq> node_id ` set ?T \<union> insert (current_segment_id st) (range ?f)"
    and cid: "current_segment_id st1 \<in> insert (current_segment_id st) (range ?f)" using fin by blast+
  note frd = fr [unfolded frame_ok_group_def]
  have fb: "fork_base ?T1 a = fork_base ?T a" for a using frd fork_base_frame [of a ?T1 ?T] by blast
  have fbs: "fork_base ?T sid = ?b" using assms(3) by (simp add: untouched_def)
  note l = assms(2) [unfolded flush_ok_def logs_ok_def]
  note gg = sg(1) [unfolded group_ok_def]
  have other: "session_ok cd rmp d1 (sessions s1 b) ?T1 (events_after rmp ?xs out1) b (segs b)" if b: "b \<in> S" "b \<noteq> sid" for b
  proof -
    from l b(1) have "session_ok cd rmp (disk s) (sessions s b) ?T (events_after rmp ?xs out) b (segs b)" by blast
    note lb = this [unfolded session_ok_def]
    have path: "segment_path b i \<notin> range (segment_path sid)" for i using l path_other [of S b sid] b assms(4) by blast
    have "read_file d1 (segment_path b i) = read_file (disk s) (segment_path b i)" for i using frd df path by metis
    then have "log_on_disk cd d1 b (fork_base ?T1 b) (segs b)"
      using log_frame [of cd "disk s" b "fork_base ?T b" "segs b" d1] lb gg fb by (simp add: log_on_disk_def)
    moreover have same: "own_rows ?T1 b = own_rows ?T b" "own_events (events_after rmp ?xs out1) b = own_events (events_after rmp ?xs out) b"
      using frd b(2) by blast+
    moreover have "id_ok ?T1 b (segs b) (current_segment_id q)" if q: "sessions s b = Some q" for q
    proof -
      have iq: "id_ok ?T b (segs b) (current_segment_id q)" using lb q by simp
      have "current_segment_id q \<notin> insert (current_segment_id st) (range ?f)" using id_other [OF assms(2-4) b q src] by blast
      then have "current_segment_id q \<notin> node_id ` set ?T \<Longrightarrow> current_segment_id q \<notin> node_id ` set ?T1" using ids by blast
      then show ?thesis using iq same(1) unfolding id_ok_def by (simp split: if_splits)
    qed
    ultimately show ?thesis using lb b(2) fb s1 unfolding session_ok_def by (simp split: option.splits)
  qed
  have mine: "session_ok cd rmp d1 (sessions s1 sid) ?T1 (events_after rmp ?xs out1) sid sg"
    using gg sg(3) fb fbs s1 by (simp add: session_ok_def)
  have pair: "\<forall>a \<in> S. \<forall>b \<in> S. \<forall>p q. sessions s1 a = Some p \<longrightarrow> sessions s1 b = Some q \<longrightarrow> a \<noteq> b \<longrightarrow> current_segment_id p \<noteq> current_segment_id q"
  proof (intro ballI allI impI)
    fix a b p q assume ab: "a \<in> S" "b \<in> S" "sessions s1 a = Some p" "sessions s1 b = Some q" "a \<noteq> b"
    have new: "current_segment_id st1 \<noteq> current_segment_id q" if "b \<in> S" "b \<noteq> sid" "sessions s b = Some q" for b q
      using id_other [OF assms(2-4) that src cid] .
    consider "a = sid" | "b = sid" | "a \<noteq> sid" "b \<noteq> sid" by blast
    then show "current_segment_id p \<noteq> current_segment_id q"
    proof cases
      case 1
      then show ?thesis using new [of b q] ab s1 by simp
    next
      case 2
      then show ?thesis using new [of a p] ab s1 by fastforce
    next
      case 3
      then have "sessions s a = Some p" "sessions s b = Some q" using ab s1 by simp_all
      with l ab show ?thesis by blast
    qed
  qed
  have "session_ok cd rmp d1 (sessions s1 b) ?T1 (events_after rmp ?xs out1) b ((segs(sid := sg)) b)" if "b \<in> S" for b
    using other [OF that] mine by (cases "b = sid") simp_all
  moreover have "inj_on file_stem S" "distinct (map node_id ?T1)" using l gg by blast+
  moreover have "index s1 = index s" "disk s1 = d1" by (simp_all add: s1)
  ultimately have "flush_ok cd rmp S (segs(sid := sg)) s1 out1" using pair unfolding flush_ok_def logs_ok_def by metis
  moreover have "untouched env s1 out1 b" if "b \<noteq> sid" "untouched env s out b" for b
    by (rule untouched_later [OF that(2,1) assms(9) _ _ fr ids cid src]) (simp_all add: s1)
  moreover have "\<exists>off. out_last out1 = (out_last out)(sid \<mapsto> off) \<and> off_seq off + 1 = ?b + length (concat sg)"
    using fin sg(2) by (auto simp: add.assoc)
  moreover have "(\<forall>x \<in> set (segs sid). length x \<le> ?m) \<longrightarrow> (\<forall>x \<in> set sg. length x \<le> ?m)"
    using sg(4) by (auto simp: opened_def)
  moreover have "\<exists>new. out_rows out1 = out_rows out @ new \<and> map row_event new = evs" using fin by blast
  ultimately show thesis using that sg(2) fb s1 by simp
qed

text \<open>All groups.\<close>

definition group_of :: "(session_id \<times> session_event) list \<Rightarrow> session_id \<Rightarrow> session_event list" where
  "group_of batch sid = map snd (filter (\<lambda>p. fst p = sid) batch)"

lemma flush_groups_ok:
  assumes "codec_ok cd" "env_codec env = cd" "inj (\<lambda>(a, k). fresh_segment env a k)" "0 < m"
    "max_rows_per_segment (store_conf s) = m" "flush_ok cd rmp S segs s out" "\<forall>sid \<in> set sids. untouched env s out sid"
    "distinct sids" "set sids \<subseteq> S" "\<forall>sid \<in> set sids. group_of batch sid \<noteq> []"
    "flush_groups env s batch sids out = Some (s1, Inr out1)"
  shows "\<exists>segs1. flush_ok cd rmp S segs1 s1 out1 \<and> index s1 = index s \<and> store_conf s1 = store_conf s \<and>
    pending_events s1 = pending_events s \<and> last_offset_by_session s1 = last_offset_by_session s \<and>
    (\<forall>sid. concat (segs1 sid) = concat (segs sid) @ (if sid \<in> set sids then group_of batch sid else [])) \<and>
    (\<forall>sid. (\<forall>x \<in> set (segs sid). length x \<le> m) \<longrightarrow> (\<forall>x \<in> set (segs1 sid). length x \<le> m)) \<and>
    (\<forall>sid. if sid \<in> set sids
       then \<exists>off. out_last out1 sid = Some off \<and> off_seq off + 1 = fork_base (segments (index s)) sid + length (concat (segs1 sid))
       else out_last out1 sid = out_last out sid) \<and>
    (\<forall>sid. fork_base (table_after (segments (index s)) out1) sid = fork_base (table_after (segments (index s)) out) sid) \<and>
    (\<exists>new. out_rows out1 = out_rows out @ new \<and> (\<forall>sid \<in> set sids. set (group_of batch sid) \<subseteq> row_event ` set new))"
  using assms(5-11)
proof (induction sids arbitrary: s segs out)
  case Nil
  then show ?case by (intro exI [of _ segs]) auto
next
  case (Cons sid sids)
  let ?evs = "group_of batch sid"
  obtain s2 out2 where g: "flush_group env s sid ?evs out = Some (s2, Inr out2)" and rest: "flush_groups env s2 batch sids out2 = Some (s1, Inr out1)"
    using Cons.prems(7) by (auto simp: group_of_def split: option.splits sum.splits)
  have ne: "?evs \<noteq> []" and u: "untouched env s out sid" and S: "sid \<in> S" and pos: "0 < max_rows_per_segment (store_conf s)"
    using Cons.prems(1,3,5,6) assms(4) by auto
  obtain sg where sg: "flush_ok cd rmp S (segs(sid := sg)) s2 out2" "concat sg = concat (segs sid) @ ?evs"
    "(\<forall>x \<in> set (segs sid). length x \<le> m) \<longrightarrow> (\<forall>x \<in> set sg. length x \<le> m)"
    "index s2 = index s" "store_conf s2 = store_conf s" "pending_events s2 = pending_events s"
    "last_offset_by_session s2 = last_offset_by_session s" "\<And>b. b \<noteq> sid \<Longrightarrow> untouched env s out b \<Longrightarrow> untouched env s2 out2 b"
    "\<exists>off. out_last out2 = (out_last out)(sid \<mapsto> off) \<and> off_seq off + 1 = fork_base (segments (index s)) sid + length (concat sg)"
    "\<And>a. fork_base (table_after (segments (index s)) out2) a = fork_base (table_after (segments (index s)) out) a"
    "\<exists>new. out_rows out2 = out_rows out @ new \<and> map row_event new = ?evs"
    using group_step [OF assms(1) Cons.prems(2) u S assms(2) pos ne g assms(3)] unfolding Cons.prems(1) by metis
  have "\<forall>a \<in> set sids. untouched env s2 out2 a" using Cons.prems(3,4) by (intro ballI sg(8)) auto
  moreover have "max_rows_per_segment (store_conf s2) = m" "distinct sids" "set sids \<subseteq> S" "\<forall>a \<in> set sids. group_of batch a \<noteq> []"
    using Cons.prems sg(5) by auto
  ultimately obtain segs1 where ih: "flush_ok cd rmp S segs1 s1 out1" "index s1 = index s2" "store_conf s1 = store_conf s2"
    "pending_events s1 = pending_events s2" "last_offset_by_session s1 = last_offset_by_session s2"
    "\<forall>a. concat (segs1 a) = concat ((segs(sid := sg)) a) @ (if a \<in> set sids then group_of batch a else [])"
    "\<forall>a. (\<forall>x \<in> set ((segs(sid := sg)) a). length x \<le> m) \<longrightarrow> (\<forall>x \<in> set (segs1 a). length x \<le> m)"
    "\<forall>a. if a \<in> set sids then \<exists>off. out_last out1 a = Some off \<and> off_seq off + 1 = fork_base (segments (index s2)) a + length (concat (segs1 a))
       else out_last out1 a = out_last out2 a"
    "\<forall>a. fork_base (table_after (segments (index s2)) out1) a = fork_base (table_after (segments (index s2)) out2) a"
    "\<exists>new. out_rows out1 = out_rows out2 @ new \<and> (\<forall>a \<in> set sids. set (group_of batch a) \<subseteq> row_event ` set new)"
    using Cons.IH [OF _ sg(1) _ _ _ _ rest] by metis
  have sid: "sid \<notin> set sids" using Cons.prems(4) by simp
  obtain n1 n2 where n: "out_rows out2 = out_rows out @ n1" "map row_event n1 = ?evs" "out_rows out1 = out_rows out2 @ n2"
    "\<forall>a \<in> set sids. set (group_of batch a) \<subseteq> row_event ` set n2" using sg(11) ih(10) by blast
  have "row_event ` set n1 = set ?evs" using n(2) by (metis set_map)
  then have new: "\<exists>new. out_rows out1 = out_rows out @ new \<and> (\<forall>a \<in> set (sid # sids). set (group_of batch a) \<subseteq> row_event ` set new)"
    using n by (intro exI [of _ "n1 @ n2"]) (simp add: image_Un le_supI2)
  have conc: "concat (segs1 a) = concat (segs a) @ (if a \<in> set (sid # sids) then group_of batch a else [])" for a
    using spec [OF ih(6), of a] sg(2) sid by (cases "a = sid") simp_all
  have bnd: "(\<forall>x \<in> set (segs a). length x \<le> m) \<longrightarrow> (\<forall>x \<in> set (segs1 a). length x \<le> m)" for a
    using spec [OF ih(7), of a] sg(3) by (cases "a = sid") simp_all
  have lst: "if a \<in> set (sid # sids)
       then \<exists>off. out_last out1 a = Some off \<and> off_seq off + 1 = fork_base (segments (index s)) a + length (concat (segs1 a))
       else out_last out1 a = out_last out a" for a
  proof (cases "a = sid")
    case True
    then have "out_last out1 a = out_last out2 a" "concat (segs1 a) = concat sg" using spec [OF ih(6), of a] spec [OF ih(8), of a] sid by simp_all
    then show ?thesis using sg(9) True by auto
  next
    case False
    then show ?thesis using spec [OF ih(8), of a] sg(4,9) by auto
  qed
  have same: "index s1 = index s" "store_conf s1 = store_conf s" "pending_events s1 = pending_events s"
    "last_offset_by_session s1 = last_offset_by_session s" "fork_base (table_after (segments (index s)) out1) a = fork_base (table_after (segments (index s)) out) a" for a
    using ih(2-5,9) sg(4-7,10) by simp_all
  show ?case by (intro exI [of _ segs1] conjI allI conc bnd lst new ih(1) same)
qed

text \<open>The index.\<close>

lemma insert_segments_result:
  "insert_segments t ms = (t', r) \<Longrightarrow> events t' = events t \<and>
   (is_Ok r \<longrightarrow> segments t' = foldl (\<lambda>rs m. upsert_segment (node_of_meta m) rs) (segments t) ms)"
proof (induction ms arbitrary: t)
  case (Cons m ms)
  show ?case
  proof (cases "snd (insert_segment t m)")
    case (Inl e)
    then show ?thesis using Cons.prems by (auto simp: insert_segment_def split: if_splits)
  next
    case (Inr u)
    then have "insert_segments (t\<lparr>segments := upsert_segment (node_of_meta m) (segments t)\<rparr>) ms = (t', r)"
      using Cons.prems by (auto simp: insert_segment_def split: if_splits)
    from Cons.IH [OF this] show ?thesis by simp
  qed
qed simp

lemma insert_rows_tuples:
  "insert_rows rmp rs tab = Inr tab' \<Longrightarrow>
   tab' = tab @ map (tuple_of rmp) rs \<and> (\<forall>r \<in> set rs. is_Ok (rmp_to_vec rmp (row_event r)))"
proof (induction rs arbitrary: tab)
  case (Cons r rs)
  obtain bs where b: "rmp_to_vec rmp (row_event r) = Inr bs" using Cons.prems by (auto split: sum.splits)
  then have "insert_rows rmp rs (tab @ [tuple_of rmp r]) = Inr tab'"
    using Cons.prems by (auto simp: tuple_of_def payload_of_def split: if_splits)
  from Cons.IH [OF this] b show ?case by simp
qed simp

lemma insert_events_result:
  "insert_events rmp t rs = (t', Inr ()) \<Longrightarrow>
   segments t' = segments t \<and> events t' = events t @ map (tuple_of rmp) rs \<and> (\<forall>r \<in> set rs. is_Ok (rmp_to_vec rmp (row_event r)))"
  using insert_rows_tuples [of rmp rs "events t"] by (auto simp: insert_events_def split: if_splits sum.splits)

text \<open>What the environment of a flush must provide: new identifiers, and every group once.\<close>

definition env_ok :: "flush_env \<Rightarrow> cbmr_writer \<Rightarrow> bool" where
  "env_ok env s \<longleftrightarrow> inj (\<lambda>(a, k). fresh_segment env a k) \<and>
     (\<forall>a k. fresh_segment env a k \<notin> node_id ` set (segments (index s)) \<and>
        (\<forall>b st. sessions s b = Some st \<longrightarrow> fresh_segment env a k \<noteq> current_segment_id st)) \<and>
     (\<forall>xs. distinct xs \<longrightarrow> distinct (group_order env xs) \<and> set (group_order env xs) = set xs)"

lemma env_untouched: "env_ok env s \<Longrightarrow> untouched env s \<lparr>out_rows = [], out_metas = [], out_last = Map.empty\<rparr> sid"
  unfolding env_ok_def untouched_def by (auto simp: table_after_def inj_on_def)

definition queued :: "cbmr_writer \<Rightarrow> session_id \<Rightarrow> session_event list" where
  "queued s sid = group_of (pending_events s) sid"

lemma flush_logs:
  assumes "codec_ok (env_codec env)" "store_ok (env_codec env) (env_rmp env) S segs s" "env_ok env s"
    "0 < max_rows_per_segment (store_conf s)" "fst ` set (pending_events s) \<subseteq> S" "flush_sync env s = Some (s', Inr ())"
  shows "\<exists>segs'. store_ok (env_codec env) (env_rmp env) S segs' s' \<and> pending_events s' = [] \<and>
    (\<forall>sid. log_of segs' sid = log_of segs sid @ queued s sid) \<and>
    (\<forall>sid. (\<forall>x \<in> set (segs sid). length x \<le> max_rows_per_segment (store_conf s)) \<longrightarrow>
       (\<forall>x \<in> set (segs' sid). length x \<le> max_rows_per_segment (store_conf s))) \<and>
    (\<forall>sid. fork_base (segments (index s')) sid = fork_base (segments (index s)) sid) \<and>
    (\<forall>sid. if queued s sid \<noteq> []
       then \<exists>off. last_offset s' sid = Some off \<and> off_seq off + 1 = fork_base (segments (index s)) sid + length (log_of segs' sid)
       else last_offset s' sid = last_offset s sid)"
proof (cases "pending_events s = []")
  case True
  then have "s' = s\<lparr>pending_events := []\<rparr>" using assms(6) by (simp add: flush_sync_def)
  then show ?thesis using assms(2) True
    by (intro exI [of _ segs]) (simp add: store_ok_def queued_def group_of_def last_offset_def)
next
  case False
  let ?cd = "env_codec env" and ?rmp = "env_rmp env" and ?batch = "pending_events s" and ?m = "max_rows_per_segment (store_conf s)"
  let ?s0 = "s\<lparr>pending_events := []\<rparr>" and ?out0 = "\<lparr>out_rows = [], out_metas = [], out_last = Map.empty\<rparr>"
  let ?sids = "group_order env (remdups (map fst ?batch))"
  obtain s1 out where g: "flush_groups env ?s0 ?batch ?sids ?out0 = Some (s1, Inr out)"
    and r: "(case insert_segments (index s1) (out_metas out) of
                   (t, Inl e) \<Rightarrow> Some (s1\<lparr>index := t\<rparr>, Inl e)
                 | (t, Inr _) \<Rightarrow>
                     (case insert_events ?rmp t (out_rows out) of
                        (t', Inl e) \<Rightarrow> Some (s1\<lparr>index := t'\<rparr>, Inl e)
                      | (t', Inr _) \<Rightarrow>
                          Some (s1\<lparr>index := t', last_offset_by_session := last_offset_by_session s1 ++ out_last out\<rparr>, Inr ()))) = Some (s', Inr ())"
    using assms(6) False by (auto simp: flush_sync_def Let_def split: option.splits sum.splits)
  have order: "distinct ?sids" "set ?sids = fst ` set ?batch" using assms(3) by (auto simp: env_ok_def)
  have mem: "sid \<in> set ?sids \<longleftrightarrow> queued s sid \<noteq> []" for sid unfolding order(2) by (force simp: queued_def group_of_def filter_empty_conv)
  have f0: "flush_ok ?cd ?rmp S segs ?s0 ?out0" using assms(2) by (simp add: flush_ok_def store_ok_def table_after_def events_after_def)
  have u: "\<forall>sid \<in> set ?sids. untouched env ?s0 ?out0 sid" using env_untouched [OF assms(3)] by (simp add: untouched_def)
  have inj: "inj (\<lambda>(a, k). fresh_segment env a k)" using assms(3) by (simp add: env_ok_def)
  have m: "max_rows_per_segment (store_conf ?s0) = ?m" by simp
  have S: "set ?sids \<subseteq> S" "\<forall>sid \<in> set ?sids. group_of ?batch sid \<noteq> []" using assms(5) order(2) mem by (auto simp: queued_def)
  note fg = flush_groups_ok [OF assms(1) refl inj assms(4) m f0 u order(1) S g]
  obtain segs1 new where f1: "flush_ok ?cd ?rmp S segs1 s1 out" "index s1 = index ?s0" "store_conf s1 = store_conf ?s0"
    "pending_events s1 = pending_events ?s0" "last_offset_by_session s1 = last_offset_by_session ?s0"
    and conc: "\<forall>sid. concat (segs1 sid) = concat (segs sid) @ (if sid \<in> set ?sids then group_of ?batch sid else [])"
    and bnd: "\<forall>sid. (\<forall>x \<in> set (segs sid). length x \<le> ?m) \<longrightarrow> (\<forall>x \<in> set (segs1 sid). length x \<le> ?m)"
    and lst: "\<forall>sid. if sid \<in> set ?sids
       then \<exists>off. out_last out sid = Some off \<and> off_seq off + 1 = fork_base (segments (index ?s0)) sid + length (concat (segs1 sid))
       else out_last out sid = out_last ?out0 sid"
    and fb: "\<forall>sid. fork_base (table_after (segments (index ?s0)) out) sid = fork_base (table_after (segments (index ?s0)) ?out0) sid"
    and new: "out_rows out = out_rows ?out0 @ new" and rows: "\<forall>sid \<in> set ?sids. set (group_of ?batch sid) \<subseteq> row_event ` set new"
    using fg by (elim exE conjE) (rule that)
  obtain t t' where t: "insert_segments (index s) (out_metas out) = (t, Inr ())" "insert_events ?rmp t (out_rows out) = (t', Inr ())"
    "s' = s1\<lparr>index := t', last_offset_by_session := last_offset_by_session s ++ out_last out\<rparr>"
    using r f1(2,5) by (auto split: prod.splits sum.splits)
  have tab: "segments t' = table_after (segments (index s)) out" "events t' = events_after ?rmp (events (index s)) out"
    using insert_segments_result [OF t(1)] insert_events_result [OF t(2)] by (simp_all add: table_after_def events_after_def)
  have log: "log_of segs1 sid = log_of segs sid @ queued s sid" for sid
    using spec [OF conc, of sid] mem [of sid] by (simp add: log_of_def queued_def split: if_splits)
  have "is_Ok (rmp_to_vec ?rmp ev)" if "sid \<in> S" "ev \<in> set (log_of segs1 sid)" for sid ev
  proof (cases "ev \<in> set (queued s sid)")
    case True
    then have "sid \<in> set ?sids" using mem by (metis empty_iff list.set(1))
    then have "ev \<in> row_event ` set (out_rows out)" using rows new True by (auto simp: queued_def)
    then show ?thesis using insert_events_result [OF t(2)] by auto
  next
    case False
    then show ?thesis using that log [of sid] assms(2) by (auto simp: store_ok_def)
  qed
  then have sk: "store_ok ?cd ?rmp S segs1 s'" using f1(1,2) tab t(3) by (simp add: store_ok_def flush_ok_def)
  have lo: "if queued s sid \<noteq> []
       then \<exists>off. last_offset s' sid = Some off \<and> off_seq off + 1 = fork_base (segments (index s)) sid + length (log_of segs1 sid)
       else last_offset s' sid = last_offset s sid" for sid
    using spec [OF lst, of sid] mem [of sid] t(3) by (auto simp: last_offset_def log_of_def map_add_def split: if_splits)
  have fbb: "fork_base (segments (index s')) sid = fork_base (segments (index s)) sid" for sid
    using fb t(3) tab by (simp add: table_after_def)
  have pe: "pending_events s' = []" using f1(4) t(3) by simp
  show ?thesis by (intro exI [of _ segs1] conjI allI sk pe log lo fbb spec [OF bnd])
qed

end
