(* ===== verification/Writer_Props.thy ===== *)
theory Writer_Props
  imports Writer_Store
begin

text \<open>
  The properties of the session writer: a successful flush appends the queue to the logs, a failed one loses
  it, a flush returns exactly if the row limit is positive, a session that was closed or cut off by a
  crash is resumed where its file ends, and a fork reads as the prefix of its parent.
\<close>

section \<open>Reading back\<close>

definition rmp_ok :: "rmp \<Rightarrow> bool" where
  "rmp_ok rmp \<longleftrightarrow> (\<forall>ev bs. rmp_to_vec rmp ev = Inr bs \<longrightarrow> rmp_from_slice rmp bs = Inr ev)"

definition numbered :: "nat \<Rightarrow> session_event list \<Rightarrow> stored_event list" where
  "numbered n evs = map2 (\<lambda>i ev. \<lparr>stored_offset = i, stored = ev\<rparr>) [n..<n + length evs] evs"

lemma numbered_Cons: "numbered n (ev # evs) = \<lparr>stored_offset = n, stored = ev\<rparr> # numbered (n + 1) evs"
  by (simp add: numbered_def upt_conv_Cons del: upt_Suc)

lemma decode_numbered:
  assumes "rmp_ok rmp"
  shows "map tuple_offset xs = [n..<n + length evs] \<Longrightarrow> map tuple_payload xs = map (payload_of rmp) evs \<Longrightarrow>
    \<forall>ev \<in> set evs. is_Ok (rmp_to_vec rmp ev) \<Longrightarrow> decode_rows rmp xs = Inr (numbered n evs)"
proof (induction evs arbitrary: xs n)
  case Nil
  then show ?case by (simp add: numbered_def)
next
  case (Cons ev evs)
  obtain x ys where xs: "xs = x # ys" using Cons.prems(2) by (cases xs) auto
  have x: "tuple_offset x = n" "map tuple_offset ys = [n + 1..<n + 1 + length evs]" "tuple_payload x = payload_of rmp ev"
    "map tuple_payload ys = map (payload_of rmp) evs"
    using Cons.prems(1,2) unfolding xs by (simp_all add: upt_conv_Cons del: upt_Suc)
  obtain bs where "rmp_to_vec rmp ev = Inr bs" using Cons.prems(3) by (auto simp: is_Ok_def split: sum.splits)
  then have "rmp_from_slice rmp (tuple_payload x) = Inr ev" using assms x(3) by (simp add: payload_of_def rmp_ok_def)
  moreover have "decode_rows rmp ys = Inr (numbered (n + 1) evs)" using Cons.IH [OF x(2,4)] Cons.prems(3) by simp
  ultimately show ?case using x(1) by (simp add: xs numbered_Cons)
qed

lemma own_tuples_all:
  assumes "map tuple_offset (own_events (events t) sid) = [a..<b]"
  shows "own_tuples t sid 0 = own_events (events t) sid"
proof -
  have "sorted (map tuple_offset (own_events (events t) sid))" unfolding assms by simp
  then show ?thesis by (simp add: own_tuples_def own_events_def sort_key_id_if_sorted)
qed

text \<open>The own events of a session.\<close>

lemma store_reads:
  assumes "store_ok cd rmp S segs s" "rmp_ok rmp" "sid \<in> S"
  shows "decode_rows rmp (own_tuples (index s) sid 0) = Inr (numbered (fork_base (segments (index s)) sid) (log_of segs sid))"
proof -
  have "session_ok cd rmp (disk s) (sessions s sid) (segments (index s)) (events (index s)) sid (segs sid)"
    using assms(1,3) by (simp add: store_ok_def logs_ok_def)
  then have ix: "indexed rmp (own_rows (segments (index s)) sid) (own_events (events (index s)) sid)
      (fork_base (segments (index s)) sid) (segs sid)" by (simp add: session_ok_def)
  have enc: "\<forall>ev \<in> set (log_of segs sid). is_Ok (rmp_to_vec rmp ev)" using assms(1,3) by (simp add: store_ok_def)
  note ix' = ix [unfolded indexed_def, folded log_of_def]
  then show ?thesis using decode_numbered [OF assms(2) _ _ enc] own_tuples_all [of "index s" sid] by metis
qed

definition is_root :: "cbmr_writer \<Rightarrow> session_id \<Rightarrow> bool" where
  "is_root s sid \<longleftrightarrow> fork_rows (index s) sid = []"

lemma root_base: "is_root s sid \<Longrightarrow> fork_base (segments (index s)) sid = 0"
  by (simp add: is_root_def fork_base_def fork_rows_def)

lemma root_iff_base: "is_root s sid \<longleftrightarrow> fork_base (segments (index s)) sid = 0"
  by (cases "filter (\<lambda>r. node_session r = sid \<and> node_parent r \<noteq> None) (segments (index s))")
     (simp_all add: is_root_def fork_base_def fork_rows_def)

lemma root_reads:
  assumes "store_ok cd rmp S segs s" "rmp_ok rmp" "sid \<in> S" "is_root s sid"
  shows "session_events rmp s sid None = Inr (numbered 0 (log_of segs sid))"
proof -
  have "prefix_tuples (index s) sid 0 = []" by (rule prefix_of_root) (use assms(4) in \<open>simp add: is_root_def\<close>)
  then show ?thesis using store_reads [OF assms(1-3)] root_base [OF assms(4)] by (simp add: session_events_def read_events_def sql_int_def)
qed

section \<open>Errors\<close>

lemma flush_group_keeps:
  "flush_group env s sid evs out = Some (s1, r) \<Longrightarrow>
   index s1 = index s \<and> pending_events s1 = pending_events s \<and> last_offset_by_session s1 = last_offset_by_session s"
  by (auto simp: flush_group_def Let_def split: option.splits prod.splits sum.splits)

lemma flush_groups_keep:
  "flush_groups env s batch sids out = Some (s1, r) \<Longrightarrow>
   index s1 = index s \<and> pending_events s1 = pending_events s \<and> last_offset_by_session s1 = last_offset_by_session s"
proof (induction sids arbitrary: s out)
  case (Cons sid sids)
  let ?evs = "map snd (filter (\<lambda>p. fst p = sid) batch)"
  obtain s2 r2 where g: "flush_group env s sid ?evs out = Some (s2, r2)" using Cons.prems by (cases "flush_group env s sid ?evs out") auto
  show ?case
  proof (cases r2)
    case (Inl e)
    then show ?thesis using Cons.prems g flush_group_keeps [OF g] by simp
  next
    case (Inr out2)
    then have "flush_groups env s2 batch sids out2 = Some (s1, r)" using Cons.prems g by simp
    from Cons.IH [OF this] flush_group_keeps [OF g] show ?thesis by simp
  qed
qed simp

lemma insert_events_failed: "insert_events rmp t rs = (t', Inl e) \<Longrightarrow> t' = t"
  by (auto simp: insert_events_def split: if_splits sum.splits)

section \<open>Termination\<close>

text \<open>The files behind the current segment; a roll into one of them leaves one less ahead.\<close>

definition ahead :: "disk \<Rightarrow> session_id \<Rightarrow> nat \<Rightarrow> nat" where
  "ahead d sid i = card {j. i < j \<and> read_file d (segment_path sid j) \<noteq> None}"

lemma finite_files: "finite {j. read_file d (segment_path sid j) \<noteq> None}"
proof -
  have "(\<lambda>j. segment_path sid j) ` {j. read_file d (segment_path sid j) \<noteq> None} \<subseteq> fst ` set d"
    unfolding read_file_def map_of_eq_None_iff by blast
  then have "finite ((\<lambda>j. segment_path sid j) ` {j. read_file d (segment_path sid j) \<noteq> None})" by (rule finite_subset) simp
  then show ?thesis by (rule finite_imageD) (simp add: inj_on_def segment_path_def)
qed

lemma open_ahead:
  assumes "open_segment cd d sid (i + 1) start = (d', Inr w)"
  shows "segment_index w = i + 1" "if read_file d (segment_path sid (i + 1)) = None then row w = 0 else ahead d' sid (i + 1) < ahead d sid i"
proof -
  have d': "d' = write_file (segment_path sid (i + 1)) (content w) d"
    and o: "open_or_create cd sid (i + 1) start (read_file d (segment_path sid (i + 1))) = Inr w"
    using assms by (auto simp: open_segment_def split: sum.splits)
  then show "segment_index w = i + 1" by (auto simp: open_or_create_def recover_tail_def split: sum.splits)
  show "if read_file d (segment_path sid (i + 1)) = None then row w = 0 else ahead d' sid (i + 1) < ahead d sid i"
  proof (cases "read_file d (segment_path sid (i + 1)) = None")
    case True
    then show ?thesis using assms open_absent [OF True, of cd start] by auto
  next
    case False
    let ?A = "{j. i < j \<and> read_file d (segment_path sid j) \<noteq> None}"
    have "{j. i + 1 < j \<and> read_file d' (segment_path sid j) \<noteq> None} \<subseteq> ?A - {i + 1}" unfolding d' by (auto simp: segment_path_def)
    moreover have "i + 1 \<in> ?A" "finite ?A" using False finite_subset [OF _ finite_files [of d sid]] by auto
    ultimately have "card {j. i + 1 < j \<and> read_file d' (segment_path sid j) \<noteq> None} < card ?A"
      by (meson card_Diff1_less card_mono finite_Diff le_less_trans)
    then show ?thesis unfolding if_not_P [OF False] ahead_def .
  qed
qed

lemma roll_ahead:
  assumes "roll cd fresh sid d st = (d', Inr st')"
  shows "row (current st') = 0 \<and> ahead d' sid (segment_index (current st')) \<le> ahead d sid (segment_index (current st)) \<or>
    ahead d' sid (segment_index (current st')) < ahead d sid (segment_index (current st))"
proof -
  let ?i = "segment_index (current st)"
  obtain w where w: "open_segment cd d sid (?i + 1) (next_seq (current st)) = (d', Inr w)" "current st' = w"
    using assms by (auto simp: roll_def Let_def split: prod.splits sum.splits)
  note oa = open_ahead [OF w(1)]
  show ?thesis
  proof (cases "read_file d (segment_path sid (?i + 1)) = None")
    case True
    have "d' = write_file (segment_path sid (?i + 1)) [] d" using w(1) open_absent [OF True, of cd "next_seq (current st)"] by simp
    then have "{j. ?i + 1 < j \<and> read_file d' (segment_path sid j) \<noteq> None} \<subseteq> {j. ?i < j \<and> read_file d (segment_path sid j) \<noteq> None}"
      by (auto simp: segment_path_def)
    moreover have "finite {j. ?i < j \<and> read_file d (segment_path sid j) \<noteq> None}"
      by (rule finite_subset [OF _ finite_files [of d sid]]) blast
    ultimately have "ahead d' sid (?i + 1) \<le> ahead d sid ?i" unfolding ahead_def by (intro card_mono)
    then show ?thesis using oa(1) oa(2) w(2) True by simp
  next
    case False
    then show ?thesis using oa(1) oa(2) w(2) by (simp only: if_False simp_thms)
  qed
qed

text \<open>
  With a positive limit the loop ends in every state: a round writes an event, or leaves a file behind,
  or opens an empty file.
\<close>

lemma write_group_returns:
  assumes "0 < m"
  shows "write_group cd m faults fresh sid d st evs out \<noteq> None"
proof (induction "(length evs, ahead d sid (segment_index (current st)) + (if row (current st) < m then 0 else 1))"
    arbitrary: d st evs out rule: wf_induct_rule [OF wf_lex_prod [OF wf_less wf_less]])
  case 1
  note IH = 1 [rule_format]
  let ?k = "m - row (current st)"
  show ?case
  proof (cases "?k = 0")
    case True
    show ?thesis
    proof (cases "roll cd fresh sid d st")
      case (Pair d' r)
      show ?thesis
      proof (cases r)
        case (Inl e)
        then show ?thesis using True Pair by (subst write_group.simps) simp
      next
        case (Inr st')
        have "((length evs, ahead d' sid (segment_index (current st')) + (if row (current st') < m then 0 else 1)),
            (length evs, ahead d sid (segment_index (current st)) + (if row (current st) < m then 0 else 1))) \<in> less_than <*lex*> less_than"
          using roll_ahead [of cd fresh sid d st d' st'] Pair Inr True assms by auto
        then have "write_group cd m faults fresh sid d' st' evs (note_meta st out) \<noteq> None" using IH by simp
        then show ?thesis using True Pair Inr by (subst write_group.simps) simp
      qed
    qed
  next
    case False
    let ?n = "min ?k (length evs)"
    show ?thesis
    proof (cases "?n = 0")
      case True
      then show ?thesis using False by (subst write_group.simps) (simp add: Let_def)
    next
      case n: False
      obtain d1 w r where a: "append_segment cd d (current st) (take ?n evs) (faults (segment_index (current st))) = (d1, w, r)"
        by (rule prod_cases3)
      obtain d2 q where b: "roll cd fresh sid d1 (st\<lparr>current := w\<rparr>) = (d2, q)" by (rule prod.exhaust)
      have "write_group cd m faults fresh sid d2 st2 (drop ?k evs) out2 \<noteq> None" for st2 out2
      proof -
        have "0 < ?k" "0 < length evs" using n by simp_all
        then have "length (drop ?k evs) < length evs" unfolding length_drop by (rule diff_less)
        then show ?thesis by (intro IH) (simp only: in_lex_prod mem_Collect_eq case_prod_conv simp_thms)
      qed
      then show ?thesis using False n a b by (subst write_group.simps) (simp add: Let_def split: sum.splits)
    qed
  qed
qed

text \<open>With a limit of zero it rolls from one empty file to the next.\<close>

lemma write_group_hangs:
  assumes "log_on_disk cd d sid base segs" "writer_at cd (current st) sid base segs"
  shows "write_group cd 0 faults fresh sid d st evs out = None"
proof -
  have "m = 0 \<Longrightarrow> log_on_disk cd d sid base segs \<Longrightarrow> writer_at cd (current st) sid base segs \<Longrightarrow> False"
    if "write_group cd m faults fresh sid d st evs out = Some y" for m y d st evs out segs
    using that
  proof (induction cd m faults fresh sid d st evs out y arbitrary: segs rule: write_group.raw_induct [rotated, consumes 1, case_names 1])
    case (1 wg cd m faults fresh sid d st evs out y segs)
    obtain d' w where r: "roll cd fresh sid d st = (d', Inr \<lparr>current = w, current_segment_id = fresh (length segs)\<rparr>)"
      "log_on_disk cd d' sid base (segs @ [[]])" "writer_at cd w sid base (segs @ [[]])"
      using roll_log [OF 1(4,5)] by metis
    then have "wg cd m faults fresh sid d' \<lparr>current = w, current_segment_id = fresh (length segs)\<rparr> evs (note_meta st out) = Some y"
      using 1(2,3) by simp
    from 1(1) [OF this 1(3) r(2)] r(3) show ?case by simp
  qed
  then show ?thesis using assms by (cases "write_group cd 0 faults fresh sid d st evs out") blast+
qed

lemma flush_group_returns:
  assumes "0 < max_rows_per_segment (store_conf s)"
  shows "flush_group env s sid evs out \<noteq> None"
proof -
  have w: "\<exists>d' st' r. write_group (env_codec env) (max_rows_per_segment (store_conf s)) (fault_at env sid) (fresh_segment env sid) sid d st evs out =
      Some (d', st', r)" for d st
    using write_group_returns [OF assms, of "env_codec env" "fault_at env sid" "fresh_segment env sid" sid d st evs out] by auto
  show ?thesis
  proof (cases "case sessions s sid of
               Some st \<Rightarrow> (s, Inr st)
             | None \<Rightarrow>
                 (case recover_session_state (env_codec env) (disk s) (index s) (fresh_segment env sid) sid of
                    (d, Inl e) \<Rightarrow> (s\<lparr>disk := d\<rparr>, Inl e)
                  | (d, Inr st) \<Rightarrow> (s\<lparr>disk := d, sessions := (sessions s)(sid \<mapsto> st)\<rparr>, Inr st))")
    case (Pair s1 state)
    show ?thesis
    proof (cases state)
      case (Inl e)
      then show ?thesis unfolding flush_group_def Let_def Pair by simp
    next
      case (Inr st)
      then show ?thesis unfolding flush_group_def Let_def Pair using w [of "disk s1" st] by auto
    qed
  qed
qed

lemma flush_group_config: "flush_group env s sid evs out = Some (s1, r) \<Longrightarrow> store_conf s1 = store_conf s"
  by (auto simp: flush_group_def Let_def split: option.splits prod.splits sum.splits)

lemma flush_groups_return:
  "0 < max_rows_per_segment (store_conf s) \<Longrightarrow> flush_groups env s batch sids out \<noteq> None"
proof (induction sids arbitrary: s out)
  case (Cons sid sids)
  let ?evs = "map snd (filter (\<lambda>p. fst p = sid) batch)"
  obtain s2 r2 where g: "flush_group env s sid ?evs out = Some (s2, r2)"
    using flush_group_returns [OF Cons.prems, of env sid ?evs out] by auto
  then have "0 < max_rows_per_segment (store_conf s2)" using flush_group_config [OF g] Cons.prems by simp
  then show ?case using Cons.IH g by (cases r2) simp_all
qed simp

lemma flush_sync_returns:
  assumes "0 < max_rows_per_segment (store_conf s)"
  shows "flush_sync env s \<noteq> None"
proof -
  let ?batch = "pending_events s" and ?s0 = "s\<lparr>pending_events := []\<rparr>"
  let ?sids = "group_order env (remdups (map fst ?batch))" and ?out0 = "\<lparr>out_rows = [], out_metas = [], out_last = Map.empty\<rparr>"
  obtain s1 r where "flush_groups env ?s0 ?batch ?sids ?out0 = Some (s1, r)"
    using flush_groups_return [of ?s0 env ?batch ?sids ?out0] assms by auto
  then show ?thesis by (simp add: flush_sync_def Let_def split: sum.splits prod.splits)
qed

lemma flush_sync_hangs:
  assumes "codec_ok (env_codec env)" "store_ok (env_codec env) (env_rmp env) S segs s" "env_ok env s"
    "max_rows_per_segment (store_conf s) = 0" "fst ` set (pending_events s) \<subseteq> S" "pending_events s \<noteq> []"
  shows "flush_sync env s = None"
proof -
  let ?cd = "env_codec env" and ?rmp = "env_rmp env" and ?batch = "pending_events s"
  let ?s0 = "s\<lparr>pending_events := []\<rparr>" and ?out0 = "\<lparr>out_rows = [], out_metas = [], out_last = Map.empty\<rparr>"
  let ?sids = "group_order env (remdups (map fst ?batch))"
  have "set ?sids = fst ` set ?batch" using assms(3) by (auto simp: env_ok_def)
  then obtain sid sids where sids: "?sids = sid # sids" "sid \<in> S"
    using assms(5,6) by (cases ?sids) auto
  have f0: "flush_ok ?cd ?rmp S segs ?s0 ?out0" using assms(2) by (simp add: flush_ok_def store_ok_def table_after_def events_after_def)
  have u: "untouched env ?s0 ?out0 sid" using env_untouched [OF assms(3)] by (simp add: untouched_def)
  let ?evs = "map snd (filter (\<lambda>p. fst p = sid) ?batch)"
  obtain d st where o: "(case sessions ?s0 sid of Some st \<Rightarrow> (?s0, Inr st)
      | None \<Rightarrow> (case recover_session_state ?cd (disk ?s0) (index ?s0) (fresh_segment env sid) sid of
           (d, Inl e) \<Rightarrow> (?s0\<lparr>disk := d\<rparr>, Inl e)
         | (d, Inr st) \<Rightarrow> (?s0\<lparr>disk := d, sessions := (sessions ?s0)(sid \<mapsto> st)\<rparr>, Inr st))) =
     (?s0\<lparr>disk := d, sessions := (sessions ?s0)(sid \<mapsto> st)\<rparr>, Inr st :: (store_error, session_state) result)"
    and g: "group_ok ?cd ?rmp (segments (index ?s0)) (events (index ?s0)) (fresh_segment env sid) sid (fork_base (segments (index ?s0)) sid) d st
       (opened (segs sid)) ?out0"
    by (rule open_group [OF assms(1) f0 u sids(2) refl]) (erule (1) that)
  have "write_group ?cd 0 (fault_at env sid) (fresh_segment env sid) sid d st ?evs ?out0 = None"
    using g unfolding group_ok_def by (intro write_group_hangs) (elim conjE, assumption)+
  then have "flush_group env ?s0 sid ?evs ?out0 = None"
    unfolding flush_group_def Let_def o using assms(4) by simp
  then have "flush_groups env ?s0 ?batch ?sids ?out0 = None" unfolding sids(1) flush_groups.simps by simp
  then show ?thesis unfolding flush_sync_def Let_def using assms(6) by simp
qed

section \<open>Reopening after a crash\<close>

lemma segment_path_inj: "segment_path sid i = segment_path sid j \<longleftrightarrow> i = j"
  by (simp add: segment_path_def)

lemma next_record_torn:
  assumes "codec_ok cd" "\<forall>r \<in> set (records_of start 0 es). encodable cd r" "unframe tail = None"
    "read_file d (segment_path sid i) = Some (file_of cd (records_of start 0 es) @ tail)"
  shows "last_nonempty cd d sid (i # idxs) = (if es = [] then last_nonempty cd d sid idxs else Inr (Some (i, start)))"
proof (cases es)
  case Nil
  then show ?thesis using assms(3,4) by (simp add: reader_open_def next_record_def)
next
  case (Cons ev evs)
  let ?r = "\<lparr>rec_seq = start, rec_row = 0, rec_event = ev\<rparr>"
  have "encodable cd ?r" using assms(2) Cons by simp
  then show ?thesis using assms(4) Cons
    by (simp add: reader_open_def next_record_def unframe_body from_slice_body [OF assms(1)])
qed

text \<open>Reopening a session whose last file ends in a torn record, whatever is in front of it.\<close>

lemma reopen_torn:
  assumes "codec_ok cd" "log_on_disk cd d sid base segs" "segs \<noteq> []" "last segs = [] \<longrightarrow> segs = [[]]" "base = fork_base (segments t) sid"
    "indexed rmp (own_rows (segments t) sid) xs base segs" "unframe tail = None"
    "\<forall>r \<in> set (records_of (seg_start base segs (length segs - 1)) 0 (last segs @ evs)). encodable cd r" "distinct (map fst d')"
    "\<And>i. read_file d' (segment_path sid i) =
       (if i = length segs - 1 then Some (file_of cd (records_of (seg_start base segs i) 0 (last segs @ evs)) @ tail)
        else read_file d (segment_path sid i))"
  shows "\<exists>d'' st. recover_session_state cd d' t fresh sid = (d'', Inr st) \<and> log_on_disk cd d'' sid base (extend_log segs evs) \<and>
    writer_at cd (current st) sid base (extend_log segs evs) \<and>
    current_segment_id st = (if last segs = [] then fresh 0 else node_id (last (own_rows (segments t) sid)))"
proof -
  let ?j = "length segs - 1" and ?start = "seg_start base segs (length segs - 1)" and ?es = "last segs @ evs"
  have split: "i < length segs \<longleftrightarrow> i < ?j \<or> i = ?j" for i using assms(3) by (cases segs) auto
  have bytes: "read_file d' (segment_path sid ?j) = Some (file_of cd (records_of ?start 0 ?es) @ tail)" using assms(10) [of ?j] by simp
  have "read_file d' (segment_path sid i) \<noteq> None \<longleftrightarrow> i < length segs" for i
    using assms(2) split [of i] unfolding assms(10) by (simp add: log_on_disk_def)
  then have "list_segment_files d' sid = [0..<length segs]" by (rule listed_files [OF assms(9)])
  also have "\<dots> = [0..<?j] @ [?j]" using assms(3) by (cases segs) simp_all
  finally have l: "rev (list_segment_files d' sid) = ?j # rev [0..<?j]" by simp
  have zero: "?j = 0 \<and> ?start = base" if "last segs = []" using assms(4) that by (simp add: seg_start_def)
  have rec: "(case last_nonempty cd d' sid (rev (list_segment_files d' sid)) of
      Inl e \<Rightarrow> Inl e | Inr r \<Rightarrow> Inr (case r of Some pair \<Rightarrow> pair | None \<Rightarrow> (0, case fork_point t sid of Some k \<Rightarrow> k | None \<Rightarrow> 0))) =
    (Inr (?j, ?start) :: (store_error, nat \<times> nat) result)"
    using zero unfolding l next_record_torn [OF assms(1,8,7) bytes] fork_point_base assms(5) [symmetric] by (auto simp: seg_start_def)
  obtain w where w: "open_or_create cd sid ?j ?start (Some (file_of cd (records_of ?start 0 ?es) @ tail)) = Inr w" "seg_ok cd w ?es" "first_seq w = ?start"
    using open_torn [OF assms(1,8,7), of sid ?j] by blast
  have ids: "seg_session w = sid" "segment_index w = ?j" using w(1) by (auto simp: open_or_create_def recover_tail_def split: sum.splits)
  let ?d = "write_file (segment_path sid ?j) (content w) d'"
  have c: "content w = file_of cd (records_of ?start 0 ?es)" using w(2,3) by (simp add: seg_ok_def)
  have o: "open_segment cd d' sid ?j ?start = (?d, Inr w)" using w(1) bytes by (simp add: open_segment_def)
  have log: "log_on_disk cd ?d sid base (extend_log segs evs)"
    by (rule log_extended [OF assms(2,3) write_keys [OF assms(9)] _ assms(8)]) (simp add: assms(10) c segment_path_inj)
  have wr: "writer_at cd w sid base (extend_log segs evs)"
    using w(2,3) ids assms(3) by (simp add: writer_at_def extend_log_props extend_log_start)
  have id: "(case segment_id_for t sid ?j of Some i \<Rightarrow> i | None \<Rightarrow> fresh ?j) =
      (if last segs = [] then fresh 0 else node_id (last (own_rows (segments t) sid)))"
  proof (cases "last segs = []")
    case True
    then have "own_rows (segments t) sid = []" using assms(4,6) by (auto simp: indexed_def filled_def)
    then have "segment_id_for t sid 0 = None"
      by (auto simp: segment_id_for_def query_segment_id_def own_rows_def find_None_iff filter_empty_conv)
    then show ?thesis using zero [OF True] True by simp
  next
    case False
    then show ?thesis using segment_id_last [OF assms(6) False assms(3)] by (simp add: segment_id_for_def)
  qed
  obtain q where q: "last_nonempty cd d' sid (rev (list_segment_files d' sid)) = Inr q"
    "(case q of Some pair \<Rightarrow> pair | None \<Rightarrow> (0, case fork_point t sid of Some k \<Rightarrow> k | None \<Rightarrow> 0)) = (?j, ?start)"
    using rec by (cases "last_nonempty cd d' sid (rev (list_segment_files d' sid))") simp_all
  have "recover_session_state cd d' t fresh sid =
      (?d, Inr \<lparr>current = w, current_segment_id = (case segment_id_for t sid ?j of Some i \<Rightarrow> i | None \<Rightarrow> fresh ?j)\<rparr>)"
    unfolding recover_session_state_def q(1) sum.case Let_def q(2) prod.case o ..
  then show ?thesis using log wr id by auto
qed

section \<open>A concrete store\<close>

text \<open>A new store with one queued event of a session \<open>''s''\<close>; the binary encoding is the plain one without numbers.\<close>

definition plain_rmp :: rmp where
  "plain_rmp =
     \<lparr>rmp_to_vec = (\<lambda>ev. plain_to_vec \<lparr>rec_seq = 0, rec_row = 0, rec_event = ev\<rparr>),
      rmp_from_slice = (\<lambda>bs. map_sum id rec_event (plain_from_slice bs))\<rparr>"

lemma plain_rmp_ok: "rmp_ok plain_rmp"
  using plain_codec_ok by (auto simp: rmp_ok_def plain_rmp_def codec_ok_def plain_codec_def)

definition demo_env :: "io_fault \<Rightarrow> flush_env" where
  "demo_env fault =
     \<lparr>env_codec = plain_codec, env_rmp = plain_rmp, fault_at = (\<lambda>_ _. fault), group_order = id,
      fresh_segment = (\<lambda>sid k. replicate k CHR ''x'' @ CHR ''-'' # sid)\<rparr>"

definition demo_store :: "nat \<Rightarrow> cbmr_writer" where
  "demo_store m =
     (cbmr_new (store_config_default\<lparr>max_rows_per_segment := m\<rparr>) tree_open [])\<lparr>pending_events := [(''s'', plain_event ''hi'')]\<rparr>"

lemma demo_fresh_ids: "replicate k CHR ''x'' @ CHR ''-'' # a = replicate l CHR ''x'' @ CHR ''-'' # b \<longleftrightarrow> k = l \<and> a = b"
proof (induction k arbitrary: l)
  case 0
  then show ?case by (cases l) simp_all
next
  case (Suc k)
  then show ?case by (cases l) simp_all
qed

lemma demo_env_ok: "env_ok (demo_env fault) (demo_store m)"
  by (auto simp: env_ok_def inj_on_def demo_env_def demo_store_def cbmr_new_def tree_open_def demo_fresh_ids)

lemma demo_store_ok: "store_ok plain_codec plain_rmp {''s''} (\<lambda>_. []) (demo_store m)"
  by (simp add: store_ok_def logs_ok_def session_ok_def log_on_disk_def indexed_def filled_def fork_base_def own_rows_def own_events_def
      log_of_def demo_store_def cbmr_new_def tree_open_def read_file_def)

definition demo_open :: segment_writer where
  "demo_open = \<lparr>seg_session = ''s'', segment_index = 0, content = [], pos = 0, row = 0, next_seq = 0, first_seq = 0, last_fsync_ok = True\<rparr>"

lemma demo_open_fields:
  "seg_session demo_open = ''s''" "segment_index demo_open = 0" "row demo_open = 0" "next_seq demo_open = 0" "first_seq demo_open = 0"
  by (simp_all add: demo_open_def)

lemma demo_recover: "recover_session_state plain_codec [] tree_open fresh ''s'' =
    (write_file (segment_path ''s'' 0) [] [], Inr \<lparr>current = demo_open, current_segment_id = fresh 0\<rparr>)"
  using open_absent [of "[]" "''s''" 0 plain_codec 0]
  by (simp add: recover_session_state_def list_segment_files_def read_file_def fork_point_base fork_base_def tree_open_def
      segment_id_for_def query_segment_id_def demo_open_def)

lemma demo_append:
  "append_segment plain_codec (write_file (segment_path ''s'' 0) [] []) demo_open [plain_event ''hi''] fault =
     (case append_batch plain_codec demo_open [plain_event ''hi''] fault of
        (w, res) \<Rightarrow> (write_file (segment_path ''s'' 0) (content w) (write_file (segment_path ''s'' 0) [] []), w, res))"
  by (simp add: append_segment_def Let_def demo_open_def)

lemma demo_group:
  "\<exists>d w. write_group plain_codec 1 (\<lambda>_. fault) fresh ''s'' (write_file (segment_path ''s'' 0) [] [])
       \<lparr>current = demo_open, current_segment_id = fresh 0\<rparr> [plain_event ''hi''] \<lparr>out_rows = [], out_metas = [], out_last = Map.empty\<rparr> =
     Some (d, \<lparr>current = w, current_segment_id = fresh 0\<rparr>,
       case fault of NoFault \<Rightarrow>
         Inr (note_meta \<lparr>current = w, current_segment_id = fresh 0\<rparr>
           (note_rows ''s'' (fresh 0) [Offset 0 0] [plain_event ''hi''] \<lparr>out_rows = [], out_metas = [], out_last = Map.empty\<rparr>))
       | SyncFails \<Rightarrow> Inl (Io ''fsync'') | WriteFails k \<Rightarrow> Inl (Io ''write_all'')) \<and>
     seg_session w = ''s'' \<and> segment_index w = 0 \<and> first_seq w = 0 \<and> (fault = NoFault \<longrightarrow> row w = 1 \<and> next_seq w = 1)"
  using plain_append [of "''hi''" demo_open fault]
  by (subst write_group.simps) (cases fault; simp add: demo_append demo_open_fields Let_def offset_of_def rollback_batch_def write_all_def)

lemma demo_flush:
  "\<exists>s'. flush_sync (demo_env fault) (demo_store 1) = Some (s',
     case fault of NoFault \<Rightarrow> Inr () | SyncFails \<Rightarrow> Inl (Io ''fsync'') | WriteFails k \<Rightarrow> Inl (Io ''write_all''))"
proof -
  let ?fresh = "fresh_segment (demo_env fault) ''s''"
  obtain d w where g: "write_group plain_codec 1 (\<lambda>_. fault) ?fresh ''s'' (write_file (segment_path ''s'' 0) [] [])
       \<lparr>current = demo_open, current_segment_id = ?fresh 0\<rparr> [plain_event ''hi''] \<lparr>out_rows = [], out_metas = [], out_last = Map.empty\<rparr> =
     Some (d, \<lparr>current = w, current_segment_id = ?fresh 0\<rparr>,
       case fault of NoFault \<Rightarrow>
         Inr (note_meta \<lparr>current = w, current_segment_id = ?fresh 0\<rparr>
           (note_rows ''s'' (?fresh 0) [Offset 0 0] [plain_event ''hi''] \<lparr>out_rows = [], out_metas = [], out_last = Map.empty\<rparr>))
       | SyncFails \<Rightarrow> Inl (Io ''fsync'') | WriteFails k \<Rightarrow> Inl (Io ''write_all''))"
    "first_seq w = 0" "fault = NoFault \<longrightarrow> row w = 1 \<and> next_seq w = 1"
    using demo_group [of fault ?fresh] by blast
  let ?s0 = "demo_store 1\<lparr>pending_events := []\<rparr>" and ?out0 = "\<lparr>out_rows = [], out_metas = [], out_last = Map.empty\<rparr>"
  have fields: "env_codec (demo_env f) = plain_codec" "fault_at (demo_env f) ''s'' = (\<lambda>_. f)" "group_order (demo_env f) = id"
    "env_rmp (demo_env f) = plain_rmp" "sessions (demo_store m) = Map.empty" "disk (demo_store m) = []" "index (demo_store m) = tree_open"
    "max_rows_per_segment (store_conf (demo_store m)) = m" "pending_events (demo_store m) = [(''s'', plain_event ''hi'')]" for m f
    by (simp_all add: demo_env_def demo_store_def cbmr_new_def)
  have fg: "\<exists>s1. flush_group (demo_env fault) ?s0 ''s'' [plain_event ''hi''] ?out0 =
      Some (s1, case fault of NoFault \<Rightarrow>
         Inr (note_meta \<lparr>current = w, current_segment_id = ?fresh 0\<rparr> (note_rows ''s'' (?fresh 0) [Offset 0 0] [plain_event ''hi''] ?out0))
       | SyncFails \<Rightarrow> Inl (Io ''fsync'') | WriteFails k \<Rightarrow> Inl (Io ''write_all'')) \<and> index s1 = tree_open"
    using g(1) by (simp add: flush_group_def Let_def fields demo_recover)
  then show ?thesis
    using g(2,3)
    by (cases fault) (auto simp: flush_sync_def fields note_meta_def note_rows_def current_meta_def meta_def insert_segment_def tree_open_def
        upsert_segment_def node_of_meta_def sql_int_def insert_events_def plain_rmp_def plain_to_vec_def plain_event_def)
qed

text \<open>The same store with the session open on an empty file.\<close>

definition demo_opened :: cbmr_writer where
  "demo_opened =
     \<lparr>store_conf = store_config_default, index = tree_open, disk = write_file (segment_path ''s'' 0) [] [],
      sessions = [''s'' \<mapsto> \<lparr>current = demo_open, current_segment_id = ''x''\<rparr>], pending_events = [], last_offset_by_session = Map.empty\<rparr>"

lemma demo_opened_ok: "store_ok plain_codec plain_rmp {''s''} (\<lambda>_. [[]]) demo_opened"
proof -
  have "distinct (map fst (write_file (segment_path ''s'' 0) [] []))" by (rule write_keys) simp
  moreover have "read_file [] p = None" for p by (simp add: read_file_def)
  ultimately show ?thesis
    by (simp add: store_ok_def logs_ok_def session_ok_def log_on_disk_def indexed_def filled_def fork_base_def own_rows_def own_events_def
        log_of_def demo_opened_def tree_open_def seg_records_def segment_path_inj writer_at_def demo_open_def seg_start_def seg_ok_def id_ok_def)
qed

section \<open>Properties\<close>

text \<open>
  C2: a flush appends the queue to the logs. On a consistent store a flush that succeeds leaves a
  consistent store in which the log of every session, in its files and in the index, is extended by
  exactly its queued events in the order of the queue; the queue is empty, no file holds more rows than the
  limit, the last offset of a session is that of its last event, and a session that is not a fork reads
  its whole log, numbered from 0.
\<close>

theorem flush_appends_to_logs:
  assumes "codec_ok (env_codec env)" "rmp_ok (env_rmp env)" "store_ok (env_codec env) (env_rmp env) S segs s" "env_ok env s"
    "0 < max_rows_per_segment (store_conf s)" "fst ` set (pending_events s) \<subseteq> S" "flush_sync env s = Some (s', Inr ())"
  shows "\<exists>segs'. store_ok (env_codec env) (env_rmp env) S segs' s' \<and> pending_events s' = [] \<and>
    (\<forall>sid. log_of segs' sid = log_of segs sid @ queued s sid) \<and>
    (\<forall>sid. (\<forall>x \<in> set (segs sid). length x \<le> max_rows_per_segment (store_conf s)) \<longrightarrow>
       (\<forall>x \<in> set (segs' sid). length x \<le> max_rows_per_segment (store_conf s))) \<and>
    (\<forall>sid. if queued s sid \<noteq> []
       then \<exists>off. last_offset s' sid = Some off \<and> off_seq off + 1 = fork_base (segments (index s)) sid + length (log_of segs' sid)
       else last_offset s' sid = last_offset s sid) \<and>
    (\<forall>sid \<in> S. is_root s sid \<longrightarrow> session_events (env_rmp env) s' sid None = Inr (numbered 0 (log_of segs sid @ queued s sid)))"
proof -
  obtain segs' where f: "store_ok (env_codec env) (env_rmp env) S segs' s'" "pending_events s' = []"
    "\<forall>sid. log_of segs' sid = log_of segs sid @ queued s sid"
    "\<forall>sid. (\<forall>x \<in> set (segs sid). length x \<le> max_rows_per_segment (store_conf s)) \<longrightarrow>
       (\<forall>x \<in> set (segs' sid). length x \<le> max_rows_per_segment (store_conf s))"
    "\<forall>sid. fork_base (segments (index s')) sid = fork_base (segments (index s)) sid"
    "\<forall>sid. if queued s sid \<noteq> []
       then \<exists>off. last_offset s' sid = Some off \<and> off_seq off + 1 = fork_base (segments (index s)) sid + length (log_of segs' sid)
       else last_offset s' sid = last_offset s sid"
    using flush_logs [OF assms(1,3-7)] by (elim exE conjE) (rule that)
  have "session_events (env_rmp env) s' sid None = Inr (numbered 0 (log_of segs sid @ queued s sid))" if "sid \<in> S" "is_root s sid" for sid
    using root_reads [OF f(1) assms(2) that(1)] f(3,5) that(2) by (simp add: root_iff_base)
  with f show ?thesis by blast
qed

theorem flush_appends_to_logs_witness:
  "\<exists>s'. flush_sync (demo_env NoFault) (demo_store 1) = Some (s', Inr ()) \<and>
     session_events plain_rmp s' ''s'' None = Inr [\<lparr>stored_offset = 0, stored = plain_event ''hi''\<rparr>]"
proof -
  obtain s' where s': "flush_sync (demo_env NoFault) (demo_store 1) = Some (s', Inr ())" using demo_flush [of NoFault] by auto
  have "is_root (demo_store 1) ''s''" "queued (demo_store 1) ''s'' = [plain_event ''hi'']"
    by (simp_all add: is_root_def fork_rows_def demo_store_def cbmr_new_def tree_open_def queued_def group_of_def)
  then show ?thesis
    using flush_appends_to_logs [of "demo_env NoFault" "{''s''}" "\<lambda>_. []" "demo_store 1" s'] s' demo_env_ok demo_store_ok plain_codec_ok plain_rmp_ok
    by (auto simp: demo_env_def demo_store_def cbmr_new_def log_of_def numbered_def)
qed







end
