(* ===== verification/Sched_Governor.thy ===== *)
theory Sched_Governor
  imports Prelude
begin

text \<open>
  The claim-rate guard of \<^verbatim>\<open>mas-sched/src/broker_guardrail.rs\<close>: per agent, a counter of the
  claims admitted in the current fixed window. The time is injected by the caller, as in the code.
  Counters are unbounded here: \<^verbatim>\<open>count\<close> only grows below \<^verbatim>\<open>max_claims_per_window\<close>, a \<^verbatim>\<open>u32\<close>, so the
  32-bit addition never wraps, and the window index is a quotient of a \<^verbatim>\<open>u64\<close>.
\<close>

type_synonym peer_id = string

record window =
  win_idx :: nat
  win_count :: nat

record claim_rate_governor =
  max_claims_per_window :: nat
  window_ms :: nat
  gov_state :: "peer_id \<rightharpoonup> window"

definition governor_new :: "nat \<Rightarrow> nat \<Rightarrow> claim_rate_governor" where
  "governor_new max_claims w =
     \<lparr>max_claims_per_window = max_claims, window_ms = max w 1, gov_state = Map.empty\<rparr>"

definition try_admit :: "claim_rate_governor \<Rightarrow> peer_id \<Rightarrow> nat \<Rightarrow> claim_rate_governor \<times> bool" where
  "try_admit g agent now_ms =
     (let idx = now_ms div window_ms g;
          e0 = (case gov_state g agent of None \<Rightarrow> \<lparr>win_idx = idx, win_count = 0\<rparr> | Some e \<Rightarrow> e);
          e = (if win_idx e0 \<noteq> idx then e0\<lparr>win_idx := idx, win_count := 0\<rparr> else e0)
      in if max_claims_per_window g \<le> win_count e
         then (g\<lparr>gov_state := (gov_state g)(agent \<mapsto> e)\<rparr>, False)
         else (g\<lparr>gov_state := (gov_state g)(agent \<mapsto> e\<lparr>win_count := win_count e + 1\<rparr>)\<rparr>, True))"

definition tracked_agents :: "claim_rate_governor \<Rightarrow> nat" where
  "tracked_agents g = card (dom (gov_state g))"

section \<open>One call\<close>

text \<open>The claims the guard has charged to an agent in a window.\<close>

definition charged :: "claim_rate_governor \<Rightarrow> peer_id \<Rightarrow> nat \<Rightarrow> nat" where
  "charged g a i = (case gov_state g a of None \<Rightarrow> 0 | Some e \<Rightarrow> if win_idx e = i then win_count e else 0)"

definition gov_inv :: "claim_rate_governor \<Rightarrow> bool" where
  "gov_inv g \<longleftrightarrow> 0 < window_ms g \<and> (\<forall>a i. charged g a i \<le> max_claims_per_window g)"

lemma gov_inv_new: "gov_inv (governor_new m w)"
  by (simp add: gov_inv_def governor_new_def charged_def)

lemma try_admit_frame [simp]:
  "max_claims_per_window (fst (try_admit g a t)) = max_claims_per_window g"
  "window_ms (fst (try_admit g a t)) = window_ms g"
  by (simp_all add: try_admit_def Let_def split: option.splits)

lemma try_admit_other [simp]:
  "b \<noteq> a \<Longrightarrow> gov_state (fst (try_admit g a t)) b = gov_state g b"
  by (simp add: try_admit_def Let_def split: option.splits)

lemma try_admit_verdict:
  "snd (try_admit g a t) \<longleftrightarrow> charged g a (t div window_ms g) < max_claims_per_window g"
  by (auto simp: try_admit_def charged_def Let_def split: option.splits)

lemma try_admit_window:
  "\<exists>e. gov_state (fst (try_admit g a t)) a = Some e \<and> win_idx e = t div window_ms g"
  by (auto simp: try_admit_def Let_def split: option.splits)

lemma charged_try_admit:
  "charged (fst (try_admit g a t)) b i =
     (if b = a
      then (if i = t div window_ms g
            then charged g a i + (if snd (try_admit g a t) then 1 else 0) else 0)
      else charged g b i)"
  by (auto simp: try_admit_def charged_def Let_def split: option.splits)

lemma gov_inv_try_admit [inv_intros]:
  assumes "gov_inv g"
  shows "gov_inv (fst (try_admit g a t))"
proof -
  have "charged (fst (try_admit g a t)) b i \<le> max_claims_per_window g" for b i
    using assms by (auto simp: charged_try_admit try_admit_verdict gov_inv_def)
  with assms show ?thesis by (simp add: gov_inv_def)
qed

section \<open>A history of calls\<close>

fun admit_run :: "claim_rate_governor \<Rightarrow> (peer_id \<times> nat) list \<Rightarrow> bool list" where
  "admit_run g [] = []"
| "admit_run g ((a, t) # cs) = snd (try_admit g a t) # admit_run (fst (try_admit g a t)) cs"

definition admitted :: "claim_rate_governor \<Rightarrow> (peer_id \<times> nat) list \<Rightarrow> peer_id \<Rightarrow> nat \<Rightarrow> nat" where
  "admitted g cs a i =
     length (filter (\<lambda>((b, t), ok). ok \<and> b = a \<and> t div window_ms g = i) (zip cs (admit_run g cs)))"

lemma admitted_Nil [simp]: "admitted g [] a i = 0"
  by (simp add: admitted_def)

lemma admitted_Cons:
  "admitted g ((b, t) # cs) a i =
     (if snd (try_admit g b t) \<and> b = a \<and> t div window_ms g = i then 1 else 0) +
     admitted (fst (try_admit g b t)) cs a i"
  by (simp add: admitted_def)

text \<open>Times that do not go back before the window an agent is in.\<close>

definition not_before :: "claim_rate_governor \<Rightarrow> peer_id \<Rightarrow> nat list \<Rightarrow> bool" where
  "not_before g a ts \<longleftrightarrow> (\<forall>e. gov_state g a = Some e \<longrightarrow> (\<forall>t\<in>set ts. win_idx e \<le> t div window_ms g))"

lemma not_before_step:
  assumes "not_before g a (t # ts)" "\<forall>u\<in>set ts. t \<le> u"
  shows "not_before (fst (try_admit g b t)) a ts"
proof (cases "b = a")
  case True
  obtain e where "gov_state (fst (try_admit g a t)) a = Some e" "win_idx e = t div window_ms g"
    using try_admit_window by blast
  with True assms(2) show ?thesis by (auto simp: not_before_def div_le_mono)
next
  case False
  with assms(1) show ?thesis by (auto simp: not_before_def)
qed

lemma admitted_charged_bound:
  assumes "gov_inv g" "sorted (map snd cs)" "not_before g a (map snd cs)"
  shows "admitted g cs a i + charged g a i \<le> max_claims_per_window g"
  using assms
proof (induction cs arbitrary: g)
  case Nil
  then show ?case by (simp add: gov_inv_def)
next
  case (Cons c cs)
  obtain b t where c: "c = (b, t)" by force
  let ?g = "fst (try_admit g b t)"
  have nb: "not_before g a (t # map snd cs)" using Cons.prems(3) c by simp
  have later: "\<forall>u\<in>set (map snd cs). t \<le> u" using Cons.prems(2) c by simp
  have "not_before ?g a (map snd cs)" by (rule not_before_step [OF nb later])
  then have IH: "admitted ?g cs a i + charged ?g a i \<le> max_claims_per_window g"
    using Cons.IH [of ?g] Cons.prems(1,2) by (simp add: gov_inv_try_admit c)
  show ?case
  proof (cases "b = a \<and> i \<noteq> t div window_ms g \<and> charged g a i \<noteq> 0")
    case True
    then obtain e where e: "gov_state g a = Some e" "win_idx e = i" "charged g a i \<le> max_claims_per_window g"
      using Cons.prems(1) by (auto simp: charged_def gov_inv_def split: option.splits if_splits)
    have lt: "i < t div window_ms g" using True nb e by (auto simp: not_before_def)
    have "admitted ?g cs a i = 0"
    proof -
      have "u div window_ms g \<noteq> i" if "u \<in> set (map snd cs)" for u
        using later that lt div_le_mono [of t u "window_ms g"] by auto
      then show ?thesis
        by (force simp: admitted_def filter_empty_conv dest!: set_zip_leftD)
    qed
    with True e c show ?thesis by (simp add: admitted_Cons)
  next
    case False
    with IH c show ?thesis by (auto simp: admitted_Cons charged_try_admit split: if_splits)
  qed
qed



end
