(* ===== verification/Sched.thy ===== *)
theory Sched
  imports Sched_Governor
begin

text \<open>
  The lease scheduler of \<^verbatim>\<open>mas-sched/src/scheduler.rs\<close> over the contract types of
  \<^verbatim>\<open>nexus-contracts/src/scheduler_contract.rs\<close>. The lock-protected tables are the fields of one record
  and every method returns the record it leaves behind; a method reads the clock once, as the
  argument \<open>now\<close> in milliseconds. The methods are modelled here as if each ran alone; theory
  \<open>Sched_Concurrent\<close> splits \<^verbatim>\<open>claim\<close> at its lock boundaries.
\<close>

section \<open>Contract types\<close>

type_synonym task_id = string

definition HANDOFF :: string where
  "HANDOFF = ''*handoff*''"

datatype priority = Low | Medium | High

record quota =
  max_concurrent :: nat
  max_duration_ms :: nat
  priority_weight :: f64_bits

definition quota_default :: quota where
  "quota_default = \<lparr>max_concurrent = 4, max_duration_ms = 300000, priority_weight = 0x3FF0000000000000\<rparr>"

record todo_claim =
  claim_task_id :: task_id
  claim_peer_id :: peer_id
  claim_priority :: priority
  est_duration_ms :: nat
  claim_quota :: quota

definition todo_claim_new :: "task_id \<Rightarrow> peer_id \<Rightarrow> priority \<Rightarrow> nat \<Rightarrow> todo_claim" where
  "todo_claim_new t p pr est =
     \<lparr>claim_task_id = t, claim_peer_id = p, claim_priority = pr, est_duration_ms = est,
      claim_quota = quota_default\<rparr>"

record lease =
  lease_task_id :: task_id
  lease_peer_id :: peer_id
  lease_until :: nat
  renewable :: bool
  lease_duration_ms :: nat

datatype deny_reason = QuotaExceeded | TaskClaimed | DurationExceedsQuota | ShadowReject | RateLimited

datatype claim_outcome = Granted lease | Denied deny_reason

datatype renew_outcome = Renewed | NotRenewable | Expired

datatype should_run_verdict = Run | Defer | AlreadyConverged | NoActionableWork

datatype sched_error =
    TaskNotFound task_id
  | AlreadyClaimed task_id
  | LeaseHolderMismatch task_id peer_id peer_id
  | ShadowLogError string

section \<open>The scheduler\<close>

record scheduler =
  leases :: "task_id \<rightharpoonup> lease"
  peer_concurrency :: "peer_id \<rightharpoonup> nat"
  rate_governor :: "claim_rate_governor option"
  claim_clock :: nat

definition scheduler_new :: "nat \<Rightarrow> scheduler" where
  "scheduler_new now =
     \<lparr>leases = Map.empty, peer_concurrency = Map.empty, rate_governor = None, claim_clock = now\<rparr>"

definition with_rate_limit :: "nat \<Rightarrow> nat \<Rightarrow> nat \<Rightarrow> scheduler" where
  "with_rate_limit max_claims w now =
     (scheduler_new now)\<lparr>rate_governor := Some (governor_new max_claims w)\<rparr>"

definition elapsed_ms :: "scheduler \<Rightarrow> nat \<Rightarrow> nat" where
  "elapsed_ms s now = min (now - claim_clock s) u64_max"

definition check_rate_limit :: "scheduler \<Rightarrow> peer_id \<Rightarrow> nat \<Rightarrow> scheduler \<times> (deny_reason, unit) result" where
  "check_rate_limit s p now =
     (case rate_governor s of
        None \<Rightarrow> (s, Inr ())
      | Some g \<Rightarrow>
          (let (g', ok) = try_admit g p (elapsed_ms s now);
               s' = s\<lparr>rate_governor := Some g'\<rparr>
           in if \<not> ok then (s', Inl RateLimited) else (s', Inr ())))"

definition active_of :: "scheduler \<Rightarrow> peer_id \<Rightarrow> nat" where
  "active_of s p = map_default 0 (peer_concurrency s) p"

definition check_quota :: "scheduler \<Rightarrow> todo_claim \<Rightarrow> (deny_reason, unit) result" where
  "check_quota s c =
     (if max_duration_ms (claim_quota c) < est_duration_ms c then Inl DurationExceedsQuota
      else if max_concurrent (claim_quota c) \<le> active_of s (claim_peer_id c) then Inl QuotaExceeded
      else Inr ())"

definition increment_peer :: "peer_id \<Rightarrow> scheduler \<Rightarrow> scheduler" where
  "increment_peer p s =
     s\<lparr>peer_concurrency := (peer_concurrency s)(p \<mapsto> active_of s p + 1)\<rparr>"

definition decrement_peer :: "peer_id \<Rightarrow> scheduler \<Rightarrow> scheduler" where
  "decrement_peer p s =
     (case peer_concurrency s p of
        Some n \<Rightarrow> if 1 < n then s\<lparr>peer_concurrency := (peer_concurrency s)(p \<mapsto> n - 1)\<rparr>
                  else s\<lparr>peer_concurrency := (peer_concurrency s)(p := None)\<rparr>
      | None \<Rightarrow> s)"

definition lease_for :: "todo_claim \<Rightarrow> nat \<Rightarrow> lease" where
  "lease_for c now =
     \<lparr>lease_task_id = claim_task_id c, lease_peer_id = claim_peer_id c,
      lease_until = now + max_duration_ms (claim_quota c), renewable = True,
      lease_duration_ms = max_duration_ms (claim_quota c)\<rparr>"

definition insert_lease :: "lease \<Rightarrow> scheduler \<Rightarrow> scheduler" where
  "insert_lease l s = s\<lparr>leases := (leases s)(lease_task_id l \<mapsto> l)\<rparr>"

definition grant_locked :: "scheduler \<Rightarrow> todo_claim \<Rightarrow> nat \<Rightarrow> scheduler \<times> lease" where
  "grant_locked s c now =
     (let l = lease_for c now
      in (increment_peer (claim_peer_id c) (insert_lease l s), l))"

definition claim :: "scheduler \<Rightarrow> todo_claim \<Rightarrow> nat \<Rightarrow> scheduler \<times> claim_outcome" where
  "claim s c now =
     (case check_rate_limit s (claim_peer_id c) now of
        (s1, Inl reason) \<Rightarrow> (s1, Denied reason)
      | (s1, Inr _) \<Rightarrow>
          (case check_quota s1 c of
             Inl reason \<Rightarrow> (s1, Denied reason)
           | Inr _ \<Rightarrow>
               if leases s1 (claim_task_id c) \<noteq> None then (s1, Denied TaskClaimed)
               else (let (s2, l) = grant_locked s1 c now in (s2, Granted l))))"

definition renew_lease ::
  "scheduler \<Rightarrow> task_id \<Rightarrow> peer_id \<Rightarrow> nat \<Rightarrow> scheduler \<times> (sched_error, renew_outcome) result" where
  "renew_lease s t p now =
     (case leases s t of
        None \<Rightarrow> (s, Inl (TaskNotFound t))
      | Some l \<Rightarrow>
          if lease_peer_id l \<noteq> p then (s, Inl (LeaseHolderMismatch t (lease_peer_id l) p))
          else if \<not> renewable l then (s, Inr NotRenewable)
          else if lease_until l \<le> now then (s, Inr Expired)
          else (s\<lparr>leases := (leases s)(t \<mapsto> l\<lparr>lease_until := lease_until l + lease_duration_ms l\<rparr>)\<rparr>,
                Inr Renewed))"

definition handoff :: "scheduler \<Rightarrow> task_id \<Rightarrow> peer_id \<Rightarrow> scheduler \<times> (sched_error, unit) result" where
  "handoff s t to_peer =
     (case leases s t of
        None \<Rightarrow> (s, Inl (TaskNotFound t))
      | Some l \<Rightarrow>
          (let old_peer = lease_peer_id l
           in if to_peer = HANDOFF
              then (decrement_peer old_peer (s\<lparr>leases := (leases s)(t := None)\<rparr>), Inr ())
              else (increment_peer to_peer
                      (decrement_peer old_peer
                        (s\<lparr>leases := (leases s)(t \<mapsto> l\<lparr>lease_peer_id := to_peer\<rparr>)\<rparr>)), Inr ())))"

definition should_run :: "scheduler \<Rightarrow> task_id \<Rightarrow> nat \<Rightarrow> should_run_verdict" where
  "should_run s t now =
     (case leases s t of
        None \<Rightarrow> NoActionableWork
      | Some l \<Rightarrow> if now < lease_until l then Run else Defer)"

definition lease_count :: "scheduler \<Rightarrow> nat" where
  "lease_count s = card (dom (leases s))"

fun priority_rank :: "priority \<Rightarrow> nat" where
  "priority_rank Low = 0"
| "priority_rank Medium = 1"
| "priority_rank High = 2"

section \<open>The contract of a peer scheduler\<close>

text \<open>
  What a client of the \<^verbatim>\<open>PeerScheduler\<close> trait may rely on, in terms of who holds a task. The two
  providers of the trait that a client is handed are the scheduler above and its shadow.
\<close>

datatype sched_op =
    OpClaim todo_claim nat
  | OpRenew task_id peer_id nat
  | OpHandoff task_id peer_id

datatype sched_reply =
    ReClaim claim_outcome
  | ReRenew "(sched_error, renew_outcome) result"
  | ReHandoff "(sched_error, unit) result"

fun op_step ::
  "('s \<Rightarrow> todo_claim \<Rightarrow> nat \<Rightarrow> 's \<times> claim_outcome) \<Rightarrow>
   ('s \<Rightarrow> task_id \<Rightarrow> peer_id \<Rightarrow> nat \<Rightarrow> 's \<times> (sched_error, renew_outcome) result) \<Rightarrow>
   ('s \<Rightarrow> task_id \<Rightarrow> peer_id \<Rightarrow> 's \<times> (sched_error, unit) result) \<Rightarrow>
   's \<Rightarrow> sched_op \<Rightarrow> 's \<times> sched_reply" where
  "op_step cf rf hf s (OpClaim c now) = (let (s', r) = cf s c now in (s', ReClaim r))"
| "op_step cf rf hf s (OpRenew t p now) = (let (s', r) = rf s t p now in (s', ReRenew r))"
| "op_step cf rf hf s (OpHandoff t p) = (let (s', r) = hf s t p in (s', ReHandoff r))"

abbreviation sched_op_step :: "scheduler \<Rightarrow> sched_op \<Rightarrow> scheduler \<times> sched_reply" where
  "sched_op_step \<equiv> op_step claim renew_lease handoff"

fun run_ops :: "('s \<Rightarrow> sched_op \<Rightarrow> 's \<times> sched_reply) \<Rightarrow> 's \<Rightarrow> sched_op list \<Rightarrow> 's \<times> sched_reply list" where
  "run_ops f s [] = (s, [])"
| "run_ops f s (x # xs) = (let (s1, r) = f s x; (s2, rs) = run_ops f s1 xs in (s2, r # rs))"

locale peer_scheduler =
  fixes claim_f :: "'s \<Rightarrow> todo_claim \<Rightarrow> nat \<Rightarrow> 's \<times> claim_outcome"
    and renew_f :: "'s \<Rightarrow> task_id \<Rightarrow> peer_id \<Rightarrow> nat \<Rightarrow> 's \<times> (sched_error, renew_outcome) result"
    and handoff_f :: "'s \<Rightarrow> task_id \<Rightarrow> peer_id \<Rightarrow> 's \<times> (sched_error, unit) result"
    and holder :: "'s \<Rightarrow> task_id \<rightharpoonup> peer_id"
  assumes claim_granted:
      "claim_f s c now = (s', Granted l) \<Longrightarrow>
         holder s (claim_task_id c) = None \<and>
         holder s' = (holder s)(claim_task_id c \<mapsto> claim_peer_id c) \<and>
         lease_task_id l = claim_task_id c \<and> lease_peer_id l = claim_peer_id c"
    and claim_denied: "claim_f s c now = (s', Denied r) \<Longrightarrow> holder s' = holder s"
    and renew_holder: "renew_f s t p now = (s', ro) \<Longrightarrow> holder s' = holder s"
    and renew_only_holder: "renew_f s t p now = (s', Inr Renewed) \<Longrightarrow> holder s t = Some p"
    and handoff_missing: "holder s t = None \<Longrightarrow> handoff_f s t p = (s, Inl (TaskNotFound t))"
    and handoff_moves:
      "holder s t = Some q \<Longrightarrow> handoff_f s t p = (s', ho) \<Longrightarrow>
         ho = Inr () \<and> holder s' = (if p = HANDOFF then (holder s)(t := None) else (holder s)(t \<mapsto> p))"
begin

abbreviation trait_step :: "'s \<Rightarrow> sched_op \<Rightarrow> 's \<times> sched_reply" where
  "trait_step \<equiv> op_step claim_f renew_f handoff_f"

lemma claim_held_denied:
  assumes "holder s (claim_task_id c) \<noteq> None"
  shows "\<exists>r. snd (claim_f s c now) = Denied r"
  using assms claim_granted [of s c now] by (cases "claim_f s c now"; cases "snd (claim_f s c now)") auto

lemma held_step:
  assumes "holder s t \<noteq> None" "opn \<noteq> OpHandoff t HANDOFF"
  shows "holder (fst (trait_step s opn)) t \<noteq> None"
proof (cases opn)
  case (OpClaim c now)
  with assms show ?thesis
    by (cases "claim_f s c now"; cases "snd (claim_f s c now)")
       (auto simp: claim_denied dest!: claim_granted)
next
  case (OpRenew u p now)
  with assms show ?thesis by (cases "renew_f s u p now") (auto simp: renew_holder)
next
  case (OpHandoff u p)
  show ?thesis
  proof (cases "holder s u")
    case None
    with OpHandoff assms show ?thesis by (simp add: handoff_missing)
  next
    case (Some q)
    obtain s' r where eq: "handoff_f s u p = (s', r)" by force
    from handoff_moves [OF Some eq] OpHandoff assms eq show ?thesis by auto
  qed
qed

lemma no_second_grant:
  assumes "holder s t \<noteq> None" "OpHandoff t HANDOFF \<notin> set ops"
    "(OpClaim c now, ReClaim r) \<in> set (zip ops (snd (run_ops trait_step s ops)))" "claim_task_id c = t"
  shows "\<exists>d. r = Denied d"
  using assms
proof (induction ops arbitrary: s)
  case (Cons x xs)
  obtain s1 q where x: "trait_step s x = (s1, q)" by force
  have "holder s1 t \<noteq> None"
    using held_step [of s t x] Cons.prems(1,2) x by auto
  then have IH: "(OpClaim c now, ReClaim r) \<in> set (zip xs (snd (run_ops trait_step s1 xs))) \<Longrightarrow> \<exists>d. r = Denied d"
    using Cons.IH Cons.prems(2,4) by auto
  have now: "\<exists>d. r = Denied d" if "x = OpClaim c now" "q = ReClaim r"
    using that x claim_held_denied [of s c now] Cons.prems(1,4) by (auto simp: Let_def split: prod.splits)
  show ?case using Cons.prems(3) IH now x by (auto simp: Let_def split: prod.splits)
qed simp

end

section \<open>The scheduler meets the contract\<close>

definition holder_of :: "scheduler \<Rightarrow> task_id \<rightharpoonup> peer_id" where
  "holder_of s t = map_option lease_peer_id (leases s t)"

lemma increment_peer_leases [simp]: "leases (increment_peer p s) = leases s"
  by (simp add: increment_peer_def)

lemma decrement_peer_leases [simp]: "leases (decrement_peer p s) = leases s"
  by (simp add: decrement_peer_def split: option.splits)

lemma check_rate_limit_frame:
  assumes "check_rate_limit s p now = (s1, r)"
  shows "leases s1 = leases s" "peer_concurrency s1 = peer_concurrency s" "active_of s1 = active_of s"
    "claim_clock s1 = claim_clock s"
  using assms
  by (auto simp: check_rate_limit_def active_of_def fun_eq_iff Let_def split: option.splits prod.splits if_splits)

lemma check_quota_frame: "active_of s1 = active_of s \<Longrightarrow> check_quota s1 c = check_quota s c"
  by (simp add: check_quota_def)

lemma claim_grantedE:
  assumes "claim s c now = (s', Granted l)"
  obtains s1 where "check_rate_limit s (claim_peer_id c) now = (s1, Inr ())"
    "check_quota s c = Inr ()" "leases s (claim_task_id c) = None"
    "l = lease_for c now" "s' = increment_peer (claim_peer_id c) (insert_lease l s1)"
proof -
  obtain s1 r1 where r1: "check_rate_limit s (claim_peer_id c) now = (s1, r1)" by force
  from assms r1 that show thesis
    by (auto simp: claim_def grant_locked_def Let_def check_rate_limit_frame [OF r1]
        check_quota_frame [OF check_rate_limit_frame(3) [OF r1]] split: sum.splits if_splits)
qed

lemma claim_deniedE:
  assumes "claim s c now = (s', Denied reason)"
  obtains r where "check_rate_limit s (claim_peer_id c) now = (s', r)"
proof -
  obtain s1 r1 where r1: "check_rate_limit s (claim_peer_id c) now = (s1, r1)" by force
  from assms r1 that show thesis
    by (auto simp: claim_def grant_locked_def Let_def split: sum.splits if_splits)
qed

interpretation lease_sched: peer_scheduler claim renew_lease handoff holder_of
proof (unfold_locales, goal_cases)
  case (1 s c now s' l)
  from 1 show ?case
  proof (rule claim_grantedE)
    fix s1
    assume a: "check_rate_limit s (claim_peer_id c) now = (s1, Inr ())"
      "leases s (claim_task_id c) = None" "l = lease_for c now"
      "s' = increment_peer (claim_peer_id c) (insert_lease l s1)"
    then show ?case
      by (auto simp: holder_of_def insert_lease_def lease_for_def fun_eq_iff check_rate_limit_frame [OF a(1)])
  qed
next
  case (2 s c now s' r)
  then obtain q where "check_rate_limit s (claim_peer_id c) now = (s', q)" by (rule claim_deniedE)
  from check_rate_limit_frame(1) [OF this] show ?case by (simp add: holder_of_def fun_eq_iff)
next
  case (3 s t p now s' r)
  then show ?case
    by (auto simp: renew_lease_def holder_of_def fun_eq_iff split: option.splits if_splits)
next
  case (4 s t p now s')
  then show ?case
    by (auto simp: renew_lease_def holder_of_def split: option.splits if_splits)
next
  case (5 s t p)
  then show ?case by (simp add: handoff_def holder_of_def)
next
  case (6 s t q p s' r)
  then show ?case
    by (auto simp: handoff_def holder_of_def fun_eq_iff Let_def split: if_splits)
qed

section \<open>Concurrency counters agree with the lease table\<close>

definition held :: "scheduler \<Rightarrow> peer_id \<Rightarrow> task_id set" where
  "held s p = {t. holder_of s t = Some p}"

definition sched_inv :: "scheduler \<Rightarrow> bool" where
  "sched_inv s \<longleftrightarrow>
     finite (dom (leases s)) \<and>
     (\<forall>t l. leases s t = Some l \<longrightarrow> lease_task_id l = t) \<and>
     (\<forall>p. active_of s p = card (held s p)) \<and>
     (\<forall>p. peer_concurrency s p \<noteq> Some 0)"

lemma held_finite: "finite (dom (leases s)) \<Longrightarrow> finite (held s p)"
  by (rule finite_subset [of _ "dom (leases s)"]) (auto simp: held_def holder_of_def)

lemma active_increment: "active_of (increment_peer p s) q = (if q = p then active_of s p + 1 else active_of s q)"
  by (simp add: increment_peer_def active_of_def)

lemma active_decrement: "active_of (decrement_peer p s) q = (if q = p then active_of s p - 1 else active_of s q)"
  by (auto simp: decrement_peer_def active_of_def map_default_def split: option.splits)

lemma nonzero_increment:
  "(\<forall>q. peer_concurrency s q \<noteq> Some 0) \<Longrightarrow> peer_concurrency (increment_peer p s) q \<noteq> Some 0"
  by (simp add: increment_peer_def)

lemma nonzero_decrement:
  "(\<forall>q. peer_concurrency s q \<noteq> Some 0) \<Longrightarrow> peer_concurrency (decrement_peer p s) q \<noteq> Some 0"
  by (auto simp: decrement_peer_def split: option.splits)

lemmas counter_simps = active_increment active_decrement nonzero_increment nonzero_decrement

lemma held_same: "leases s' = leases s \<Longrightarrow> held s' = held s"
  by (simp add: held_def holder_of_def fun_eq_iff)

lemma active_same: "peer_concurrency s' = peer_concurrency s \<Longrightarrow> active_of s' = active_of s"
  by (rule ext) (simp add: active_of_def)

lemma active_leases_upd [simp]: "active_of (leases_update f s) = active_of s"
  by (rule active_same) simp

lemma sched_inv_frame:
  "leases s' = leases s \<Longrightarrow> peer_concurrency s' = peer_concurrency s \<Longrightarrow> sched_inv s' = sched_inv s"
  using held_same [of s' s] active_same [of s' s] by (simp add: sched_inv_def)

lemma sched_inv_new: "sched_inv (scheduler_new now)" "sched_inv (with_rate_limit m w now)"
  by (simp_all add: sched_inv_def scheduler_new_def with_rate_limit_def held_def holder_of_def active_of_def map_default_def)

lemma sched_inv_claim [inv_intros]:
  assumes inv: "sched_inv s" and step: "claim s c now = (s', r)"
  shows "sched_inv s'"
proof (cases r)
  case (Denied d)
  with step have "claim s c now = (s', Denied d)" by simp
  then obtain q where "check_rate_limit s (claim_peer_id c) now = (s', q)" by (rule claim_deniedE)
  from sched_inv_frame [OF check_rate_limit_frame(1,2) [OF this]] inv show ?thesis by simp
next
  case (Granted l)
  with step have "claim s c now = (s', Granted l)" by simp
  then obtain s1 where a: "check_rate_limit s (claim_peer_id c) now = (s1, Inr ())"
    and free: "leases s (claim_task_id c) = None" and l: "l = lease_for c now"
    and s': "s' = increment_peer (claim_peer_id c) (insert_lease l s1)"
    by (rule claim_grantedE)
  note fr = check_rate_limit_frame [OF a]
  have lf: "lease_task_id l = claim_task_id c" "lease_peer_id l = claim_peer_id c"
    by (simp_all add: l lease_for_def)
  have held': "held s' p = (if p = claim_peer_id c then insert (claim_task_id c) (held s p) else held s p)" for p
    using free lf by (auto simp: held_def holder_of_def s' insert_lease_def fr)
  have "claim_task_id c \<notin> held s p" for p using free by (simp add: held_def holder_of_def)
  moreover have "finite (held s p)" for p using inv by (simp add: sched_inv_def held_finite)
  moreover have "active_of s' p = (if p = claim_peer_id c then active_of s p + 1 else active_of s p)" for p
    by (simp add: s' active_increment insert_lease_def fr)
  moreover have "active_of s p = card (held s p)" for p using inv by (simp add: sched_inv_def)
  ultimately have "active_of s' p = card (held s' p)" for p
    by (simp add: held')
  moreover have "finite (dom (leases s'))" "\<forall>t l. leases s' t = Some l \<longrightarrow> lease_task_id l = t"
    using inv lf by (auto simp: sched_inv_def s' insert_lease_def fr)
  moreover have "\<forall>p. peer_concurrency s' p \<noteq> Some 0"
    using inv by (auto simp: sched_inv_def s' insert_lease_def fr intro!: nonzero_increment [rule_format])
  ultimately show ?thesis by (simp add: sched_inv_def)
qed

lemma sched_inv_renew [inv_intros]:
  assumes "sched_inv s" "renew_lease s t p now = (s', r)"
  shows "sched_inv s'"
proof -
  have "held s' = held s"
    using lease_sched.renew_holder [OF assms(2)] by (simp add: held_def fun_eq_iff)
  with assms show ?thesis
    by (auto simp: sched_inv_def renew_lease_def active_of_def split: option.splits if_splits)
qed

lemma sched_inv_handoff [inv_intros]:
  assumes inv: "sched_inv s" and step: "handoff s t q = (s', r)"
  shows "sched_inv s'"
proof (cases "leases s t")
  case None
  with inv step show ?thesis by (simp add: handoff_def)
next
  case (Some l)
  let ?p = "lease_peer_id l"
  have tp: "t \<in> held s ?p" using Some by (simp add: held_def holder_of_def)
  have fin: "finite (held s p)" for p using inv by (simp add: sched_inv_def held_finite)
  have hold: "holder_of s' = (if q = HANDOFF then (holder_of s)(t := None) else (holder_of s)(t \<mapsto> q))"
    using lease_sched.handoff_moves [OF _ step] Some by (simp add: holder_of_def)
  have other: "x = ?p" if "t \<in> held s x" for x
    using that Some by (simp add: held_def holder_of_def)
  have held': "held s' x = (if q \<noteq> HANDOFF \<and> x = q then insert t (held s x - {t}) else held s x - {t})" for x
    by (auto simp: held_def hold)
  have card': "card (held s x - {t}) = (if x = ?p then card (held s x) - 1 else card (held s x))" for x
  proof (cases "x = ?p")
    case True
    with tp show ?thesis by simp
  next
    case False
    with other have "t \<notin> held s x" by blast
    with False show ?thesis by simp
  qed
  have active': "active_of s' x =
      (if x = ?p then active_of s x - 1 else active_of s x) + (if q \<noteq> HANDOFF \<and> x = q then 1 else 0)" for x
    using step Some by (auto simp: handoff_def Let_def active_increment active_decrement split: if_splits)
  have "active_of s x = card (held s x)" for x using inv by (simp add: sched_inv_def)
  with active' held' card' fin have "active_of s' x = card (held s' x)" for x
    by (simp add: card.insert_remove)
  moreover have "finite (dom (leases s'))" "\<forall>u m. leases s' u = Some m \<longrightarrow> lease_task_id m = u"
    using inv step Some by (auto simp: sched_inv_def handoff_def Let_def split: if_splits)
  moreover have "\<forall>p. peer_concurrency s' p \<noteq> Some 0"
    using inv step Some
    by (auto simp: sched_inv_def handoff_def Let_def intro!: nonzero_increment [rule_format] nonzero_decrement [rule_format]
        split: if_splits)
  ultimately show ?thesis by (simp add: sched_inv_def)
qed

section \<open>Histories\<close>

definition init_sched :: "scheduler \<Rightarrow> bool" where
  "init_sched s \<longleftrightarrow> (\<exists>now. s = scheduler_new now \<or> (\<exists>m w. s = with_rate_limit m w now))"

inductive sched_step :: "scheduler \<Rightarrow> scheduler \<Rightarrow> bool" where
  step_op: "sched_op_step s x = (s', r) \<Longrightarrow> sched_step s s'"

inductive_cases sched_stepE [elim!]: "sched_step s s'"

lemma sched_inv_op: "sched_inv s \<Longrightarrow> sched_op_step s x = (s', r) \<Longrightarrow> sched_inv s'"
  by (cases x) (auto simp: Let_def split: prod.splits intro: inv_intros)

interpretation lease_system: invariant_system init_sched sched_step sched_inv
  by unfold_locales (auto simp: init_sched_def sched_inv_new intro: sched_inv_op)

lemma run_ops_steps: "sched_step\<^sup>*\<^sup>* s (fst (run_ops sched_op_step s xs))"
proof (induction xs arbitrary: s)
  case (Cons x xs)
  obtain s1 r where x: "sched_op_step s x = (s1, r)" by force
  then have "sched_step s s1" by (rule step_op)
  moreover obtain s2 rs where "run_ops sched_op_step s1 xs = (s2, rs)" by force
  ultimately show ?case
    using Cons.IH [of s1] x by (simp add: converse_rtranclp_into_rtranclp)
qed simp

text \<open>
  C29: after any sequence of claims, renewals and handoffs on a fresh scheduler, rate-limited or
  not, the concurrency counter of every peer is the number of tasks the lease table assigns to it,
  and every lease is filed under its own task.
\<close>

theorem counters_match_leases:
  assumes "init_sched s0"
  shows "let s = fst (run_ops sched_op_step s0 ops)
         in (\<forall>p. active_of s p = card (held s p)) \<and> (\<forall>t l. leases s t = Some l \<longrightarrow> lease_task_id l = t)"
  using lease_system.inv_reachable [OF assms run_ops_steps [of s0 ops]] by (simp add: sched_inv_def Let_def)

lemmas sched_eval = claim_def renew_lease_def handoff_def should_run_def check_rate_limit_def check_quota_def
  grant_locked_def lease_for_def insert_lease_def scheduler_new_def todo_claim_new_def quota_default_def
  HANDOFF_def increment_peer_def decrement_peer_def active_of_def map_default_def holder_of_def Let_def

theorem counters_match_leases_witness:
  "let s = fst (run_ops sched_op_step (scheduler_new 0)
       [OpClaim (todo_claim_new ''t1'' ''a'' Medium 10) 5, OpClaim (todo_claim_new ''t2'' ''a'' High 10) 6,
        OpHandoff ''t1'' ''b'', OpRenew ''t2'' ''a'' 7])
   in (\<forall>p. active_of s p = card (held s p)) \<and> active_of s ''a'' = 1 \<and> active_of s ''b'' = 1"
proof -
  let ?s = "fst (run_ops sched_op_step (scheduler_new 0)
       [OpClaim (todo_claim_new ''t1'' ''a'' Medium 10) 5, OpClaim (todo_claim_new ''t2'' ''a'' High 10) 6,
        OpHandoff ''t1'' ''b'', OpRenew ''t2'' ''a'' 7])"
  have "init_sched (scheduler_new 0)" by (auto simp: init_sched_def)
  from counters_match_leases [OF this] have "\<forall>p. active_of ?s p = card (held ?s p)"
    unfolding Let_def by blast
  moreover have "active_of ?s ''a'' = 1" "active_of ?s ''b'' = 1" by (simp_all add: sched_eval)
  ultimately show ?thesis unfolding Let_def by blast
qed

text \<open>
  In a history that runs one call at a time, a task that has a holder is not granted again
  before it is handed back to the orchestrator: every later claim of it is denied, whatever the
  renewals and transfers in between.
\<close>

theorem claim_is_exclusive:
  assumes "holder_of s t \<noteq> None" "OpHandoff t HANDOFF \<notin> set ops"
    "(OpClaim c now, ReClaim r) \<in> set (zip ops (snd (run_ops sched_op_step s ops)))" "claim_task_id c = t"
  shows "\<exists>d. r = Denied d"
  using assms by (rule lease_sched.no_second_grant)

theorem claim_is_exclusive_witness:
  "let s = fst (claim (scheduler_new 0) (todo_claim_new ''t1'' ''a'' Medium 10) 5);
       ops = [OpHandoff ''t1'' ''b'', OpClaim (todo_claim_new ''t1'' ''c'' Medium 10) 400000]
   in \<exists>d. snd (run_ops sched_op_step s ops) = [ReHandoff (Inr ()), ReClaim (Denied d)]"
proof -
  define s where "s = fst (claim (scheduler_new 0) (todo_claim_new ''t1'' ''a'' Medium 10) 5)"
  define c where "c = todo_claim_new ''t1'' ''c'' Medium 10"
  let ?ops = "[OpHandoff ''t1'' ''b'', OpClaim c 400000]"
  have h: "holder_of s ''t1'' \<noteq> None" by (simp add: s_def sched_eval)
  obtain r where r: "snd (run_ops sched_op_step s ?ops) = [ReHandoff (Inr ()), ReClaim r]"
    by (simp add: s_def c_def sched_eval)
  have "\<exists>d. r = Denied d"
  proof (rule claim_is_exclusive [OF h, of ?ops c 400000])
    show "(OpClaim c 400000, ReClaim r) \<in> set (zip ?ops (snd (run_ops sched_op_step s ?ops)))"
      unfolding r by simp
  qed (simp_all add: HANDOFF_def c_def todo_claim_new_def)
  with r show ?thesis by (auto simp: s_def c_def)
qed

text \<open>
  The decision table of \<^verbatim>\<open>claim\<close>. A claim is granted exactly when the rate guard admits the
  peer, the estimate fits the declared duration, the peer is below its declared concurrency and
  the task has no lease; otherwise the first failing check names the reason. A grant files a lease
  that runs for the full declared duration and leaves the peer within its concurrency quota.
\<close>

theorem claim_decides:
  "snd (claim s c now) =
     (if \<not> is_Ok (snd (check_rate_limit s (claim_peer_id c) now)) then Denied RateLimited
      else if max_duration_ms (claim_quota c) < est_duration_ms c then Denied DurationExceedsQuota
      else if max_concurrent (claim_quota c) \<le> active_of s (claim_peer_id c) then Denied QuotaExceeded
      else if holder_of s (claim_task_id c) \<noteq> None then Denied TaskClaimed
      else Granted (lease_for c now))
   \<and> (\<forall>s' l. claim s c now = (s', Granted l) \<longrightarrow>
        leases s' (claim_task_id c) = Some l \<and> lease_until l = now + max_duration_ms (claim_quota c) \<and>
        active_of s' (claim_peer_id c) \<le> max_concurrent (claim_quota c))"
proof (intro conjI allI impI)
  obtain s1 r1 where r1: "check_rate_limit s (claim_peer_id c) now = (s1, r1)" by force
  have "r1 = Inl RateLimited \<or> r1 = Inr ()"
    using r1 by (auto simp: check_rate_limit_def Let_def split: option.splits prod.splits if_splits)
  then show "snd (claim s c now) =
     (if \<not> is_Ok (snd (check_rate_limit s (claim_peer_id c) now)) then Denied RateLimited
      else if max_duration_ms (claim_quota c) < est_duration_ms c then Denied DurationExceedsQuota
      else if max_concurrent (claim_quota c) \<le> active_of s (claim_peer_id c) then Denied QuotaExceeded
      else if holder_of s (claim_task_id c) \<noteq> None then Denied TaskClaimed
      else Granted (lease_for c now))"
    by (auto simp: claim_def r1 check_quota_def grant_locked_def holder_of_def Let_def
        check_rate_limit_frame [OF r1])
next
  fix s' l
  assume "claim s c now = (s', Granted l)"
  then obtain s1 where a: "check_rate_limit s (claim_peer_id c) now = (s1, Inr ())"
    and q: "check_quota s c = Inr ()" and l: "l = lease_for c now"
    and s': "s' = increment_peer (claim_peer_id c) (insert_lease l s1)"
    by (rule claim_grantedE)
  show "leases s' (claim_task_id c) = Some l" "lease_until l = now + max_duration_ms (claim_quota c)"
    by (simp_all add: s' insert_lease_def l lease_for_def)
  show "active_of s' (claim_peer_id c) \<le> max_concurrent (claim_quota c)"
    using q by (simp add: s' active_increment insert_lease_def check_rate_limit_frame [OF a] check_quota_def
        split: if_splits)
qed

theorem claim_decides_witness:
  "snd (claim (scheduler_new 0) (todo_claim_new ''t1'' ''a'' Medium 300001) 5) = Denied DurationExceedsQuota \<and>
   snd (claim (scheduler_new 0) (todo_claim_new ''t1'' ''a'' Medium 10) 5)
     = Granted (lease_for (todo_claim_new ''t1'' ''a'' Medium 10) 5)"
  by (simp add: claim_decides [THEN conjunct1]) (simp add: sched_eval)

text \<open>
  An expired lease is never reclaimed. Once a lease has run out its holder is told to claim
  the task again (\<^verbatim>\<open>Expired\<close>, \<^verbatim>\<open>Defer\<close>), but the lease stays in the table, so a claim by any peer,
  the old holder included, is denied at every later time until someone hands the task back.
\<close>

theorem expired_lease_blocks_reclaim:
  assumes "leases s t = Some l" "lease_until l \<le> now" "renewable l" "claim_task_id c = t"
  shows "renew_lease s t (lease_peer_id l) now = (s, Inr Expired) \<and> should_run s t now = Defer \<and>
         (\<forall>later. \<exists>d. snd (claim s c later) = Denied d)"
  using assms lease_sched.claim_held_denied [of s c] by (simp add: renew_lease_def should_run_def holder_of_def)

theorem expired_lease_blocks_reclaim_witness:
  "let c = todo_claim_new ''t1'' ''a'' Medium 10; s = fst (claim (scheduler_new 0) c 5)
   in renew_lease s ''t1'' ''a'' 300005 = (s, Inr Expired) \<and> snd (claim s c 300006) = Denied TaskClaimed"
proof -
  define c where "c = todo_claim_new ''t1'' ''a'' Medium 10"
  define s where "s = fst (claim (scheduler_new 0) c 5)"
  have l: "leases s ''t1'' = Some (lease_for c 5)" by (simp add: s_def c_def sched_eval)
  have "renew_lease s ''t1'' (lease_peer_id (lease_for c 5)) 300005 = (s, Inr Expired)"
    using expired_lease_blocks_reclaim [OF l, of 300005 c] by (simp add: c_def sched_eval)
  moreover have "snd (claim s c 300006) = Denied TaskClaimed" by (simp add: s_def c_def sched_eval)
  ultimately show ?thesis by (simp add: s_def c_def lease_for_def todo_claim_new_def)
qed

end
