(* ===== verification/Sched_Concurrent.thy ===== *)
theory Sched_Concurrent
  imports Sched
begin

text \<open>
  \<^verbatim>\<open>claim\<close> of \<^verbatim>\<open>mas-sched/src/scheduler.rs\<close> when several threads share the scheduler. The method takes and
  releases five locks one after the other: the rate governor, the concurrency table (read), the
  lease table (exclusivity check), the lease table again (insertion) and the concurrency table
  again (increment). Each critical section is one atomic step of a thread, and the threads of a
  pool interleave freely. Run without interference the steps are exactly \<open>claim\<close>; claims of
  pairwise different tasks are safe under every interleaving; two claims of the same task are not.
\<close>

section \<open>Threads\<close>

datatype claim_pc =
    AtRate
  | AtQuota
  | AtExclusive
  | AtInsert
  | AtCount lease
  | Finished claim_outcome

type_synonym claim_thread = "todo_claim \<times> claim_pc"
type_synonym pool = "scheduler \<times> claim_thread list"

fun thread_step :: "scheduler \<Rightarrow> todo_claim \<Rightarrow> claim_pc \<Rightarrow> nat \<Rightarrow> scheduler \<times> claim_pc" where
  "thread_step s c AtRate now =
     (case check_rate_limit s (claim_peer_id c) now of
        (s1, Inl reason) \<Rightarrow> (s1, Finished (Denied reason))
      | (s1, Inr _) \<Rightarrow> (s1, AtQuota))"
| "thread_step s c AtQuota now =
     (case check_quota s c of
        Inl reason \<Rightarrow> (s, Finished (Denied reason))
      | Inr _ \<Rightarrow> (s, AtExclusive))"
| "thread_step s c AtExclusive now =
     (if leases s (claim_task_id c) \<noteq> None then (s, Finished (Denied TaskClaimed)) else (s, AtInsert))"
| "thread_step s c AtInsert now =
     (let l = lease_for c now in (insert_lease l s, AtCount l))"
| "thread_step s c (AtCount l) now = (increment_peer (claim_peer_id c) s, Finished (Granted l))"
| "thread_step s c (Finished r) now = (s, Finished r)"

inductive pool_step :: "pool \<Rightarrow> pool \<Rightarrow> bool" where
  step_thread: "i < length ts \<Longrightarrow> ts ! i = (c, pc) \<Longrightarrow> thread_step s c pc now = (s', pc') \<Longrightarrow>
    pool_step (s, ts) (s', ts[i := (c, pc')])"

inductive_cases pool_stepE: "pool_step (s, ts) u"

definition start_pool :: "scheduler \<Rightarrow> todo_claim list \<Rightarrow> pool" where
  "start_pool s cs = (s, map (\<lambda>c. (c, AtRate)) cs)"

fun run_thread :: "nat \<Rightarrow> scheduler \<Rightarrow> todo_claim \<Rightarrow> claim_pc \<Rightarrow> nat \<Rightarrow> scheduler \<times> claim_pc" where
  "run_thread 0 s c pc now = (s, pc)"
| "run_thread (Suc n) s c pc now = (let (s', pc') = thread_step s c pc now in run_thread n s' c pc' now)"

text \<open>A schedule names the thread that moves and the time it reads.\<close>

fun run_pool :: "pool \<Rightarrow> (nat \<times> nat) list \<Rightarrow> pool" where
  "run_pool (s, ts) [] = (s, ts)"
| "run_pool (s, ts) ((i, now) # sch) =
     (if i < length ts
      then (let (c, pc) = ts ! i; (s', pc') = thread_step s c pc now in run_pool (s', ts[i := (c, pc')]) sch)
      else run_pool (s, ts) sch)"

lemma run_pool_steps: "pool_step\<^sup>*\<^sup>* p (run_pool p sch)"
proof (induction p sch rule: run_pool.induct)
  case (2 s ts i now sch)
  show ?case
  proof (cases "i < length ts")
    case True
    obtain c pc where t: "ts ! i = (c, pc)" by force
    obtain s' pc' where n: "thread_step s c pc now = (s', pc')" by force
    have "pool_step (s, ts) (s', ts[i := (c, pc')])" using True t n by (rule step_thread)
    with 2(1) [OF True] t n True show ?thesis by (simp add: converse_rtranclp_into_rtranclp)
  qed (use 2(2) in simp)
qed simp

section \<open>Claims of different tasks\<close>

definition counting :: "peer_id \<Rightarrow> claim_thread \<Rightarrow> bool" where
  "counting p t = (claim_peer_id (fst t) = p \<and> (case snd t of AtCount _ \<Rightarrow> True | _ \<Rightarrow> False))"

definition thread_ok :: "scheduler \<Rightarrow> claim_thread \<Rightarrow> bool" where
  "thread_ok s t =
     (case snd t of
        AtInsert \<Rightarrow> leases s (claim_task_id (fst t)) = None
      | AtCount l \<Rightarrow> leases s (claim_task_id (fst t)) = Some l \<and> lease_peer_id l = claim_peer_id (fst t)
      | Finished (Granted l) \<Rightarrow>
          leases s (claim_task_id (fst t)) = Some l \<and> lease_peer_id l = claim_peer_id (fst t)
      | _ \<Rightarrow> True)"

definition pool_inv :: "pool \<Rightarrow> bool" where
  "pool_inv q \<longleftrightarrow> (case q of (s, ts) \<Rightarrow>
     distinct (map (claim_task_id \<circ> fst) ts) \<and> finite (dom (leases s)) \<and>
     (\<forall>p. active_of s p + length (filter (counting p) ts) = card (held s p)) \<and>
     (\<forall>t \<in> set ts. thread_ok s t))"

lemma counting_simps [simp]:
  "counting p (c, AtRate) = False" "counting p (c, AtQuota) = False" "counting p (c, AtExclusive) = False"
  "counting p (c, AtInsert) = False" "counting p (c, Finished r) = False"
  "counting p (c, AtCount l) = (claim_peer_id c = p)"
  by (simp_all add: counting_def)

lemma thread_ok_other:
  assumes "thread_ok s t" "leases s' = leases s \<or> (\<exists>u l. leases s' = (leases s)(u \<mapsto> l) \<and> u \<noteq> claim_task_id (fst t))"
  shows "thread_ok s' t"
  using assms by (auto simp: thread_ok_def split: claim_pc.splits claim_outcome.splits)

text \<open>What one step of a thread does to the tables, to its counting status and to its own claim.\<close>

lemma thread_step_tables:
  assumes "thread_step s c pc now = (s', pc')" "thread_ok s (c, pc)" "finite (dom (leases s))"
  shows "(leases s' = leases s \<or> leases s' = (leases s)(claim_task_id c \<mapsto> lease_for c now)) \<and>
    thread_ok s' (c, pc') \<and> finite (dom (leases s')) \<and>
    active_of s' p + (if counting p (c, pc') then 1 else 0) + card (held s p) =
    active_of s p + (if counting p (c, pc) then 1 else 0) + card (held s' p)"
proof (cases pc)
  case AtRate
  obtain s1 r1 where r1: "check_rate_limit s (claim_peer_id c) now = (s1, r1)" by force
  have "s' = s1" "pc' = AtQuota \<or> (\<exists>d. pc' = Finished (Denied d))"
    using assms(1) AtRate r1 by (auto split: sum.splits)
  with check_rate_limit_frame [OF r1] held_same [of s1 s] AtRate assms show ?thesis
    by (auto simp: thread_ok_def)
next
  case AtInsert
  have s': "s' = insert_lease (lease_for c now) s" "pc' = AtCount (lease_for c now)"
    using assms(1) AtInsert by (auto simp: Let_def)
  have free: "leases s (claim_task_id c) = None" using assms(2) AtInsert by (simp add: thread_ok_def)
  have new: "held s' q = (if q = claim_peer_id c then insert (claim_task_id c) (held s q) else held s q)" for q
    using free by (auto simp: s' held_def holder_of_def insert_lease_def lease_for_def)
  have "claim_task_id c \<notin> held s q" "finite (held s q)" for q
    using free held_finite [OF assms(3)] by (simp_all add: held_def holder_of_def)
  then have "card (held s' p) = card (held s p) + (if p = claim_peer_id c then 1 else 0)"
    by (simp add: new)
  moreover have "active_of s' = active_of s" by (simp add: s' insert_lease_def)
  ultimately show ?thesis
    using assms(3) AtInsert by (auto simp: s' insert_lease_def lease_for_def thread_ok_def)
next
  case (AtCount l)
  then show ?thesis
    using assms held_same [of s' s] by (auto simp: active_increment thread_ok_def)
qed (use assms in \<open>auto simp: thread_ok_def split: sum.splits if_splits\<close>)

lemma pool_inv_step:
  assumes "pool_inv q" "pool_step q q'"
  shows "pool_inv q'"
  using assms(2)
proof cases
  case (step_thread i ts c pc s now s' pc')
  let ?ts = "ts[i := (c, pc')]"
  have inv: "distinct (map (claim_task_id \<circ> fst) ts)" "finite (dom (leases s))"
    "\<And>p. active_of s p + length (filter (counting p) ts) = card (held s p)" "\<forall>t \<in> set ts. thread_ok s t"
    using assms(1) by (simp_all add: step_thread pool_inv_def)
  have ok: "thread_ok s (c, pc)" using inv(4) step_thread nth_mem by fastforce
  note tab = thread_step_tables [OF step_thread(5) ok inv(2)]
  have "map (claim_task_id \<circ> fst) ?ts = map (claim_task_id \<circ> fst) ts"
    using step_thread by (simp add: map_update list_update_same_conv)
  then have "distinct (map (claim_task_id \<circ> fst) ?ts)" using inv(1) by simp
  moreover have "active_of s' p + length (filter (counting p) ?ts) = card (held s' p)" for p
    using length_filter_update [OF step_thread(3), of "counting p" "(c, pc')"] inv(3) [of p] tab [of p] step_thread(4)
    by (simp split: if_splits)
  moreover have "thread_ok s' t" if t: "t \<in> set ?ts" for t
  proof -
    from t obtain j where j: "j < length ts" "t = ?ts ! j" by (auto simp: in_set_conv_nth)
    show ?thesis
    proof (cases "j = i")
      case True
      then show ?thesis using j tab by simp
    next
      case False
      then have t: "t = ts ! j" using j by simp
      have "(map (claim_task_id \<circ> fst) ts) ! i \<noteq> (map (claim_task_id \<circ> fst) ts) ! j"
        using inv(1) j(1) step_thread(3) False by (simp only: nth_eq_iff_index_eq length_map simp_thms)
      then have "claim_task_id c \<noteq> claim_task_id (fst t)" using j step_thread(3,4) t by simp
      then show ?thesis
        using inv(4) j t tab nth_mem [of j ts] by (intro thread_ok_other [of s t s']) auto
    qed
  qed
  ultimately show ?thesis using tab by (simp add: step_thread pool_inv_def)
qed

definition start_ok :: "pool \<Rightarrow> bool" where
  "start_ok q \<longleftrightarrow> (\<exists>s cs. q = start_pool s cs \<and> sched_inv s \<and> distinct (map claim_task_id cs))"

lemma pool_inv_start: "start_ok q \<Longrightarrow> pool_inv q"
  by (auto simp: start_ok_def start_pool_def pool_inv_def sched_inv_def thread_ok_def comp_def)

interpretation claim_pool: invariant_system start_ok pool_step pool_inv
  by unfold_locales (auto intro: pool_inv_start pool_inv_step)

section \<open>Properties\<close>


text \<open>
  C7: threads that claim pairwise different tasks do not disturb each other. In every state that any
  interleaving reaches, a granted claim owns its task in the lease table, and once all threads have
  returned the concurrency counters are again the numbers of tasks held.
\<close>

theorem distinct_claims_interleave_safely:
  assumes "sched_inv s" "distinct (map claim_task_id cs)" "pool_step\<^sup>*\<^sup>* (start_pool s cs) (s', ts)"
  shows "(\<forall>c l. (c, Finished (Granted l)) \<in> set ts \<longrightarrow> holder_of s' (claim_task_id c) = Some (claim_peer_id c)) \<and>
         ((\<forall>t \<in> set ts. \<exists>r. snd t = Finished r) \<longrightarrow> (\<forall>p. active_of s' p = card (held s' p)))"
proof -
  have "start_ok (start_pool s cs)" using assms(1,2) by (auto simp: start_ok_def)
  then have inv: "pool_inv (s', ts)" using assms(3) by (rule claim_pool.inv_reachable)
  have "filter (counting p) ts = []" if "\<forall>t \<in> set ts. \<exists>r. snd t = Finished r" for p
    using that by (auto simp: filter_empty_conv counting_def)
  with inv show ?thesis
    by (fastforce simp: pool_inv_def thread_ok_def holder_of_def)
qed

lemmas pool_eval = start_pool_def sched_eval

theorem distinct_claims_interleave_safely_witness:
  "let cs = [todo_claim_new ''t1'' ''a'' Medium 10, todo_claim_new ''t2'' ''a'' Medium 10];
       q = run_pool (start_pool (scheduler_new 0) cs) (map (\<lambda>i. (i, 7)) [0, 1, 0, 1, 1, 0, 0, 1, 1, 0])
   in (\<forall>p. active_of (fst q) p = card (held (fst q) p)) \<and> active_of (fst q) ''a'' = 2"
proof -
  define cs where "cs = [todo_claim_new ''t1'' ''a'' Medium 10, todo_claim_new ''t2'' ''a'' Medium 10]"
  let ?q = "run_pool (start_pool (scheduler_new 0) cs) (map (\<lambda>i. (i, 7)) [0, 1, 0, 1, 1, 0, 0, 1, 1, 0])"
  obtain s' ts where q: "?q = (s', ts)" by force
  have "distinct (map claim_task_id cs)" by (simp add: cs_def todo_claim_new_def)
  moreover have "pool_step\<^sup>*\<^sup>* (start_pool (scheduler_new 0) cs) (s', ts)" unfolding q [symmetric] by (rule run_pool_steps)
  ultimately have "(\<forall>t \<in> set ts. \<exists>r. snd t = Finished r) \<longrightarrow> (\<forall>p. active_of s' p = card (held s' p))"
    using distinct_claims_interleave_safely [OF sched_inv_new(1) [of 0]] by blast
  moreover have "\<forall>t \<in> set (snd ?q). \<exists>r. snd t = Finished r" by (simp add: cs_def pool_eval)
  moreover have "active_of (fst ?q) ''a'' = 2" by (simp add: cs_def pool_eval)
  ultimately show ?thesis using q by (simp add: cs_def)
qed

text \<open>
  The exclusivity check and the insertion are separate critical sections, so the exclusivity of
  \<open>claim\<close> does not survive concurrency: two peers can both be granted the same task, after which the
  table has one lease and the loser's counter stays charged for a task it does not hold. For the
  same reason two claims of one peer can both pass a concurrency quota of one.
\<close>

theorem claim_race:
  "(\<exists>s' l1 l2. pool_step\<^sup>*\<^sup>*
      (start_pool (scheduler_new 0) [todo_claim_new ''t'' ''a'' Medium 10, todo_claim_new ''t'' ''b'' Medium 10])
      (s', [(todo_claim_new ''t'' ''a'' Medium 10, Finished (Granted l1)),
            (todo_claim_new ''t'' ''b'' Medium 10, Finished (Granted l2))]) \<and>
      holder_of s' ''t'' = Some ''b'' \<and> active_of s' ''a'' = 1 \<and> held s' ''a'' = {})
   \<and> (\<exists>s' ts. pool_step\<^sup>*\<^sup>*
      (start_pool (scheduler_new 0)
        (map (\<lambda>t. (todo_claim_new t ''a'' Medium 10)\<lparr>claim_quota := quota_default\<lparr>max_concurrent := 1\<rparr>\<rparr>) [''t'', ''u'']))
      (s', ts) \<and> active_of s' ''a'' = 2)"
proof
  let ?a = "todo_claim_new ''t'' ''a'' Medium 10" and ?b = "todo_claim_new ''t'' ''b'' Medium 10"
  let ?q = "run_pool (start_pool (scheduler_new 0) [?a, ?b]) (map (\<lambda>i. (i, 7)) [0, 0, 0, 1, 1, 1, 0, 0, 1, 1])"
  have "snd ?q = [(?a, Finished (Granted (lease_for ?a 7))), (?b, Finished (Granted (lease_for ?b 7)))]"
    "holder_of (fst ?q) ''t'' = Some ''b''" "active_of (fst ?q) ''a'' = 1" "held (fst ?q) ''a'' = {}"
    by (simp_all add: pool_eval held_def)
  then show "\<exists>s' l1 l2. pool_step\<^sup>*\<^sup>* (start_pool (scheduler_new 0) [?a, ?b])
      (s', [(?a, Finished (Granted l1)), (?b, Finished (Granted l2))]) \<and>
      holder_of s' ''t'' = Some ''b'' \<and> active_of s' ''a'' = 1 \<and> held s' ''a'' = {}"
    using run_pool_steps [of "start_pool (scheduler_new 0) [?a, ?b]"] by (metis prod.collapse)
next
  let ?c = "\<lambda>t. (todo_claim_new t ''a'' Medium 10)\<lparr>claim_quota := quota_default\<lparr>max_concurrent := 1\<rparr>\<rparr>"
  let ?q = "run_pool (start_pool (scheduler_new 0) (map ?c [''t'', ''u'']))
    (map (\<lambda>i. (i, 7)) [0, 0, 0, 1, 1, 1, 0, 0, 1, 1])"
  have "active_of (fst ?q) ''a'' = 2" by (simp add: pool_eval)
  then show "\<exists>s' ts. pool_step\<^sup>*\<^sup>* (start_pool (scheduler_new 0) (map ?c [''t'', ''u''])) (s', ts) \<and> active_of s' ''a'' = 2"
    using run_pool_steps [of "start_pool (scheduler_new 0) (map ?c [''t'', ''u''])"] by (metis prod.collapse)
qed

end
