(* ===== verification/Sched_Shadow.thy ===== *)
theory Sched_Shadow
  imports Sched
begin

text \<open>
  The shadow mode of \<^verbatim>\<open>mas-sched/src/shadow.rs\<close> and the claim pilot of \<^verbatim>\<open>mas-sched/src/claim_pilot.rs\<close>. A
  shadow scheduler wraps any implementation of the trait, given by its four functions, records every
  decision in an append-only log and answers a granted claim with \<^verbatim>\<open>ShadowReject\<close>; \<^verbatim>\<open>ShadowLog::replay\<close>
  feeds the log to a separate replay scheduler and counts agreements. The pilot broker restricts a
  rate-limited scheduler to a pool of peers and keeps the statistics of its rollback verdict.
\<close>

section \<open>The decision log\<close>

datatype shadow_claim_outcome = ShadowGranted nat | ShadowDenied deny_reason

datatype shadow_decision =
    DClaim task_id peer_id shadow_claim_outcome
  | DRenew task_id renew_outcome
  | DHandoff task_id peer_id bool
  | DShouldRun task_id should_run_verdict

type_synonym shadow_log = "shadow_decision list"

record 's shadow =
  inner :: 's
  log :: shadow_log

definition shadow_new :: "'s \<Rightarrow> 's shadow" where
  "shadow_new s = \<lparr>inner = s, log = []\<rparr>"

definition log_push :: "shadow_decision \<Rightarrow> 's shadow \<Rightarrow> 's shadow" where
  "log_push d sh = sh\<lparr>log := log sh @ [d]\<rparr>"

definition shadow_claim ::
  "('s \<Rightarrow> todo_claim \<Rightarrow> nat \<Rightarrow> 's \<times> claim_outcome) \<Rightarrow> 's shadow \<Rightarrow> todo_claim \<Rightarrow> nat \<Rightarrow> 's shadow \<times> claim_outcome" where
  "shadow_claim cf sh c now =
     (let (s', real) = cf (inner sh) c now;
          o' = (case real of Granted l \<Rightarrow> ShadowGranted (lease_duration_ms l) | Denied r \<Rightarrow> ShadowDenied r)
      in (log_push (DClaim (claim_task_id c) (claim_peer_id c) o') (sh\<lparr>inner := s'\<rparr>),
          case real of Granted _ \<Rightarrow> Denied ShadowReject | Denied r \<Rightarrow> Denied r))"

definition shadow_renew_lease ::
  "('s \<Rightarrow> task_id \<Rightarrow> peer_id \<Rightarrow> nat \<Rightarrow> 's \<times> (sched_error, renew_outcome) result) \<Rightarrow>
   's shadow \<Rightarrow> task_id \<Rightarrow> peer_id \<Rightarrow> nat \<Rightarrow> 's shadow \<times> (sched_error, renew_outcome) result" where
  "shadow_renew_lease rf sh t p now =
     (let (s', real) = rf (inner sh) t p now;
          o' = (case real of Inr x \<Rightarrow> x | Inl _ \<Rightarrow> NotRenewable)
      in (log_push (DRenew t o') (sh\<lparr>inner := s'\<rparr>), real))"

definition shadow_handoff ::
  "('s \<Rightarrow> task_id \<Rightarrow> peer_id \<Rightarrow> 's \<times> (sched_error, unit) result) \<Rightarrow>
   's shadow \<Rightarrow> task_id \<Rightarrow> peer_id \<Rightarrow> 's shadow \<times> (sched_error, unit) result" where
  "shadow_handoff hf sh t p =
     (let (s', real) = hf (inner sh) t p
      in (log_push (DHandoff t p (is_Ok real)) (sh\<lparr>inner := s'\<rparr>), real))"

definition shadow_should_run ::
  "('s \<Rightarrow> task_id \<Rightarrow> nat \<Rightarrow> should_run_verdict) \<Rightarrow> 's shadow \<Rightarrow> task_id \<Rightarrow> nat \<Rightarrow> 's shadow \<times> should_run_verdict" where
  "shadow_should_run sf sh t now = (let v = sf (inner sh) t now in (log_push (DShouldRun t v) sh, v))"

definition shadow_lease_count :: "'s shadow \<Rightarrow> nat" where
  "shadow_lease_count sh = 0"

section \<open>Replay\<close>

type_synonym replay_scheduler = "task_id \<rightharpoonup> bool"

definition replay_claim :: "replay_scheduler \<Rightarrow> todo_claim \<Rightarrow> replay_scheduler \<times> claim_outcome" where
  "replay_claim m c = (m(claim_task_id c \<mapsto> True), Denied ShadowReject)"

definition replay_renew_lease :: "replay_scheduler \<Rightarrow> task_id \<Rightarrow> peer_id \<Rightarrow> (sched_error, renew_outcome) result" where
  "replay_renew_lease m t p = (if m t \<noteq> None then Inr Renewed else Inl (TaskNotFound t))"

definition replay_handoff :: "replay_scheduler \<Rightarrow> task_id \<Rightarrow> peer_id \<Rightarrow> (sched_error, unit) result" where
  "replay_handoff m t p = Inr ()"

definition replay_should_run :: "replay_scheduler \<Rightarrow> task_id \<Rightarrow> should_run_verdict" where
  "replay_should_run m t = (if m t \<noteq> None then Run else NoActionableWork)"

definition shadow_claim_outcome_of :: "nat \<Rightarrow> shadow_claim_outcome \<Rightarrow> claim_outcome" where
  "shadow_claim_outcome_of now o' =
     (case o' of
        ShadowGranted d \<Rightarrow>
          Granted \<lparr>lease_task_id = [], lease_peer_id = [], lease_until = now, renewable = True, lease_duration_ms = d\<rparr>
      | ShadowDenied r \<Rightarrow> Denied r)"

fun replay_entry :: "nat \<Rightarrow> replay_scheduler \<Rightarrow> shadow_decision \<Rightarrow> replay_scheduler \<times> bool" where
  "replay_entry now m (DClaim t p o') =
     (let (m', actual) = replay_claim m (todo_claim_new t p Medium 10000);
          expected = (case shadow_claim_outcome_of now o' of Granted _ \<Rightarrow> Denied ShadowReject | other \<Rightarrow> other)
      in (m', actual = expected))"
| "replay_entry now m (DRenew t o') =
     (m, case replay_renew_lease m t ''replay'' of Inr x \<Rightarrow> x = o' | Inl _ \<Rightarrow> False)"
| "replay_entry now m (DHandoff t p ok) = (m, is_Ok (replay_handoff m t p) = ok)"
| "replay_entry now m (DShouldRun t v) = (m, replay_should_run m t = v)"

record replay_report =
  total :: nat
  matched :: nat
  mismatched :: nat

fun replay_loop :: "nat \<Rightarrow> replay_scheduler \<Rightarrow> shadow_log \<Rightarrow> nat \<Rightarrow> nat \<Rightarrow> nat \<times> nat" where
  "replay_loop now m [] ok bad = (ok, bad)"
| "replay_loop now m (e # es) ok bad =
     (let (m', good) = replay_entry now m e
      in if good then replay_loop now m' es (ok + 1) bad else replay_loop now m' es ok (bad + 1))"

definition replay_log :: "nat \<Rightarrow> shadow_log \<Rightarrow> replay_report" where
  "replay_log now es =
     (let (ok, bad) = replay_loop now Map.empty es 0 0
      in \<lparr>total = length es, matched = ok, mismatched = bad\<rparr>)"

section \<open>The pilot broker\<close>

datatype broker_decision = BGranted lease | BDenied deny_reason | OutsidePilotPool

datatype pilot_verdict = Proceed | Rollback string

record claim_broker =
  broker_scheduler :: scheduler
  pool :: "peer_id set"
  served_peers :: "peer_id set"
  routed_claims :: u32
  rate_limited :: u32

definition broker_new :: "nat \<Rightarrow> nat \<Rightarrow> peer_id list \<Rightarrow> nat \<Rightarrow> claim_broker" where
  "broker_new m w ps now =
     \<lparr>broker_scheduler = with_rate_limit m w now, pool = set ps, served_peers = {}, routed_claims = 0, rate_limited = 0\<rparr>"

definition route_claim :: "claim_broker \<Rightarrow> todo_claim \<Rightarrow> nat \<Rightarrow> claim_broker \<times> broker_decision" where
  "route_claim b c now =
     (if claim_peer_id c \<notin> pool b then (b, OutsidePilotPool)
      else (let b1 = b\<lparr>routed_claims := routed_claims b + 1\<rparr>;
                (s', r) = claim (broker_scheduler b1) c now;
                b2 = b1\<lparr>broker_scheduler := s'\<rparr>
            in case r of
                 Granted l \<Rightarrow> (b2\<lparr>served_peers := insert (claim_peer_id c) (served_peers b2)\<rparr>, BGranted l)
               | Denied reason \<Rightarrow>
                   (if reason = RateLimited then b2\<lparr>rate_limited := rate_limited b2 + 1\<rparr> else b2, BDenied reason)))"

definition broker_renew :: "claim_broker \<Rightarrow> task_id \<Rightarrow> peer_id \<Rightarrow> nat \<Rightarrow> claim_broker \<times> (sched_error, renew_outcome) result" where
  "broker_renew b t p now =
     (let (s', r) = renew_lease (broker_scheduler b) t p now in (b\<lparr>broker_scheduler := s'\<rparr>, r))"

definition broker_handoff :: "claim_broker \<Rightarrow> task_id \<Rightarrow> peer_id \<Rightarrow> claim_broker \<times> (sched_error, unit) result" where
  "broker_handoff b t p =
     (let (s', r) = handoff (broker_scheduler b) t p in (b\<lparr>broker_scheduler := s'\<rparr>, r))"

definition saturating_mul :: "u32 \<Rightarrow> u32 \<Rightarrow> u32" where
  "saturating_mul a b = (if unat a * unat b < 2 ^ 32 then a * b else - 1)"

definition rollback_verdict :: "claim_broker \<Rightarrow> pilot_verdict" where
  "rollback_verdict b =
     (if routed_claims b = 0 \<or> card (served_peers b) \<le> 1 then Rollback ''no multi-consumer demand''
      else if routed_claims b \<le> saturating_mul (rate_limited b) 2 then Rollback ''dispatch regression''
      else Proceed)"

text \<open>The calls a pilot receives, and the decisions it makes on them.\<close>

datatype broker_op = BClaim todo_claim nat | BRenew task_id peer_id nat | BHandoff task_id peer_id

fun broker_run :: "claim_broker \<Rightarrow> broker_op list \<Rightarrow> claim_broker \<times> (todo_claim \<times> broker_decision) list" where
  "broker_run b [] = (b, [])"
| "broker_run b (BClaim c now # xs) =
     (let (b1, d) = route_claim b c now; (b2, ds) = broker_run b1 xs in (b2, (c, d) # ds))"
| "broker_run b (BRenew t p now # xs) = broker_run (fst (broker_renew b t p now)) xs"
| "broker_run b (BHandoff t p # xs) = broker_run (fst (broker_handoff b t p)) xs"

section \<open>Well-formed shadow sessions\<close>

datatype shadow_op =
    SClaim todo_claim nat
  | SRenew task_id peer_id nat
  | SHandoff task_id peer_id
  | SShouldRun task_id nat

fun shadow_op_step :: "scheduler shadow \<Rightarrow> shadow_op \<Rightarrow> scheduler shadow" where
  "shadow_op_step sh (SClaim c now) = fst (shadow_claim claim sh c now)"
| "shadow_op_step sh (SRenew t p now) = fst (shadow_renew_lease renew_lease sh t p now)"
| "shadow_op_step sh (SHandoff t p) = fst (shadow_handoff handoff sh t p)"
| "shadow_op_step sh (SShouldRun t now) = fst (shadow_should_run should_run sh t now)"

text \<open>
  The precondition the documentation of \<^verbatim>\<open>replay\<close> names: the inner scheduler grants the claim, a renewal
  comes from the holder of an unexpired lease, a handoff moves a held task to a named peer, and
  \<^verbatim>\<open>should_run\<close> does not meet an expired lease.
\<close>

fun well_formed_op :: "scheduler \<Rightarrow> shadow_op \<Rightarrow> bool" where
  "well_formed_op s (SClaim c now) = (case snd (claim s c now) of Granted _ \<Rightarrow> True | Denied _ \<Rightarrow> False)"
| "well_formed_op s (SRenew t p now) =
     (case leases s t of None \<Rightarrow> False | Some l \<Rightarrow> lease_peer_id l = p \<and> renewable l \<and> now < lease_until l)"
| "well_formed_op s (SHandoff t p) = (leases s t \<noteq> None \<and> p \<noteq> HANDOFF)"
| "well_formed_op s (SShouldRun t now) = (case leases s t of None \<Rightarrow> True | Some l \<Rightarrow> now < lease_until l)"

fun well_formed_ops :: "scheduler shadow \<Rightarrow> shadow_op list \<Rightarrow> bool" where
  "well_formed_ops sh [] = True"
| "well_formed_ops sh (x # xs) = (well_formed_op (inner sh) x \<and> well_formed_ops (shadow_op_step sh x) xs)"

lemmas shadow_defs = shadow_claim_def shadow_renew_lease_def shadow_handoff_def shadow_should_run_def log_push_def

lemma replay_loop_counts:
  "fst (replay_loop now m es ok bad) + snd (replay_loop now m es ok bad) = ok + bad + length es"
  by (induction es arbitrary: m ok bad) (auto simp: Let_def split: prod.splits)

lemma replay_loop_append:
  "replay_loop now m (xs @ ys) ok bad =
     (let m' = fold (\<lambda>e m. fst (replay_entry now m e)) xs m; (ok', bad') = replay_loop now m xs ok bad
      in replay_loop now m' ys ok' bad')"
  by (induction xs arbitrary: m ok bad) (auto simp: Let_def split: prod.splits)

text \<open>One well-formed call adds one entry that the replay reproduces, and both sides know the same tasks after it.\<close>

lemma well_formed_step:
  assumes "well_formed_op (inner sh) x" "dom m = dom (leases (inner sh))"
  obtains d m' where "log (shadow_op_step sh x) = log sh @ [d]" "replay_entry now m d = (m', True)"
    "dom m' = dom (leases (inner (shadow_op_step sh x)))"
proof (cases x)
  case (SClaim c n)
  obtain s' l where g: "claim (inner sh) c n = (s', Granted l)"
    using assms(1) SClaim by (cases "claim (inner sh) c n") (auto split: claim_outcome.splits)
  from g obtain s1 where "leases s1 = leases (inner sh)" "l = lease_for c n"
    "s' = increment_peer (claim_peer_id c) (insert_lease l s1)"
    by (metis check_rate_limit_frame(1) claim_grantedE)
  then have "dom (leases s') = insert (claim_task_id c) (dom (leases (inner sh)))"
    by (simp add: insert_lease_def lease_for_def)
  then show thesis
    using that [of "DClaim (claim_task_id c) (claim_peer_id c) (ShadowGranted (lease_duration_ms l))"
        "m(claim_task_id c \<mapsto> True)"] SClaim g assms(2)
    by (simp add: shadow_defs replay_claim_def todo_claim_new_def shadow_claim_outcome_of_def)
next
  case (SRenew t p n)
  then obtain l where l: "leases (inner sh) t = Some l" "lease_peer_id l = p" "renewable l" "n < lease_until l"
    using assms(1) by (auto split: option.splits)
  then have "t \<in> dom m" unfolding assms(2) by blast
  then obtain v where "m t = Some v" by blast
  moreover have "insert t (dom (leases (inner sh))) = dom (leases (inner sh))" using l by blast
  ultimately show thesis
    using l that [of "DRenew t Renewed" m] SRenew assms(2)
    by (simp add: shadow_defs renew_lease_def replay_renew_lease_def)
next
  case (SHandoff t p)
  then obtain l where "leases (inner sh) t = Some l" "p \<noteq> HANDOFF" using assms(1) by auto
  then show thesis
    using that [of "DHandoff t p True" m] SHandoff assms(2)
    by (auto simp: shadow_defs handoff_def replay_handoff_def Let_def)
next
  case (SShouldRun t n)
  have "m t = None \<longleftrightarrow> leases (inner sh) t = None" using assms(2) by (metis domIff)
  with SShouldRun show thesis
    using that [of "DShouldRun t (should_run (inner sh) t n)" m] assms
    by (cases "m t") (auto simp: shadow_defs should_run_def replay_should_run_def Let_def split: option.splits)
qed

lemma well_formed_replay:
  assumes "well_formed_ops sh xs" "dom m = dom (leases (inner sh))"
  shows "\<exists>ds. log (fold (\<lambda>x s. shadow_op_step s x) xs sh) = log sh @ ds \<and> replay_loop now m ds ok 0 = (ok + length ds, 0)"
  using assms
proof (induction xs arbitrary: sh m ok)
  case (Cons x xs)
  obtain d m' where d: "log (shadow_op_step sh x) = log sh @ [d]" "replay_entry now m d = (m', True)"
    "dom m' = dom (leases (inner (shadow_op_step sh x)))"
    using well_formed_step [OF _ Cons.prems(2), of x now] Cons.prems(1) by auto
  from Cons.IH [OF _ d(3), of "ok + 1"] Cons.prems(1)
  obtain ds where "log (fold (\<lambda>x s. shadow_op_step s x) xs (shadow_op_step sh x)) = log (shadow_op_step sh x) @ ds"
    "replay_loop now m' ds (ok + 1) 0 = (ok + 1 + length ds, 0)" by auto
  with d show ?case by (intro exI [of _ "d # ds"]) simp
qed simp

section \<open>Properties\<close>

text \<open>
  C32: the replay gate. Every replay classifies each log entry once, and the log of a well-formed
  session on a scheduler with an empty lease table replays at 100 percent, whenever it is replayed.
\<close>

theorem well_formed_log_replays:
  assumes "leases s = Map.empty" "well_formed_ops (shadow_new s) xs"
    "es = log (fold (\<lambda>x sh. shadow_op_step sh x) xs (shadow_new s))"
  shows "matched (replay_log now es) = total (replay_log now es) \<and> mismatched (replay_log now es) = 0"
proof -
  have "\<exists>ds. log (fold (\<lambda>x sh. shadow_op_step sh x) xs (shadow_new s)) = log (shadow_new s) @ ds \<and>
        replay_loop now Map.empty ds 0 0 = (0 + length ds, 0)"
    using assms(1,2) by (intro well_formed_replay) (simp_all add: shadow_new_def)
  with assms(3) show ?thesis by (auto simp: replay_log_def shadow_new_def)
qed

theorem well_formed_log_replays_witness:
  "let xs = [SClaim (todo_claim_new ''t1'' ''a'' Medium 10) 5, SShouldRun ''t1'' 6, SRenew ''t1'' ''a'' 7,
             SHandoff ''t1'' ''b'', SShouldRun ''t2'' 8];
       es = log (fold (\<lambda>x sh. shadow_op_step sh x) xs (shadow_new (scheduler_new 0)))
   in mismatched (replay_log 0 es) = 0 \<and> total (replay_log 0 es) = 5"
proof -
  let ?xs = "[SClaim (todo_claim_new ''t1'' ''a'' Medium 10) 5, SShouldRun ''t1'' 6, SRenew ''t1'' ''a'' 7,
             SHandoff ''t1'' ''b'', SShouldRun ''t2'' 8]"
  have "well_formed_ops (shadow_new (scheduler_new 0)) ?xs"
    by (simp add: shadow_new_def shadow_defs sched_eval)
  moreover have "leases (scheduler_new 0) = Map.empty" by (simp add: scheduler_new_def)
  moreover have "total (replay_log 0 (log (fold (\<lambda>x sh. shadow_op_step sh x) ?xs (shadow_new (scheduler_new 0))))) = 5"
    by (simp add: replay_log_def shadow_new_def shadow_defs Let_def split: prod.splits)
  ultimately show ?thesis
    using well_formed_log_replays [of "scheduler_new 0" ?xs _ 0] unfolding Let_def by blast
qed

text \<open>
  A shadow claim never tells its caller that the task was granted, but it is not free of
  effects: the wrapped scheduler files the lease, so the next claim of the task is refused as
  already claimed while the shadow reports no lease at all.
\<close>

theorem shadow_claim_keeps_lease:
  assumes "snd (claim (inner sh) c now) = Granted l"
  shows "let (sh1, r1) = shadow_claim claim sh c now; (sh2, r2) = shadow_claim claim sh1 c later
         in r1 = Denied ShadowReject \<and> leases (inner sh1) (claim_task_id c) = Some l \<and>
            shadow_lease_count sh1 = 0 \<and> r2 \<noteq> r1 \<and> (\<exists>d. r2 = Denied d)"
proof -
  obtain s' where g: "claim (inner sh) c now = (s', Granted l)" using assms by (cases "claim (inner sh) c now") auto
  then have l: "leases s' (claim_task_id c) = Some l"
    by (rule claim_grantedE) (simp add: insert_lease_def lease_for_def)
  obtain s2 d where d: "claim s' c later = (s2, Denied d)"
    using lease_sched.claim_held_denied [of s' c later] l by (cases "claim s' c later") (auto simp: holder_of_def)
  have "d \<noteq> ShadowReject"
    using d by (auto simp: claim_def check_rate_limit_def check_quota_def grant_locked_def Let_def
        split: option.splits prod.splits sum.splits if_splits)
  then show ?thesis using g l d by (simp add: shadow_defs shadow_lease_count_def)
qed

theorem shadow_claim_keeps_lease_witness:
  "let c = todo_claim_new ''t1'' ''a'' Medium 10; sh1 = fst (shadow_claim claim (shadow_new (scheduler_new 0)) c 5)
   in lease_count (inner sh1) = 1 \<and> leases (inner sh1) ''t1'' \<noteq> None \<and> snd (shadow_claim claim sh1 c 6) \<noteq> Denied ShadowReject"
proof -
  define c where "c = todo_claim_new ''t1'' ''a'' Medium 10"
  let ?sh = "shadow_new (scheduler_new 0)"
  have "snd (claim (inner ?sh) c 5) = Granted (lease_for c 5)"
    by (simp add: c_def shadow_new_def sched_eval)
  from shadow_claim_keeps_lease [OF this, of 6] show ?thesis
    by (auto simp: c_def shadow_new_def shadow_defs sched_eval lease_count_def)
qed

section \<open>The statistics of the pilot\<close>

definition routed_of :: "(todo_claim \<times> broker_decision) list \<Rightarrow> nat" where
  "routed_of ds = length (filter (\<lambda>d. snd d \<noteq> OutsidePilotPool) ds)"

definition limited_of :: "(todo_claim \<times> broker_decision) list \<Rightarrow> nat" where
  "limited_of ds = length (filter (\<lambda>d. snd d = BDenied RateLimited) ds)"

definition granted_peers :: "(todo_claim \<times> broker_decision) list \<Rightarrow> peer_id set" where
  "granted_peers ds = {claim_peer_id c | c l. (c, BGranted l) \<in> set ds}"

lemma granted_peers_Cons:
  "granted_peers ((c, d) # ds) = (case d of BGranted _ \<Rightarrow> insert (claim_peer_id c) (granted_peers ds) | _ \<Rightarrow> granted_peers ds)"
  by (auto simp: granted_peers_def split: broker_decision.splits)

lemma limited_le_routed: "limited_of ds \<le> routed_of ds"
  by (induction ds) (auto simp: limited_of_def routed_of_def)

lemma broker_run_stats:
  "broker_run b xs = (b', ds) \<Longrightarrow>
     routed_claims b' = routed_claims b + of_nat (routed_of ds) \<and> rate_limited b' = rate_limited b + of_nat (limited_of ds) \<and>
     served_peers b' = served_peers b \<union> granted_peers ds \<and> length ds \<le> length xs"
proof (induction b xs arbitrary: b' ds rule: broker_run.induct)
  case (1 b)
  then show ?case by (simp add: routed_of_def limited_of_def granted_peers_def)
next
  case (2 b c now xs)
  obtain b1 d where r: "route_claim b c now = (b1, d)" by force
  obtain ds' where run: "broker_run b1 xs = (b', ds')" and ds: "ds = (c, d) # ds'"
    using 2(2) r by (auto simp: Let_def split: prod.splits)
  have "routed_claims b1 = routed_claims b + (if d = OutsidePilotPool then 0 else 1)"
    "rate_limited b1 = rate_limited b + (if d = BDenied RateLimited then 1 else 0)"
    "served_peers b1 = served_peers b \<union> (case d of BGranted _ \<Rightarrow> {claim_peer_id c} | _ \<Rightarrow> {})"
    using r by (auto simp: route_claim_def Let_def split: if_splits prod.splits claim_outcome.splits)
  with 2(1) [OF r [symmetric] refl run] show ?case
    by (auto simp: ds routed_of_def limited_of_def granted_peers_Cons split: broker_decision.splits)
next
  case (3 b t p now xs)
  from 3(1) [of b' ds] 3(2) show ?case
    by (auto simp: broker_renew_def Let_def split: prod.splits)
next
  case (4 b t p xs)
  from 4(1) [of b' ds] 4(2) show ?case
    by (auto simp: broker_handoff_def Let_def split: prod.splits)
qed

lemma unat_of_nat_u32: "n < 2 ^ 32 \<Longrightarrow> unat (of_nat n :: u32) = n"
  by (simp add: unat_of_nat)

lemma unat_saturating_mul: "unat (saturating_mul a b) = min (unat a * unat b) (2 ^ 32 - 1)"
proof (cases "unat a * unat b < 2 ^ 32")
  case True
  then have "unat (a * b) = unat a * unat b" by (simp add: unat_word_ariths)
  with True show ?thesis by (simp add: saturating_mul_def)
next
  case False
  then show ?thesis by (simp add: saturating_mul_def unsigned_minus_1_eq_mask mask_eq_exp_minus_1)
qed

text \<open>
  The verdict of the pilot means what its documentation says. For every session of fewer than
  \<open>2 ^ 32\<close> calls, \<^verbatim>\<open>Proceed\<close> is returned exactly when more than one distinct peer was granted a lease and
  fewer than half of the routed claims were refused by the rate guard; the saturating doubling never
  changes the outcome.
\<close>

theorem rollback_verdict_correct:
  assumes "broker_run (broker_new m w ps t0) xs = (b, ds)" "length xs < 2 ^ 32"
  shows "rollback_verdict b = Proceed \<longleftrightarrow> 1 < card (granted_peers ds) \<and> 2 * limited_of ds < routed_of ds"
proof -
  have st: "routed_claims b = of_nat (routed_of ds)" "rate_limited b = of_nat (limited_of ds)"
    "served_peers b = granted_peers ds" "length ds \<le> length xs"
    using broker_run_stats [OF assms(1)] by (simp_all add: broker_new_def)
  have "routed_of ds \<le> length ds" by (simp add: routed_of_def)
  then have lt: "routed_of ds < 2 ^ 32" "limited_of ds < 2 ^ 32"
    using st(4) assms(2) limited_le_routed [of ds] by linarith+
  note un = unat_of_nat_u32 [OF lt(1)] unat_of_nat_u32 [OF lt(2)]
  have "routed_claims b \<le> saturating_mul (rate_limited b) 2 \<longleftrightarrow> routed_of ds \<le> 2 * limited_of ds"
    using lt by (auto simp: word_le_nat_alt unat_saturating_mul st un min_def mult.commute)
  moreover have "routed_claims b = 0 \<longleftrightarrow> routed_of ds = 0"
    unfolding st(1) unat_eq_zero [symmetric] un(1) ..
  ultimately show ?thesis by (auto simp: rollback_verdict_def st(3) not_le)
qed

theorem rollback_verdict_correct_witness:
  "rollback_verdict (fst (broker_run (broker_new 5 1000 [''a'', ''b''] 0)
      [BClaim (todo_claim_new ''t1'' ''a'' Medium 10) 1, BClaim (todo_claim_new ''t2'' ''b'' Medium 10) 2,
       BClaim (todo_claim_new ''t3'' ''z'' Medium 10) 3, BHandoff ''t1'' ''b''])) = Proceed"
proof -
  let ?xs = "[BClaim (todo_claim_new ''t1'' ''a'' Medium 10) 1, BClaim (todo_claim_new ''t2'' ''b'' Medium 10) 2,
       BClaim (todo_claim_new ''t3'' ''z'' Medium 10) 3, BHandoff ''t1'' ''b'']"
  let ?c = "\<lambda>t p. todo_claim_new t p Medium 10"
  obtain b ds where r: "broker_run (broker_new 5 1000 [''a'', ''b''] 0) ?xs = (b, ds)" by force
  then have ds: "ds = [(?c ''t1'' ''a'', BGranted (lease_for (?c ''t1'' ''a'') 1)),
      (?c ''t2'' ''b'', BGranted (lease_for (?c ''t2'' ''b'') 2)), (?c ''t3'' ''z'', OutsidePilotPool)]"
    by (auto simp: broker_new_def route_claim_def broker_handoff_def with_rate_limit_def governor_new_def
        try_admit_def elapsed_ms_def u64_max_def sched_eval)
  have "granted_peers ds = {''a'', ''b''}"
    by (auto simp: ds granted_peers_Cons todo_claim_new_def) (simp add: granted_peers_def)+
  then show ?thesis
    using rollback_verdict_correct [OF r] by (simp only: r fst_conv) (simp add: ds limited_of_def routed_of_def)
qed

end
