(* ===== verification/Mesh_Wal.thy ===== *)
theory Mesh_Wal
  imports Sensitive
begin

text \<open>
  The transaction states and the write-ahead log of the tool mesh:
  \<^verbatim>\<open>mcp-mesh/src/quantum/transaction.rs\<close>, \<^verbatim>\<open>mcp-mesh/src/quantum/wal.rs\<close> and the error type of
  \<^verbatim>\<open>mcp-mesh/src/error.rs\<close>. The log is the bytes of one file of lines; \<^verbatim>\<open>serde_json\<close> and the Unicode
  conversions are the fields of a codec, and an argument says whether the operating system accepts a
  write; a refused write leaves the file as it was, and a write cut off by a crash is the torn tail of the
  round trip below. Error texts that only a human reads are shortened.
\<close>

section \<open>Transactions\<close>

datatype transaction_state = TxInit | TxPrepare | TxCommit | TxAbort | TxRollback

fun state_name :: "transaction_state \<Rightarrow> string" where
  "state_name TxInit = ''Init''"
| "state_name TxPrepare = ''Prepare''"
| "state_name TxCommit = ''Commit''"
| "state_name TxAbort = ''Abort''"
| "state_name TxRollback = ''Rollback''"

definition is_terminal :: "transaction_state \<Rightarrow> bool" where
  "is_terminal s = (s = TxCommit \<or> s = TxRollback)"

datatype mcp_error =
    ServerNotFound string
  | ServerUnreachable string
  | TransactionTimeout string nat
  | TooManyParticipants nat nat
  | InvalidStateTransition string string
  | ConfigError string
  | RegistryFull nat
  | InvalidEntanglement string
  | SsrfBlocked string
  | NetworkError string string string
  | ProtocolError string string
  | WalIoError string
  | CompensationFailed string nat "string list"
  | DnsRebindingBlocked string string
  | EventBusPublish string

record quantum_transaction =
  transaction_id :: string
  participant_servers :: "string list"
  tx_state :: transaction_state
  tx_created_at :: nat

definition tx_with_id :: "string \<Rightarrow> string list \<Rightarrow> nat \<Rightarrow> quantum_transaction" where
  "tx_with_id i ps now = \<lparr>transaction_id = i, participant_servers = ps, tx_state = TxInit, tx_created_at = now\<rparr>"

definition transition ::
  "quantum_transaction \<Rightarrow> transaction_state \<Rightarrow> quantum_transaction \<times> (mcp_error, unit) result" where
  "transition tx new_state =
     (if (tx_state tx, new_state) \<in> {(TxInit, TxPrepare), (TxPrepare, TxCommit), (TxPrepare, TxAbort), (TxAbort, TxRollback)}
      then (tx\<lparr>tx_state := new_state\<rparr>, Inr ())
      else (tx, Inl (InvalidStateTransition (state_name (tx_state tx)) (state_name new_state))))"

section \<open>The log\<close>

record wal_entry =
  entry_tx :: string
  entry_state :: transaction_state
  participants_ack :: "string list"
  entry_timestamp :: nat

record wal_codec =
  entry_to_vec :: "wal_entry \<Rightarrow> (string, bytes) result"
  entry_from_line :: "bytes \<Rightarrow> wal_entry option"
  line_utf8_lossy :: "bytes \<Rightarrow> string"
  line_to_lowercase :: "string \<Rightarrow> string"

definition wal_blocked :: "wal_codec \<Rightarrow> bytes \<Rightarrow> bool" where
  "wal_blocked cd bs = is_blocked (scan (line_to_lowercase cd) (line_utf8_lossy cd bs) write_policy)"

definition wal_append :: "wal_codec \<Rightarrow> bool \<Rightarrow> bytes \<Rightarrow> wal_entry \<Rightarrow> bytes \<times> (mcp_error, unit) result" where
  "wal_append cd disk_ok wal e =
     (case entry_to_vec cd e of
        Inl reason \<Rightarrow> (wal, Inl (WalIoError reason))
      | Inr bs \<Rightarrow>
          if wal_blocked cd bs then (wal, Inl (WalIoError ''sensitive payload''))
          else if \<not> disk_ok then (wal, Inl (WalIoError ''write''))
          else (wal @ bs @ [10], Inr ()))"

text \<open>\<^verbatim>\<open>BufRead::lines\<close>: the text between newlines, without a carriage return before a newline.\<close>

definition strip_cr :: "bytes \<Rightarrow> bytes" where
  "strip_cr l = (if l \<noteq> [] \<and> last l = 13 then butlast l else l)"

fun split_lines :: "bytes \<Rightarrow> bytes \<Rightarrow> bytes list" where
  "split_lines cur [] = (if cur = [] then [] else [cur])"
| "split_lines cur (b # bs) = (if b = 10 then strip_cr cur # split_lines [] bs else split_lines (cur @ [b]) bs)"

text \<open>
  A file that does not exist yet reads as an empty one and is created by the first append, so both are
  the empty byte list here. A line that is blank, not UTF-8 or not an entry is skipped; \<^verbatim>\<open>entry_from_line\<close> is \<open>None\<close> on all of them.
\<close>

definition wal_read_all :: "wal_codec \<Rightarrow> bytes \<Rightarrow> wal_entry list" where
  "wal_read_all cd wal = List.map_filter (entry_from_line cd) (split_lines [] wal)"

definition wal_truncate :: "bool \<Rightarrow> bytes \<Rightarrow> bytes \<times> (mcp_error, unit) result" where
  "wal_truncate disk_ok wal = (if disk_ok then ([], Inr ()) else (wal, Inl (WalIoError ''truncate'')))"

section \<open>Reading back\<close>

text \<open>
  What the code relies on of the JSON of one entry: it is one non-empty line without a trailing carriage
  return, it is read back, and no proper prefix of it is an entry.
\<close>

definition wal_codec_ok :: "wal_codec \<Rightarrow> bool" where
  "wal_codec_ok cd \<longleftrightarrow>
     (\<forall>e bs. entry_to_vec cd e = Inr bs \<longrightarrow>
        entry_from_line cd bs = Some e \<and> 10 \<notin> set bs \<and> bs \<noteq> [] \<and> last bs \<noteq> 13 \<and>
        (\<forall>n < length bs. entry_from_line cd (take n bs) = None))"

definition wal_line :: "wal_codec \<Rightarrow> wal_entry \<Rightarrow> bytes" where
  "wal_line cd e = (case entry_to_vec cd e of Inr bs \<Rightarrow> bs | Inl _ \<Rightarrow> [])"

definition wal_accepts :: "wal_codec \<Rightarrow> wal_entry \<Rightarrow> bool" where
  "wal_accepts cd e = (is_Ok (entry_to_vec cd e) \<and> \<not> wal_blocked cd (wal_line cd e))"

definition wal_file :: "wal_codec \<Rightarrow> wal_entry list \<Rightarrow> bytes" where
  "wal_file cd es = concat (map (\<lambda>e. wal_line cd e @ [10]) es)"

lemma wal_append_ok:
  "wal_append cd ok wal e = (if ok \<and> wal_accepts cd e then (wal @ wal_line cd e @ [10], Inr ()) else (wal, snd (wal_append cd ok wal e)))"
  "is_Ok (snd (wal_append cd ok wal e)) \<longleftrightarrow> ok \<and> wal_accepts cd e"
  by (auto simp: wal_append_def wal_accepts_def wal_line_def split: sum.splits)

lemma split_lines_line: "10 \<notin> set l \<Longrightarrow> split_lines cur (l @ 10 # bs) = strip_cr (cur @ l) # split_lines [] bs"
  by (induction l arbitrary: cur) auto

lemma split_lines_tail: "10 \<notin> set l \<Longrightarrow> split_lines cur l = (if cur @ l = [] then [] else [cur @ l])"
  by (induction l arbitrary: cur) auto

lemma wal_line_ok:
  assumes "wal_codec_ok cd" "wal_accepts cd e"
  shows "entry_from_line cd (wal_line cd e) = Some e" "10 \<notin> set (wal_line cd e)" "strip_cr (wal_line cd e) = wal_line cd e"
    "n < length (wal_line cd e) \<Longrightarrow> entry_from_line cd (take n (wal_line cd e)) = None"
  using assms by (auto simp: wal_codec_ok_def wal_accepts_def wal_line_def strip_cr_def is_Ok_def split: sum.splits)

text \<open>The log reads back as the entries appended to it, whatever part of one more entry a crash left behind them.\<close>

lemma wal_round_trip:
  assumes "wal_codec_ok cd" "\<forall>e \<in> set es. wal_accepts cd e" "torn = [] \<or> (\<exists>e n. wal_accepts cd e \<and> n < length (wal_line cd e) \<and> torn = take n (wal_line cd e))"
  shows "wal_read_all cd (wal_file cd es @ torn) = es"
proof -
  have torn: "10 \<notin> set torn" "torn \<noteq> [] \<Longrightarrow> entry_from_line cd torn = None"
    using assms(3) wal_line_ok [OF assms(1)] by (auto dest: in_set_takeD)
  have "List.map_filter (entry_from_line cd) (split_lines [] (wal_file cd es @ torn)) = es"
    using assms(2)
  proof (induction es)
    case Nil
    then show ?case using torn by (simp add: wal_file_def split_lines_tail List.map_filter_def)
  next
    case (Cons e es)
    note e = wal_line_ok [OF assms(1), of e]
    have "wal_file cd (e # es) @ torn = wal_line cd e @ 10 # (wal_file cd es @ torn)" by (simp add: wal_file_def)
    then show ?case
      using Cons e by (simp add: split_lines_line List.map_filter_def)
  qed
  then show ?thesis by (simp add: wal_read_all_def)
qed

end
