(* ===== verification/Mesh_Tx.thy ===== *)
theory Mesh_Tx
  imports Mesh_Wal
begin

text \<open>
  The two-phase commit coordinator of \<^verbatim>\<open>mcp-mesh/src/mesh.rs\<close> over the registry of
  \<^verbatim>\<open>mcp-mesh/src/server_registry.rs\<close> and the write-ahead log of theory \<open>Mesh_Wal\<close>. Participants are
  remote: what each call to a \<^verbatim>\<open>ParticipantClient\<close> returns, the order in which concurrent calls finish,
  the clock and the acceptance of disk writes are the fields of a \<open>network\<close>. A phase returns the list of
  its effects in order, the completed calls, log entries and queue insertions, with its result; every
  effect is a point where the future awaits, so a timeout or a crash keeps a prefix of that list. The
  latency and the creation time of the records, which no modelled code reads, are left out.
\<close>

section \<open>State\<close>

record mesh_server =
  server_id :: string
  endpoint :: string
  capabilities :: "string list"
  last_heartbeat :: int

definition is_alive :: "mesh_server \<Rightarrow> int \<Rightarrow> nat \<Rightarrow> bool" where
  "is_alive s now timeout_ms = (let elapsed = now - last_heartbeat s in 0 \<le> elapsed \<and> elapsed \<le> int timeout_ms)"

record mesh_config =
  transaction_timeout_ms :: nat
  heartbeat_timeout_ms :: nat
  max_retries :: nat
  max_participants :: nat
  registry_capacity :: nat
  durable_log :: bool
  wal_path :: "string option"
  background_probe_interval_ms :: nat

definition mesh_config_default :: mesh_config where
  "mesh_config_default =
     \<lparr>transaction_timeout_ms = 200, heartbeat_timeout_ms = 5000, max_retries = 2, max_participants = 32,
      registry_capacity = 256, durable_log = True, wal_path = None, background_probe_interval_ms = 60000\<rparr>"

record pending_compensation =
  pc_transaction_id :: string
  failed_participants :: "string list"
  retries :: nat

record mcp_mesh =
  config :: mesh_config
  registry :: "string \<rightharpoonup> mesh_server"
  wal_store :: "bytes option"
  pending_compensations :: "string \<rightharpoonup> pending_compensation"

record transaction_result =
  result_tx :: string
  success :: bool
  committed_servers :: "string list"

text \<open>
  The number passed to a call counts the earlier calls of the same phase to the same server; \<open>arrivals\<close>
  and \<open>iteration\<close> are the completion order of concurrent calls and the order of a hash map.
\<close>

record network =
  on_prepare :: "mesh_server \<Rightarrow> string \<Rightarrow> string \<Rightarrow> nat \<Rightarrow> (mcp_error, unit) result"
  on_commit :: "mesh_server \<Rightarrow> string \<Rightarrow> nat \<Rightarrow> (mcp_error, unit) result"
  on_rollback :: "mesh_server \<Rightarrow> string \<Rightarrow> (mcp_error, unit) result"
  arrivals :: "string list \<Rightarrow> string list"
  iteration :: "string list \<Rightarrow> string list"
  now_ms :: "transaction_state \<Rightarrow> nat"
  disk_ok :: bool
  wal_cd :: wal_codec

datatype act =
    Prepared string | PrepareFailed string
  | Committed string | CommitFailed string
  | RolledBack string | RollbackFailed string
  | Queued string
  | Logged wal_entry

fun is_protocol :: "mcp_error \<Rightarrow> bool" where
  "is_protocol (ProtocolError s r) = True"
| "is_protocol _ = False"

section \<open>Prepare\<close>

text \<open>The first, concurrent round: a rejection ends it, other errors are collected.\<close>

fun first_round ::
  "network \<Rightarrow> (string \<rightharpoonup> mesh_server) \<Rightarrow> string \<Rightarrow> string \<Rightarrow> string list \<Rightarrow> string list \<Rightarrow> mcp_error list \<Rightarrow>
   act list \<times> (mcp_error, string list \<times> mcp_error list) result" where
  "first_round net reg tx op [] acked errs = ([], Inr (acked, errs))"
| "first_round net reg tx op (sid # sids) acked errs =
     (case (case reg sid of None \<Rightarrow> Inl (ServerNotFound sid) | Some s \<Rightarrow> on_prepare net s tx op 0) of
        Inr _ \<Rightarrow>
          (let (acts, r) = first_round net reg tx op sids (acked @ [sid]) errs in (Prepared sid # acts, r))
      | Inl e \<Rightarrow>
          if is_protocol e then ([PrepareFailed sid], Inl e)
          else (let (acts, r) = first_round net reg tx op sids acked (errs @ [e]) in (PrepareFailed sid # acts, r)))"

text \<open>The retries for one server: an error to return, an acknowledgement, or the last error when all are used.\<close>

fun retry_prepare ::
  "network \<Rightarrow> (string \<rightharpoonup> mesh_server) \<Rightarrow> string \<Rightarrow> string \<Rightarrow> string \<Rightarrow> nat \<Rightarrow> nat \<Rightarrow> mcp_error \<Rightarrow>
   act list \<times> (mcp_error, mcp_error option) result" where
  "retry_prepare net reg tx op sid attempt 0 last_err = ([], Inr (Some last_err))"
| "retry_prepare net reg tx op sid attempt (Suc n) last_err =
     (case reg sid of
        None \<Rightarrow> ([], Inl (ServerNotFound sid))
      | Some s \<Rightarrow>
          (case on_prepare net s tx op (attempt + 1) of
             Inr _ \<Rightarrow> ([Prepared sid], Inr None)
           | Inl e \<Rightarrow>
               if is_protocol e then ([PrepareFailed sid], Inl e)
               else (let (acts, r) = retry_prepare net reg tx op sid (attempt + 1) n e in (PrepareFailed sid # acts, r))))"

fun retry_round ::
  "network \<Rightarrow> (string \<rightharpoonup> mesh_server) \<Rightarrow> nat \<Rightarrow> string \<Rightarrow> string \<Rightarrow> string list \<Rightarrow> string list \<Rightarrow> mcp_error list \<Rightarrow>
   act list \<times> (mcp_error, string list) result" where
  "retry_round net reg m tx op [] acked errs = ([], Inr acked)"
| "retry_round net reg m tx op (sid # sids) acked errs =
     (case retry_prepare net reg tx op sid 0 m (case errs of e # _ \<Rightarrow> e | [] \<Rightarrow> NetworkError sid [] ''unknown'') of
        (acts, Inl e) \<Rightarrow> (acts, Inl e)
      | (acts, Inr None) \<Rightarrow>
          (let (acts', r) = retry_round net reg m tx op sids (acked @ [sid]) errs in (acts @ acts', r))
      | (acts, Inr (Some last_err)) \<Rightarrow>
          if sid \<notin> set acked then (acts, Inl last_err)
          else (let (acts', r) = retry_round net reg m tx op sids acked errs in (acts @ acts', r)))"

text \<open>A log write that fails is only reported.\<close>

definition log_entry :: "network \<Rightarrow> mcp_mesh \<Rightarrow> string \<Rightarrow> transaction_state \<Rightarrow> string list \<Rightarrow> act list" where
  "log_entry net m tx st sids =
     (let e = \<lparr>entry_tx = tx, entry_state = st, participants_ack = sids, entry_timestamp = now_ms net st\<rparr>
      in case wal_store m of
           None \<Rightarrow> []
         | Some wal \<Rightarrow> (if is_Ok (snd (wal_append (wal_cd net) (disk_ok net) wal e)) then [Logged e] else []))"

definition prepare_phase ::
  "network \<Rightarrow> mcp_mesh \<Rightarrow> quantum_transaction \<Rightarrow> string \<Rightarrow> act list \<times> (mcp_error, unit) result" where
  "prepare_phase net m tx op =
     (case first_round net (registry m) (transaction_id tx) op (arrivals net (participant_servers tx)) [] [] of
        (acts, Inl e) \<Rightarrow> (acts, Inl e)
      | (acts, Inr (acked, errs)) \<Rightarrow>
          (case retry_round net (registry m) (max_retries (config m)) (transaction_id tx) op
                  (filter (\<lambda>sid. sid \<notin> set acked) (participant_servers tx)) acked errs of
             (acts', Inl e) \<Rightarrow> (acts @ acts', Inl e)
           | (acts', Inr acked') \<Rightarrow>
               (acts @ acts' @ log_entry net m (transaction_id tx) TxPrepare acked', Inr ())))"

section \<open>Commit and rollback\<close>

fun try_commit :: "network \<Rightarrow> mesh_server \<Rightarrow> string \<Rightarrow> string \<Rightarrow> nat \<Rightarrow> nat \<Rightarrow> act list \<times> bool" where
  "try_commit net s sid tx attempt 0 = ([], False)"
| "try_commit net s sid tx attempt (Suc n) =
     (case on_commit net s tx attempt of
        Inr _ \<Rightarrow> ([Committed sid], True)
      | Inl e \<Rightarrow> (let (acts, ok) = try_commit net s sid tx (attempt + 1) n in (CommitFailed sid # acts, ok)))"

fun commit_loop ::
  "network \<Rightarrow> (string \<rightharpoonup> mesh_server) \<Rightarrow> nat \<Rightarrow> string \<Rightarrow> string list \<Rightarrow> string list \<Rightarrow> string list \<Rightarrow>
   act list \<times> (mcp_error, string list \<times> string list) result" where
  "commit_loop net reg m tx [] committed failed = ([], Inr (committed, failed))"
| "commit_loop net reg m tx (sid # sids) committed failed =
     (case reg sid of
        None \<Rightarrow> ([], Inl (ServerNotFound sid))
      | Some s \<Rightarrow>
          (let (acts, ok) = try_commit net s sid tx 0 (m + 1)
           in if ok
              then (let (acts', r) = commit_loop net reg m tx sids (committed @ [sid]) failed in (acts @ acts', r))
              else (let (acts', r) = commit_loop net reg m tx sids committed (failed @ [sid])
                    in (acts @ [Queued sid] @ acts', r))))"

definition commit_phase :: "network \<Rightarrow> mcp_mesh \<Rightarrow> quantum_transaction \<Rightarrow> act list \<times> (mcp_error, unit) result" where
  "commit_phase net m tx =
     (case commit_loop net (registry m) (max_retries (config m)) (transaction_id tx) (participant_servers tx) [] [] of
        (acts, Inl e) \<Rightarrow> (acts, Inl e)
      | (acts, Inr (committed, failed)) \<Rightarrow>
          if failed \<noteq> [] then (acts, Inl (CompensationFailed (transaction_id tx) 0 failed))
          else (acts @ log_entry net m (transaction_id tx) TxCommit committed, Inr ()))"

fun rollback_loop :: "network \<Rightarrow> (string \<rightharpoonup> mesh_server) \<Rightarrow> string \<Rightarrow> string list \<Rightarrow> act list" where
  "rollback_loop net reg tx [] = []"
| "rollback_loop net reg tx (sid # sids) =
     (case reg sid of
        None \<Rightarrow> []
      | Some s \<Rightarrow> (case on_rollback net s tx of Inr _ \<Rightarrow> [RolledBack sid] | Inl e \<Rightarrow> [RollbackFailed sid])) @
     rollback_loop net reg tx sids"

definition rollback_phase :: "network \<Rightarrow> mcp_mesh \<Rightarrow> quantum_transaction \<Rightarrow> act list" where
  "rollback_phase net m tx = rollback_loop net (registry m) (transaction_id tx) (arrivals net (participant_servers tx))"

section \<open>A transaction\<close>

definition run_2pc ::
  "network \<Rightarrow> mcp_mesh \<Rightarrow> quantum_transaction \<Rightarrow> string \<Rightarrow> act list \<times> (mcp_error, string list option) result" where
  "run_2pc net m tx op =
     (case transition tx TxPrepare of
        (_, Inl e) \<Rightarrow> ([], Inl e)
      | (tx1, Inr _) \<Rightarrow>
          (case prepare_phase net m tx1 op of
             (acts, Inr _) \<Rightarrow>
               (case transition tx1 TxCommit of
                  (_, Inl e) \<Rightarrow> (acts, Inl e)
                | (tx2, Inr _) \<Rightarrow>
                    (case commit_phase net m tx2 of
                       (acts', Inl e) \<Rightarrow> (acts @ acts', Inl e)
                     | (acts', Inr _) \<Rightarrow> (acts @ acts', Inr (Some (participant_servers tx2)))))
           | (acts, Inl _) \<Rightarrow>
               (case transition tx1 TxAbort of
                  (_, Inl e) \<Rightarrow> (acts, Inl e)
                | (tx2, Inr _) \<Rightarrow>
                    (case transition tx2 TxRollback of
                       (_, Inl e) \<Rightarrow> (acts @ rollback_phase net m tx2, Inl e)
                     | (_, Inr _) \<Rightarrow> (acts @ rollback_phase net m tx2, Inr None)))))"

text \<open>What the effects leave in the coordinator: log lines and the queue of commits to repeat.\<close>

fun apply_act :: "wal_codec \<Rightarrow> string \<Rightarrow> mcp_mesh \<Rightarrow> act \<Rightarrow> mcp_mesh" where
  "apply_act cd tx m (Logged e) =
     m\<lparr>wal_store := (case wal_store m of None \<Rightarrow> None | Some wal \<Rightarrow> Some (fst (wal_append cd True wal e)))\<rparr>"
| "apply_act cd tx m (Queued sid) =
     (let pc = map_default \<lparr>pc_transaction_id = tx, failed_participants = [], retries = 0\<rparr> (pending_compensations m) tx
      in m\<lparr>pending_compensations :=
             (pending_compensations m)(tx \<mapsto> pc\<lparr>failed_participants := failed_participants pc @ [sid]\<rparr>)\<rparr>)"
| "apply_act cd tx m _ = m"

fun check_participants :: "mcp_mesh \<Rightarrow> int \<Rightarrow> string list \<Rightarrow> (mcp_error, unit) result" where
  "check_participants m now [] = Inr ()"
| "check_participants m now (sid # sids) =
     (case registry m sid of
        None \<Rightarrow> Inl (ServerNotFound sid)
      | Some s \<Rightarrow>
          if \<not> is_alive s now (heartbeat_timeout_ms (config m)) then Inl (ServerUnreachable sid)
          else check_participants m now sids)"

text \<open>
  The argument \<open>stop\<close> is the number of effects after which the overall timeout fires, if it fires before
  the protocol has finished; \<open>tx_id\<close> is the fresh identifier.
\<close>

definition execute_transaction ::
  "network \<Rightarrow> mcp_mesh \<Rightarrow> string \<Rightarrow> int \<Rightarrow> string list \<Rightarrow> string \<Rightarrow> nat option \<Rightarrow>
   mcp_mesh \<times> act list \<times> (mcp_error, transaction_result) result" where
  "execute_transaction net m tx_id now participants op stop =
     (if max_participants (config m) < length participants
      then (m, [], Inl (TooManyParticipants (length participants) (max_participants (config m))))
      else (case check_participants m now participants of
              Inl e \<Rightarrow> (m, [], Inl e)
            | Inr _ \<Rightarrow>
                (let tx = tx_with_id tx_id participants (nat now); (acts, outcome) = run_2pc net m tx op;
                     timed_out = (case stop of None \<Rightarrow> False | Some k \<Rightarrow> k < length acts);
                     done = (if timed_out then take (the stop) acts @ rollback_phase net m tx else acts);
                     m' = foldl (apply_act (wal_cd net) tx_id) m done
                 in (m', done,
                     if timed_out then Inl (TransactionTimeout tx_id (transaction_timeout_ms (config m)))
                     else (case outcome of
                             Inr committed \<Rightarrow>
                               Inr \<lparr>result_tx = tx_id, success = (committed \<noteq> None),
                                    committed_servers = (case committed of None \<Rightarrow> [] | Some sids \<Rightarrow> sids)\<rparr>
                           | Inl e \<Rightarrow> Inr \<lparr>result_tx = tx_id, success = False, committed_servers = []\<rparr>)))))"

section \<open>Recovery\<close>

definition final_state :: "wal_entry list \<Rightarrow> string \<rightharpoonup> wal_entry" where
  "final_state es =
     foldl (\<lambda>f e. case f (entry_tx e) of
         None \<Rightarrow> f(entry_tx e \<mapsto> e)
       | Some old \<Rightarrow> if entry_timestamp old < entry_timestamp e then f(entry_tx e \<mapsto> e) else f) Map.empty es"

fun recover_loop ::
  "network \<Rightarrow> (string \<rightharpoonup> wal_entry) \<Rightarrow> string list \<Rightarrow> mcp_mesh \<Rightarrow> mcp_mesh \<times> (string \<times> act) list \<times> string list" where
  "recover_loop net fin [] m = (m, [], [])"
| "recover_loop net fin (t # ts) m =
     (case fin t of
        None \<Rightarrow> recover_loop net fin ts m
      | Some e \<Rightarrow>
          if entry_state e \<noteq> TxPrepare then recover_loop net fin ts m
          else (let tx = (tx_with_id t (participants_ack e) 0)\<lparr>tx_state := TxPrepare\<rparr>
                in case transition tx TxCommit of
                     (_, Inl _) \<Rightarrow> recover_loop net fin ts m
                   | (tx1, Inr _) \<Rightarrow>
                       (let (acts, _) = commit_phase net m tx1;
                            (m', more, rec) = recover_loop net fin ts (foldl (apply_act (wal_cd net) t) m acts)
                        in (m', map (Pair t) acts @ more, t # rec))))"

definition recover_from_wal ::
  "network \<Rightarrow> mcp_mesh \<Rightarrow> mcp_mesh \<times> (string \<times> act) list \<times> (mcp_error, string list) result" where
  "recover_from_wal net m =
     (case wal_store m of
        None \<Rightarrow> (m, [], Inl (WalIoError ''WAL disabled''))
      | Some wal \<Rightarrow>
          (let entries = wal_read_all (wal_cd net) wal
           in if entries = [] then (m, [], Inr [])
              else (let (m', acts, rec) =
                          recover_loop net (final_state entries) (iteration net (remdups (map entry_tx entries))) m
                    in (m'\<lparr>wal_store := map_option (\<lambda>w. fst (wal_truncate (disk_ok net) w)) (wal_store m')\<rparr>, acts, Inr rec))))"

section \<open>Reconciliation\<close>

text \<open>One server of one record: nothing is left to do, or the commit failed again.\<close>

fun reconcile_servers ::
  "network \<Rightarrow> (string \<rightharpoonup> mesh_server) \<Rightarrow> string \<Rightarrow> string list \<Rightarrow> act list \<times> string list" where
  "reconcile_servers net reg tx [] = ([], [])"
| "reconcile_servers net reg tx (sid # sids) =
     (let (acts, still) = reconcile_servers net reg tx sids
      in case reg sid of
           None \<Rightarrow> (acts, still)
         | Some s \<Rightarrow>
             (case on_commit net s tx 0 of
                Inr _ \<Rightarrow> (Committed sid # acts, still)
              | Inl e \<Rightarrow> (CommitFailed sid # acts, sid # still)))"

fun reconcile_loop ::
  "network \<Rightarrow> string list \<Rightarrow> mcp_mesh \<Rightarrow> mcp_mesh \<times> (string \<times> act) list \<times> pending_compensation list" where
  "reconcile_loop net [] m = (m, [], [])"
| "reconcile_loop net (t # ts) m =
     (case pending_compensations m t of
        None \<Rightarrow> reconcile_loop net ts m
      | Some pc \<Rightarrow>
          (let (acts, still) = reconcile_servers net (registry m) t (failed_participants pc);
               pc' = pc\<lparr>retries := retries pc + 1, failed_participants := still\<rparr>;
               give_up = (still \<noteq> [] \<and> max_retries (config m) \<le> retries pc + 1);
               m1 = m\<lparr>pending_compensations :=
                        (pending_compensations m)(t := (if still = [] \<or> give_up then None else Some pc'))\<rparr>;
               (m2, more, failing) = reconcile_loop net ts m1
           in (m2, map (Pair t) acts @ more, (if give_up then [pc'] else []) @ failing)))"

definition reconcile_pending_transactions ::
  "network \<Rightarrow> string list \<Rightarrow> mcp_mesh \<Rightarrow> mcp_mesh \<times> (string \<times> act) list \<times> pending_compensation list" where
  "reconcile_pending_transactions net tx_ids m = reconcile_loop net tx_ids m"

definition pending_compensation_count :: "mcp_mesh \<Rightarrow> nat" where
  "pending_compensation_count m = card (dom (pending_compensations m))"

end
