(* ===== verification/Mesh_Safety.thy ===== *)
theory Mesh_Safety
  imports Mesh_Tx
begin

text \<open>
  What the coordinator of theory \<open>Mesh_Tx\<close> guarantees, and what it does not: the shape of a run, the
  agreement between commits and acknowledgements, crash recovery, and the two ways in which a decided
  transaction ends differently at different participants.
\<close>

section \<open>The shape of a run\<close>

fun is_prep :: "act \<Rightarrow> bool" where
  "is_prep (Prepared s) = True"
| "is_prep (PrepareFailed s) = True"
| "is_prep _ = False"

fun is_commit :: "act \<Rightarrow> bool" where
  "is_commit (Committed s) = True"
| "is_commit (CommitFailed s) = True"
| "is_commit _ = False"

fun is_roll :: "act \<Rightarrow> bool" where
  "is_roll (RolledBack s) = True"
| "is_roll (RollbackFailed s) = True"
| "is_roll _ = False"

lemma first_round_acts:
  "first_round net reg tx op sids acked errs = (acts, r) \<Longrightarrow>
   (\<forall>a \<in> set acts. is_prep a) \<and>
   (\<forall>acked' errs'. r = Inr (acked', errs') \<longrightarrow> set acked \<subseteq> set acked' \<and>
      set acked' \<subseteq> set acked \<union> {p \<in> set sids. Prepared p \<in> set acts})"
proof (induction sids arbitrary: acked errs acts r)
  case (Cons sid sids)
  let ?c = "case reg sid of None \<Rightarrow> Inl (ServerNotFound sid) | Some s \<Rightarrow> on_prepare net s tx op 0"
  show ?case
  proof (cases ?c)
    case (Inr u)
    obtain a1 r1 where f: "first_round net reg tx op sids (acked @ [sid]) errs = (a1, r1)" by force
    have "acts = Prepared sid # a1" "r = r1" using Cons.prems Inr f by simp_all
    with Cons.IH [OF f] show ?thesis by fastforce
  next
    case (Inl e)
    obtain a1 r1 where f: "first_round net reg tx op sids acked (errs @ [e]) = (a1, r1)" by force
    have "acts = [PrepareFailed sid] \<and> r = Inl e \<or> acts = PrepareFailed sid # a1 \<and> r = r1"
      using Cons.prems Inl f by (auto split: if_splits)
    with Cons.IH [OF f] show ?thesis by fastforce
  qed
qed simp

lemma retry_prepare_acts:
  "retry_prepare net reg tx op sid k n e = (acts, r) \<Longrightarrow>
   (\<forall>a \<in> set acts. is_prep a) \<and> (r = Inr None \<longrightarrow> Prepared sid \<in> set acts)"
proof (induction n arbitrary: k e acts)
  case (Suc n)
  show ?case
  proof (cases "reg sid")
    case (Some s)
    show ?thesis
    proof (cases "on_prepare net s tx op (k + 1)")
      case (Inl e')
      obtain a1 r1 where f: "retry_prepare net reg tx op sid (k + 1) n e' = (a1, r1)" by force
      have "acts = [PrepareFailed sid] \<and> r = Inl e' \<or> acts = PrepareFailed sid # a1 \<and> r = r1"
        using Suc.prems Some Inl f by (auto split: if_splits)
      with Suc.IH f show ?thesis by fastforce
    qed (use Suc.prems Some in auto)
  qed (use Suc.prems in auto)
qed auto

lemma retry_round_acts:
  "retry_round net reg m tx op sids acked errs = (acts, r) \<Longrightarrow>
   (\<forall>a \<in> set acts. is_prep a) \<and>
   (\<forall>acked'. r = Inr acked' \<longrightarrow> set acked \<union> set sids \<subseteq> set acked' \<and>
      set acked' \<subseteq> set acked \<union> {p \<in> set sids. Prepared p \<in> set acts})"
proof (induction sids arbitrary: acked acts r)
  case (Cons sid sids)
  let ?e = "case errs of e # _ \<Rightarrow> e | [] \<Rightarrow> NetworkError sid [] ''unknown''"
  obtain a0 r0 where p: "retry_prepare net reg tx op sid 0 m ?e = (a0, r0)" by force
  note pa = retry_prepare_acts [OF p]
  show ?case
  proof (cases r0)
    case (Inl e)
    then show ?thesis using Cons.prems p pa by auto
  next
    case (Inr w)
    show ?thesis
    proof (cases w)
      case None
      obtain a1 r1 where f: "retry_round net reg m tx op sids (acked @ [sid]) errs = (a1, r1)" by force
      have "acts = a0 @ a1" "r = r1" using Cons.prems p Inr None f by simp_all
      with Cons.IH [OF f] pa Inr None show ?thesis by fastforce
    next
      case (Some e)
      obtain a1 r1 where f: "retry_round net reg m tx op sids acked errs = (a1, r1)" by force
      have "acts = a0 \<and> r = Inl e \<or> acts = a0 @ a1 \<and> r = r1 \<and> sid \<in> set acked"
        using Cons.prems p Inr Some f by (auto split: if_splits)
      with Cons.IH [OF f] pa show ?thesis by fastforce
    qed
  qed
qed simp

lemma prepare_phase_acts:
  assumes "prepare_phase net m tx op = (acts, r)"
  shows "(r \<noteq> Inr () \<longrightarrow> (\<forall>a \<in> set acts. is_prep a)) \<and>
    (r = Inr () \<longrightarrow> (\<exists>P acked. acts = P @ log_entry net m (transaction_id tx) TxPrepare acked \<and>
       (\<forall>a \<in> set P. is_prep a) \<and> set (participant_servers tx) \<subseteq> set acked \<and>
       set acked \<subseteq> set (arrivals net (participant_servers tx)) \<union> set (participant_servers tx) \<and>
       (\<forall>p \<in> set acked. Prepared p \<in> set P)))"
proof -
  let ?ps = "participant_servers tx"
  obtain a0 r0 where f: "first_round net (registry m) (transaction_id tx) op (arrivals net ?ps) [] [] = (a0, r0)" by force
  note fa = first_round_acts [OF f]
  show ?thesis
  proof (cases r0)
    case (Inl e)
    then show ?thesis using assms f fa by (auto simp: prepare_phase_def)
  next
    case (Inr q)
    obtain acked errs where q: "q = (acked, errs)" by force
    obtain a1 r1 where g: "retry_round net (registry m) (max_retries (config m)) (transaction_id tx) op
        (filter (\<lambda>sid. sid \<notin> set acked) ?ps) acked errs = (a1, r1)" by force
    note ga = retry_round_acts [OF g]
    show ?thesis
    proof (cases r1)
      case (Inl e)
      then show ?thesis using assms f fa g ga Inr q by (auto simp: prepare_phase_def)
    next
      case (Inr acked')
      have a: "acts = a0 @ a1 @ log_entry net m (transaction_id tx) TxPrepare acked'" "r = Inr ()"
        using assms f g \<open>r0 = Inr q\<close> q Inr by (simp_all add: prepare_phase_def)
      have "set ?ps \<subseteq> set acked'" using ga Inr by fastforce
      moreover have "\<forall>p \<in> set acked'. Prepared p \<in> set (a0 @ a1)" "set acked' \<subseteq> set (arrivals net ?ps) \<union> set ?ps"
        using ga fa Inr \<open>r0 = Inr q\<close> q by fastforce+
      moreover have "\<forall>x \<in> set (a0 @ a1). is_prep x" using fa ga by auto
      ultimately show ?thesis using a by (metis append.assoc)
    qed
  qed
qed

text \<open>Every call that may be repeated is one of a server whose commit either succeeded in the end or was queued.\<close>

lemma try_commit_acts:
  "try_commit net s sid tx k n = (acts, ok) \<Longrightarrow>
   set acts \<subseteq> {Committed sid, CommitFailed sid} \<and> (ok \<longleftrightarrow> Committed sid \<in> set acts)"
proof (induction n arbitrary: k acts ok)
  case (Suc n)
  show ?case
  proof (cases "on_commit net s tx k")
    case (Inl e)
    obtain a1 o1 where f: "try_commit net s sid tx (k + 1) n = (a1, o1)" by force
    with Suc.prems Inl have "acts = CommitFailed sid # a1" "ok = o1" by simp_all
    with Suc.IH [OF f] show ?thesis by auto
  qed (use Suc.prems in auto)
qed auto

definition queued_of :: "act list \<Rightarrow> string list" where
  "queued_of acts = List.map_filter (\<lambda>a. case a of Queued s \<Rightarrow> Some s | _ \<Rightarrow> None) acts"

definition logged_of :: "act list \<Rightarrow> wal_entry list" where
  "logged_of acts = List.map_filter (\<lambda>a. case a of Logged e \<Rightarrow> Some e | _ \<Rightarrow> None) acts"

lemma of_append [simp]:
  "queued_of (xs @ ys) = queued_of xs @ queued_of ys" "logged_of (xs @ ys) = logged_of xs @ logged_of ys"
  "queued_of [] = []" "logged_of [] = []"
  by (simp_all add: queued_of_def logged_of_def List.map_filter_def)

lemma of_Cons [simp]:
  "queued_of (a # xs) = (case a of Queued s \<Rightarrow> s # queued_of xs | _ \<Rightarrow> queued_of xs)"
  "logged_of (a # xs) = (case a of Logged e \<Rightarrow> e # logged_of xs | _ \<Rightarrow> logged_of xs)"
  by (auto simp: queued_of_def logged_of_def List.map_filter_def split: act.splits)

lemma no_logged: "\<forall>a \<in> set acts. is_prep a \<or> is_commit a \<or> is_roll a \<or> (\<exists>s. a = Queued s) \<Longrightarrow> logged_of acts = []"
  by (induction acts) (auto split: act.splits)

lemma no_queued: "\<forall>a \<in> set acts. is_prep a \<or> is_commit a \<or> is_roll a \<or> (\<exists>e. a = Logged e) \<Longrightarrow> queued_of acts = []"
  by (induction acts) (auto split: act.splits)

lemma commit_loop_acts:
  "commit_loop net reg m tx sids committed failed = (acts, r) \<Longrightarrow>
   (\<forall>a \<in> set acts. \<exists>s \<in> set sids. reg s \<noteq> None \<and> a \<in> {Committed s, CommitFailed s, Queued s}) \<and>
   (\<forall>e. r = Inl e \<longrightarrow> (\<exists>s \<in> set sids. reg s = None)) \<and>
   (\<forall>c f. r = Inr (c, f) \<longrightarrow>
      f = failed @ queued_of acts \<and> (\<forall>s \<in> set sids. Committed s \<in> set acts \<or> s \<in> set (queued_of acts)) \<and>
      (queued_of acts = [] \<longrightarrow> c = committed @ sids))"
proof (induction sids arbitrary: committed failed acts r)
  case (Cons sid sids)
  show ?case
  proof (cases "reg sid")
    case None
    then show ?thesis using Cons.prems by auto
  next
    case (Some s)
    obtain a0 ok where t: "try_commit net s sid tx 0 (m + 1) = (a0, ok)" by force
    note ta = try_commit_acts [OF t]
    have q0: "queued_of a0 = []" using ta by (intro no_queued) auto
    obtain a1 r1 where l: "commit_loop net reg m tx sids (if ok then committed @ [sid] else committed)
        (if ok then failed else failed @ [sid]) = (a1, r1)" by force
    note IH = Cons.IH [OF l]
    have a: "acts = (if ok then a0 @ a1 else a0 @ [Queued sid] @ a1)" "r = r1"
      using Cons.prems Some t l by (auto split: if_splits)
    have mem: "\<exists>s \<in> set (sid # sids). reg s \<noteq> None \<and> x \<in> {Committed s, CommitFailed s, Queued s}" if "x \<in> set acts" for x
    proof -
      have "x \<in> set a0 \<or> x = Queued sid \<or> x \<in> set a1" using that by (auto simp: a split: if_splits)
      then show ?thesis
      proof (elim disjE)
        assume "x \<in> set a1"
        with IH show ?thesis by (meson list.set_intros(2))
      qed (use ta Some in auto)
    qed
    have q: "queued_of acts = (if ok then [] else [sid]) @ queued_of a1" by (simp add: a q0)
    show ?thesis
    proof (intro conjI allI impI ballI)
      fix c f assume r: "r = Inr (c, f)"
      note R = conjunct2 [OF conjunct2 [OF IH], rule_format, of c f]
      show "f = failed @ queued_of acts" using R r a(2) q by simp
      show "queued_of acts = [] \<Longrightarrow> c = committed @ sid # sids" using R r a(2) q by (simp split: if_splits)
      show "Committed x \<in> set acts \<or> x \<in> set (queued_of acts)" if "x \<in> set (sid # sids)" for x
        using that R r a q ta by (auto split: if_splits)
    qed (use mem IH a(2) in auto)
  qed
qed auto

text \<open>Participants that answer every commit within the attempts the configuration allows.\<close>

definition responsive :: "network \<Rightarrow> mcp_mesh \<Rightarrow> string \<Rightarrow> string list \<Rightarrow> bool" where
  "responsive net m tx sids \<longleftrightarrow>
     (\<forall>sid \<in> set sids. \<exists>s. registry m sid = Some s \<and> (\<exists>k \<le> max_retries (config m). on_commit net s tx k = Inr ()))"

lemma try_commit_responsive:
  "on_commit net s tx k = Inr () \<Longrightarrow> j \<le> k \<Longrightarrow> k < j + n \<Longrightarrow> snd (try_commit net s sid tx j n)"
proof (induction n arbitrary: j)
  case (Suc n)
  show ?case
  proof (cases "j = k")
    case False
    then have "snd (try_commit net s sid tx (j + 1) n)" using Suc by simp
    then show ?thesis by (auto split: sum.splits prod.splits)
  qed (use Suc.prems in simp)
qed simp

lemma commit_loop_responsive:
  "responsive net m tx sids \<Longrightarrow>
   \<exists>acts. commit_loop net (registry m) (max_retries (config m)) tx sids committed failed = (acts, Inr (committed @ sids, failed)) \<and>
     (\<forall>s \<in> set sids. Committed s \<in> set acts)"
proof (induction sids arbitrary: committed)
  case (Cons sid sids)
  obtain s k where s: "registry m sid = Some s" "on_commit net s tx k = Inr ()" "k \<le> max_retries (config m)"
    using Cons.prems by (auto simp: responsive_def)
  obtain a0 ok where t: "try_commit net s sid tx 0 (max_retries (config m) + 1) = (a0, ok)" by force
  have "ok" using try_commit_responsive [OF s(2), of 0 "max_retries (config m) + 1" sid] s(3) t by simp
  moreover have "responsive net m tx sids" using Cons.prems by (simp add: responsive_def)
  then obtain a1 where "commit_loop net (registry m) (max_retries (config m)) tx sids (committed @ [sid]) failed =
      (a1, Inr ((committed @ [sid]) @ sids, failed))" "\<forall>s \<in> set sids. Committed s \<in> set a1"
    using Cons.IH by blast
  ultimately show ?case using s(1) t try_commit_acts [OF t] by auto
qed simp

lemma commit_phase_responsive:
  "responsive net m (transaction_id tx) (participant_servers tx) \<Longrightarrow>
   \<exists>acts. commit_phase net m tx = (acts, Inr ()) \<and> (\<forall>s \<in> set (participant_servers tx). Committed s \<in> set acts)"
  using commit_loop_responsive [of net m "transaction_id tx" "participant_servers tx" "[]" "[]"]
  by (auto simp: commit_phase_def)

lemma log_entry_acts:
  "log_entry net m tx st sids = [] \<or>
   (let e = \<lparr>entry_tx = tx, entry_state = st, participants_ack = sids, entry_timestamp = now_ms net st\<rparr>
    in log_entry net m tx st sids = [Logged e] \<and> wal_accepts (wal_cd net) e)"
  using wal_append_ok(2) by (auto simp: log_entry_def Let_def split: option.splits)

lemma commit_phase_acts:
  assumes "commit_phase net m tx = (acts, r)"
  shows "\<exists>C L. acts = C @ L \<and> (\<forall>a \<in> set C. is_commit a \<or> (\<exists>s. a = Queued s)) \<and>
    (L = [] \<or> r = Inr () \<and> (\<exists>e. L = [Logged e] \<and> entry_tx e = transaction_id tx \<and> entry_state e = TxCommit \<and> wal_accepts (wal_cd net) e)) \<and>
    (r = Inr () \<longleftrightarrow> queued_of C = [] \<and> (\<forall>s \<in> set (participant_servers tx). Committed s \<in> set C)) \<and>
    (r \<noteq> Inr () \<and> (\<forall>s \<in> set (participant_servers tx). registry m s \<noteq> None) \<longrightarrow>
       queued_of C \<noteq> [] \<and> (\<forall>s \<in> set (participant_servers tx). Committed s \<in> set C \<or> s \<in> set (queued_of C)))"
proof -
  let ?ps = "participant_servers tx"
  obtain C q where c: "commit_loop net (registry m) (max_retries (config m)) (transaction_id tx) ?ps [] [] = (C, q)" by force
  note ca = commit_loop_acts [OF c]
  have shape: "\<forall>a \<in> set C. is_commit a \<or> (\<exists>s. a = Queued s)" using ca by fastforce
  have reg: "registry m s \<noteq> None" if "Committed s \<in> set C" for s using ca that by blast
  show ?thesis
  proof (cases q)
    case (Inl e)
    then obtain s where "s \<in> set ?ps" "registry m s = None" using ca by blast
    moreover have "acts = C" "r \<noteq> Inr ()" using assms c Inl by (auto simp: commit_phase_def)
    moreover have "Committed s \<notin> set C" using reg [of s] calculation(2) by auto
    ultimately have "acts = C @ []" "r \<noteq> Inr ()" "\<not> (\<forall>s \<in> set ?ps. Committed s \<in> set C)"
      "\<not> (\<forall>s \<in> set ?ps. registry m s \<noteq> None)" by auto
    with shape show ?thesis by blast
  next
    case (Inr w)
    obtain cs fs where w: "w = (cs, fs)" by force
    have R: "fs = queued_of C" "\<forall>s \<in> set ?ps. Committed s \<in> set C \<or> s \<in> set (queued_of C)" using ca Inr w by auto
    show ?thesis
    proof (cases "fs = []")
      case True
      let ?L = "log_entry net m (transaction_id tx) TxCommit cs"
      have a: "acts = C @ ?L" "r = Inr ()" using assms c Inr w True by (auto simp: commit_phase_def)
      show ?thesis
        using a R True shape log_entry_acts [of net m "transaction_id tx" TxCommit cs]
        by (intro exI [of _ C] exI [of _ ?L]) (auto simp: Let_def)
    next
      case False
      have a: "acts = C" "r \<noteq> Inr ()" using assms c Inr w False by (auto simp: commit_phase_def)
      then show ?thesis using R False shape by (intro exI [of _ C] exI [of _ "[]"]) auto
    qed
  qed
qed

lemma rollback_loop_acts:
  "(\<forall>a \<in> set (rollback_loop net reg tx sids). is_roll a) \<and>
   (\<forall>s \<in> set sids. reg s \<noteq> None \<longrightarrow> RolledBack s \<in> set (rollback_loop net reg tx sids) \<or> RollbackFailed s \<in> set (rollback_loop net reg tx sids))"
proof (induction sids)
  case (Cons sid sids)
  then show ?case
    by (cases "reg sid"; cases "on_rollback net (the (reg sid)) tx") auto
qed simp

lemma run_2pc_acts:
  assumes "run_2pc net m tx op = (acts, r)" "tx_state tx = TxInit"
  obtains (aborted) P where "acts = P @ rollback_phase net m tx" "\<forall>a \<in> set P. is_prep a" "r = Inr None"
  | (committing) P acked C c where "acts = P @ log_entry net m (transaction_id tx) TxPrepare acked @ C" "\<forall>a \<in> set P. is_prep a"
      "set (participant_servers tx) \<subseteq> set acked" "set acked \<subseteq> set (arrivals net (participant_servers tx)) \<union> set (participant_servers tx)"
      "\<forall>p \<in> set acked. Prepared p \<in> set P" "commit_phase net m (tx\<lparr>tx_state := TxCommit\<rparr>) = (C, c)"
      "r = (case c of Inl e \<Rightarrow> Inl e | Inr _ \<Rightarrow> Inr (Some (participant_servers tx)))"
proof -
  let ?tx1 = "tx\<lparr>tx_state := TxPrepare\<rparr>"
  have t1: "transition tx TxPrepare = (?tx1, Inr ())" using assms(2) by (simp add: transition_def)
  have t2: "transition ?tx1 TxCommit = (tx\<lparr>tx_state := TxCommit\<rparr>, Inr ())" "transition ?tx1 TxAbort = (tx\<lparr>tx_state := TxAbort\<rparr>, Inr ())"
    "transition (tx\<lparr>tx_state := TxAbort\<rparr>) TxRollback = (tx\<lparr>tx_state := TxRollback\<rparr>, Inr ())"
    by (simp_all add: transition_def)
  obtain A p where p: "prepare_phase net m ?tx1 op = (A, p)" by force
  note pa = prepare_phase_acts [OF p]
  show thesis
  proof (cases p)
    case (Inl e)
    have "acts = A @ rollback_phase net m tx" "r = Inr None"
      using assms(1) p Inl by (auto simp: run_2pc_def t1 t2 rollback_phase_def)
    moreover have "\<forall>a \<in> set A. is_prep a" using pa Inl by simp
    ultimately show thesis using aborted by blast
  next
    case (Inr u)
    obtain C c where c: "commit_phase net m (tx\<lparr>tx_state := TxCommit\<rparr>) = (C, c)" by force
    have a: "acts = A @ C" "r = (case c of Inl e \<Rightarrow> Inl e | Inr _ \<Rightarrow> Inr (Some (participant_servers tx)))"
      using assms(1) p Inr c by (auto simp: run_2pc_def t1 t2 split: sum.splits)
    obtain P acked where "A = P @ log_entry net m (transaction_id tx) TxPrepare acked" "\<forall>a \<in> set P. is_prep a"
      "set (participant_servers tx) \<subseteq> set acked"
      "set acked \<subseteq> set (arrivals net (participant_servers tx)) \<union> set (participant_servers tx)" "\<forall>p \<in> set acked. Prepared p \<in> set P"
      using pa Inr by auto
    with committing c a show thesis by (metis append.assoc)
  qed
qed

section \<open>The log a run leaves\<close>

lemma apply_acts_fields [simp]:
  "registry (foldl (apply_act cd tx) m acts) = registry m" "config (foldl (apply_act cd tx) m acts) = config m"
proof -
  have "registry (apply_act cd tx m a) = registry m \<and> config (apply_act cd tx m a) = config m" for m a
    by (cases a) (simp_all add: Let_def)
  then show "registry (foldl (apply_act cd tx) m acts) = registry m" "config (foldl (apply_act cd tx) m acts) = config m"
    by (induction acts arbitrary: m) simp_all
qed

lemma apply_acts_wal:
  "\<forall>e \<in> set (logged_of acts). wal_accepts cd e \<Longrightarrow>
   wal_store (foldl (apply_act cd tx) m acts) = map_option (\<lambda>w. w @ wal_file cd (logged_of acts)) (wal_store m)"
proof (induction acts arbitrary: m)
  case Nil
  then show ?case by (simp add: wal_file_def option.map_ident)
next
  case (Cons a acts)
  have "wal_store (apply_act cd tx m a) = map_option (\<lambda>w. w @ wal_file cd (logged_of [a])) (wal_store m)"
  proof (cases a)
    case (Logged e)
    then have "wal_accepts cd e" using Cons.prems by simp
    then have "fst (wal_append cd True w e) = w @ wal_line cd e @ [10]" for w by (subst wal_append_ok(1)) simp
    with Logged show ?thesis by (cases "wal_store m") (simp_all add: wal_file_def)
  qed (simp_all add: wal_file_def option.map_ident Let_def)
  moreover have "wal_file cd (logged_of (a # acts)) = wal_file cd (logged_of [a]) @ wal_file cd (logged_of acts)"
    by (cases a) (simp_all add: wal_file_def)
  moreover have "\<forall>e \<in> set (logged_of acts). wal_accepts cd e" using Cons.prems by (cases a) auto
  ultimately show ?case using Cons.IH by (simp add: option.map_comp comp_def)
qed

text \<open>The log entries of a run: at most the prepare entry and, behind every commit, the commit entry.\<close>

lemma run_2pc_logged:
  assumes "run_2pc net m tx op = (acts, r)" "tx_state tx = TxInit" "e \<in> set (logged_of acts)"
  shows "entry_tx e = transaction_id tx \<and> wal_accepts (wal_cd net) e"
  using assms(1,2)
proof (cases rule: run_2pc_acts)
  case (aborted P)
  have "logged_of acts = []" using aborted rollback_loop_acts by (intro no_logged) (auto simp: rollback_phase_def)
  with assms(3) show ?thesis by simp
next
  case (committing P acked C c)
  obtain C0 L where C: "C = C0 @ L" "\<forall>a \<in> set C0. is_commit a \<or> (\<exists>s. a = Queued s)"
    "L = [] \<or> (\<exists>e. L = [Logged e] \<and> entry_tx e = transaction_id tx \<and> wal_accepts (wal_cd net) e)"
    using commit_phase_acts [OF committing(6)] by auto
  have "logged_of P = []" "logged_of C0 = []" using committing(2) C(2) by (auto intro!: no_logged)
  then show ?thesis
    using assms(3) C(3) log_entry_acts [of net m "transaction_id tx" TxPrepare acked] by (auto simp: committing(1) C(1) Let_def)
qed

section \<open>Recovery\<close>

lemma final_state_mem:
  "(final_state es t = None \<longleftrightarrow> (\<forall>e \<in> set es. entry_tx e \<noteq> t)) \<and>
   (\<forall>e. final_state es t = Some e \<longrightarrow> e \<in> set es \<and> entry_tx e = t)"
proof (induction es rule: rev_induct)
  case Nil
  then show ?case by (simp add: final_state_def)
next
  case (snoc e es)
  have "final_state (es @ [e]) = (let f = final_state es in case f (entry_tx e) of
         None \<Rightarrow> f(entry_tx e \<mapsto> e)
       | Some old \<Rightarrow> if entry_timestamp old < entry_timestamp e then f(entry_tx e \<mapsto> e) else f)"
    by (simp only: final_state_def foldl_append foldl_Cons foldl_Nil Let_def)
  then have step: "final_state (es @ [e]) t =
      (if entry_tx e \<noteq> t then final_state es t
       else case final_state es t of None \<Rightarrow> Some e
          | Some old \<Rightarrow> if entry_timestamp old < entry_timestamp e then Some e else Some old)"
    by (cases "final_state es (entry_tx e)"; cases "entry_tx e = t") (auto simp: Let_def)
  show ?case
  proof (cases "entry_tx e = t")
    case True
    then show ?thesis using snoc step by (cases "final_state es t") auto
  next
    case False
    then show ?thesis using snoc step by auto
  qed
qed

lemma recover_loop_commits:
  assumes "fin t = Some e" "entry_state e = TxPrepare" "p \<in> set (participants_ack e)"
  shows "t \<in> set ts \<Longrightarrow> responsive net m t (participants_ack e) \<Longrightarrow> recover_loop net fin ts m = (m', acts, rec) \<Longrightarrow>
    (t, Committed p) \<in> set acts"
proof (induction ts arbitrary: m m' acts rec)
  case (Cons x ts)
  let ?tx = "\<lambda>d. (tx_with_id x (participants_ack d) 0)\<lparr>tx_state := TxCommit\<rparr>"
  have tr: "transition ((tx_with_id x ps 0)\<lparr>tx_state := TxPrepare\<rparr>) TxCommit = ((tx_with_id x ps 0)\<lparr>tx_state := TxCommit\<rparr>, Inr ())" for ps
    by (simp add: transition_def)
  show ?case
  proof (cases "\<exists>d. fin x = Some d \<and> entry_state d = TxPrepare")
    case True
    then obtain d where d: "fin x = Some d" "entry_state d = TxPrepare" by blast
    obtain a0 r0 where c: "commit_phase net m (?tx d) = (a0, r0)" by force
    obtain m2 a1 rec1 where l: "recover_loop net fin ts (foldl (apply_act (wal_cd net) x) m a0) = (m2, a1, rec1)"
      by (metis prod_cases3)
    have a: "acts = map (Pair x) a0 @ a1" using Cons.prems(3) d c l by (simp add: tr)
    show ?thesis
    proof (cases "x = t")
      case True
      then have "d = e" using d assms(1) by simp
      obtain a2 where "commit_phase net m (?tx d) = (a2, Inr ())" "\<forall>s \<in> set (participants_ack d). Committed s \<in> set a2"
        using commit_phase_responsive [of net m "?tx d"] Cons.prems(2) True \<open>d = e\<close> by (auto simp: tx_with_id_def)
      then show ?thesis using a c assms(3) True \<open>d = e\<close> by auto
    next
      case False
      then have "t \<in> set ts" "responsive net (foldl (apply_act (wal_cd net) x) m a0) t (participants_ack e)"
        using Cons.prems(1,2) by (simp_all add: responsive_def)
      from Cons.IH [OF this l] show ?thesis by (simp add: a)
    qed
  next
    case False
    then have "x \<noteq> t" "recover_loop net fin ts m = (m', acts, rec)"
      using assms(1,2) Cons.prems(3) by (auto split: option.splits)
    then show ?thesis using Cons.IH Cons.prems(1,2) by auto
  qed
qed simp

lemma recover_loop_skips:
  "fin t = None \<Longrightarrow> recover_loop net fin ts m = (m', acts, rec) \<Longrightarrow> (t, a) \<notin> set acts"
proof (induction ts arbitrary: m m' acts rec)
  case (Cons x ts)
  then show ?case
    by (fastforce split: option.splits if_splits prod.splits sum.splits simp: Let_def)
qed simp

lemma apply_acts_keeps_wal: "wal_store (foldl (apply_act cd t) m acts) = None \<longleftrightarrow> wal_store m = None"
proof (induction acts arbitrary: m)
  case (Cons a acts)
  have "wal_store (apply_act cd t m a) = None \<longleftrightarrow> wal_store m = None" by (cases a) (auto simp: Let_def split: option.splits)
  with Cons show ?case by simp
qed simp

lemma recover_loop_keeps_wal:
  "recover_loop net fin ts m = (m', acts, rec) \<Longrightarrow> wal_store m' = None \<longleftrightarrow> wal_store m = None"
proof (induction ts arbitrary: m acts rec)
  case (Cons x ts)
  then show ?case
    by (auto split: option.splits if_splits prod.splits sum.splits simp: Let_def apply_acts_keeps_wal)
qed simp

section \<open>Executions\<close>

text \<open>The effects of an execution: those of a full run, or a prefix of them followed by the rollback.\<close>

lemma execute_acts:
  assumes "execute_transaction net m tx_id now ps op stop = (m', done, res)" "done \<noteq> [] \<or> is_Ok res"
  obtains acts outcome where "run_2pc net m (tx_with_id tx_id ps (nat now)) op = (acts, outcome)"
    "\<forall>p \<in> set ps. registry m p \<noteq> None" "m' = foldl (apply_act (wal_cd net) tx_id) m done"
    "done = acts \<and> res = Inr (case outcome of Inl e \<Rightarrow> \<lparr>result_tx = tx_id, success = False, committed_servers = []\<rparr>
          | Inr c \<Rightarrow> \<lparr>result_tx = tx_id, success = (c \<noteq> None), committed_servers = (case c of None \<Rightarrow> [] | Some sids \<Rightarrow> sids)\<rparr>) \<or>
     (\<exists>k. stop = Some k \<and> k < length acts \<and> done = take k acts @ rollback_phase net m (tx_with_id tx_id ps (nat now)) \<and>
        res = Inl (TransactionTimeout tx_id (transaction_timeout_ms (config m))))"
proof -
  obtain acts outcome where r: "run_2pc net m (tx_with_id tx_id ps (nat now)) op = (acts, outcome)" by force
  have "check_participants m t sids = Inr () \<Longrightarrow> \<forall>p \<in> set sids. registry m p \<noteq> None" for t sids
    by (induction sids) (auto split: option.splits if_splits)
  moreover have c: "check_participants m now ps = Inr ()" "\<not> max_participants (config m) < length ps"
    using assms by (auto simp: execute_transaction_def split: if_splits sum.splits)
  ultimately have reg: "\<forall>p \<in> set ps. registry m p \<noteq> None" by blast
  show thesis
  proof (cases "\<exists>k. stop = Some k \<and> k < length acts")
    case True
    then obtain k where k: "stop = Some k" "k < length acts" by blast
    show thesis
      using assms(1) c r k by (intro that [OF r reg]) (auto simp: execute_transaction_def Let_def)
  next
    case False
    then have t: "(case stop of None \<Rightarrow> False | Some k \<Rightarrow> k < length acts) = False" by (auto split: option.splits)
    show thesis
      using assms(1) c r t by (intro that [OF r reg]) (auto simp: execute_transaction_def Let_def split: sum.splits)
  qed
qed

lemma execute_returned:
  assumes "execute_transaction net m tx_id now ps op stop = (m', done, Inr r)"
  obtains outcome where "run_2pc net m (tx_with_id tx_id ps (nat now)) op = (done, outcome)"
    "\<forall>p \<in> set ps. registry m p \<noteq> None" "m' = foldl (apply_act (wal_cd net) tx_id) m done"
    "r = (case outcome of Inl e \<Rightarrow> \<lparr>result_tx = tx_id, success = False, committed_servers = []\<rparr>
       | Inr c \<Rightarrow> \<lparr>result_tx = tx_id, success = (c \<noteq> None), committed_servers = (case c of None \<Rightarrow> [] | Some sids \<Rightarrow> sids)\<rparr>)"
proof -
  have "done \<noteq> [] \<or> is_Ok (Inr r :: (mcp_error, transaction_result) result)" by simp
  then show thesis by (rule execute_acts [OF assms]) (auto intro: that)
qed

lemma execute_stopped:
  assumes "execute_transaction net m tx_id now ps op stop = (m', done, Inl e)" "done \<noteq> []"
  obtains acts outcome k where "run_2pc net m (tx_with_id tx_id ps (nat now)) op = (acts, outcome)"
    "\<forall>p \<in> set ps. registry m p \<noteq> None" "m' = foldl (apply_act (wal_cd net) tx_id) m done"
    "done = take k acts @ rollback_phase net m (tx_with_id tx_id ps (nat now))"
    "e = TransactionTimeout tx_id (transaction_timeout_ms (config m))"
proof -
  have "done \<noteq> [] \<or> is_Ok (Inl e :: (mcp_error, transaction_result) result)" using assms(2) by simp
  then show thesis by (rule execute_acts [OF assms(1)]) (auto intro: that)
qed

lemma split_prefix:
  assumes "take k acts = xs @ a # ys"
  shows "\<exists>zs. acts = xs @ a # zs"
  using assms append_take_drop_id [of k acts] by (metis append.assoc append_Cons)

text \<open>A commit call stands behind the whole prepare phase, and then every participant has acknowledged.\<close>

lemma commit_after_prepare:
  assumes "run_2pc net m tx op = (acts, r)" "tx_state tx = TxInit" "acts = xs @ a # ys" "is_commit a" "p \<in> set (participant_servers tx)"
  shows "Prepared p \<in> set xs"
  using assms(1,2)
proof (cases rule: run_2pc_acts)
  case (aborted P)
  have "a \<in> set P \<or> a \<in> set (rollback_phase net m tx)" using assms(3) aborted(1) by (metis Un_iff in_set_conv_decomp set_append)
  then have "is_prep a \<or> is_roll a" using aborted(2) rollback_loop_acts unfolding rollback_phase_def by blast
  with assms(4) show ?thesis by (cases a) auto
next
  case (committing P acked C c)
  have "Prepared p \<in> set P" using committing(3,5) assms(5) by blast
  moreover have "set P \<subseteq> set xs"
  proof -
    have "P @ (log_entry net m (transaction_id tx) TxPrepare acked @ C) = xs @ a # ys" using committing(1) assms(3) by simp
    then obtain us where u: "P = xs @ us \<and> us @ log_entry net m (transaction_id tx) TxPrepare acked @ C = a # ys \<or> P @ us = xs"
      unfolding append_eq_append_conv2 by blast
    show ?thesis
    proof (cases "us = []")
      case False
      have "\<not> is_prep a" using assms(4) by (cases a) auto
      then have "a \<notin> set P" using committing(2) by blast
      with u False show ?thesis by (auto simp: Cons_eq_append_conv append_eq_Cons_conv)
    qed (use u in auto)
  qed
  ultimately show ?thesis by blast
qed

lemma apply_acts_pending:
  "pending_compensations (foldl (apply_act cd tx) m acts) tx =
     (if queued_of acts = [] then pending_compensations m tx
      else (let pc = map_default \<lparr>pc_transaction_id = tx, failed_participants = [], retries = 0\<rparr> (pending_compensations m) tx
            in Some (pc\<lparr>failed_participants := failed_participants pc @ queued_of acts\<rparr>)))"
proof (induction acts arbitrary: m)
  case (Cons a acts)
  show ?case using Cons.IH [of "apply_act cd tx m a"] by (cases a) (simp_all add: Let_def map_default_def)
qed simp

text \<open>A network that answers the concurrent calls it is given, in some order.\<close>

definition network_ok :: "network \<Rightarrow> bool" where
  "network_ok net \<longleftrightarrow> (\<forall>xs. set (arrivals net xs) = set xs) \<and> (\<forall>xs. set (iteration net xs) = set xs) \<and> wal_codec_ok (wal_cd net)"

text \<open>How far a run had come when it stopped, as the log tells it.\<close>

definition decided :: "act list \<Rightarrow> bool" where
  "decided acts \<longleftrightarrow> (\<exists>e \<in> set (logged_of acts). entry_state e = TxPrepare)"

definition durable :: "network \<Rightarrow> mcp_mesh \<Rightarrow> string \<Rightarrow> string list \<Rightarrow> bool" where
  "durable net m tx_id ps \<longleftrightarrow>
     wal_store m \<noteq> None \<and> disk_ok net \<and>
     (\<forall>sids. set sids = set ps \<longrightarrow>
        wal_accepts (wal_cd net)
          \<lparr>entry_tx = tx_id, entry_state = TxPrepare, participants_ack = sids, entry_timestamp = now_ms net TxPrepare\<rparr>)"

lemma durable_entry:
  "durable net m tx_id ps \<Longrightarrow> set sids = set ps \<Longrightarrow>
   log_entry net m tx_id TxPrepare sids =
     [Logged \<lparr>entry_tx = tx_id, entry_state = TxPrepare, participants_ack = sids, entry_timestamp = now_ms net TxPrepare\<rparr>]"
  using wal_append_ok(2) by (auto simp: durable_def log_entry_def Let_def)

text \<open>
  A prefix of a run in terms of its log: without a prepare entry nothing was committed; with one, every
  entry names all participants or stands behind all commits.
\<close>

lemma prefix_of_run:
  assumes "run_2pc net m tx op = (acts, r)" "tx_state tx = TxInit" "network_ok net"
    "durable net m (transaction_id tx) (participant_servers tx)"
  shows "(\<not> decided (take k acts) \<longrightarrow> logged_of (take k acts) = [] \<and> (\<forall>a \<in> set (take k acts). \<not> is_commit a)) \<and>
    (\<forall>e \<in> set (logged_of (take k acts)).
       entry_state e = TxPrepare \<and> set (participants_ack e) = set (participant_servers tx) \<or>
       (\<forall>p \<in> set (participant_servers tx). Committed p \<in> set (take k acts)))"
  using assms(1,2)
proof (cases rule: run_2pc_acts)
  case (aborted P)
  have "\<forall>a \<in> set acts. is_prep a \<or> is_roll a"
    using aborted rollback_loop_acts unfolding rollback_phase_def by (auto simp: aborted(1))
  then have a: "\<forall>a \<in> set (take k acts). is_prep a \<or> is_roll a" by (auto dest: in_set_takeD)
  then have "logged_of (take k acts) = []" by (intro no_logged) blast
  moreover have "\<not> is_commit x" if "x \<in> set (take k acts)" for x using a that by (cases x) auto
  ultimately show ?thesis by simp
next
  case (committing P acked C c)
  let ?e = "\<lparr>entry_tx = transaction_id tx, entry_state = TxPrepare, participants_ack = acked, entry_timestamp = now_ms net TxPrepare\<rparr>"
  have acked: "set acked = set (participant_servers tx)" using committing(3,4) assms(3) by (auto simp: network_ok_def)
  note L = durable_entry [OF assms(4) acked]
  obtain C0 L2 where C: "C = C0 @ L2" "\<forall>a \<in> set C0. is_commit a \<or> (\<exists>s. a = Queued s)"
    "L2 = [] \<or> c = Inr () \<and> (\<exists>e. L2 = [Logged e])" "c = Inr () \<longrightarrow> (\<forall>s \<in> set (participant_servers tx). Committed s \<in> set C0)"
    using commit_phase_acts [OF committing(6)] by auto
  show ?thesis
  proof (cases "k \<le> length P")
    case True
    then have "take k acts = take k P" by (simp add: committing(1))
    then have a: "\<forall>a \<in> set (take k acts). is_prep a" using committing(2) by (auto dest: in_set_takeD)
    then have "logged_of (take k acts) = []" by (intro no_logged) blast
    moreover have "\<not> is_commit x" if "x \<in> set (take k acts)" for x using a that by (cases x) auto
    ultimately show ?thesis by simp
  next
    case False
    define j where "j = k - length P - 1"
    then have kj: "k - length P = Suc j" using False by simp
    have pre: "take k acts = P @ Logged ?e # take j C"
      using False by (simp add: committing(1) L kj)
    have lp: "logged_of P = []" using committing(2) by (intro no_logged) blast
    show ?thesis
    proof (cases "j \<le> length C0")
      case True
      then have "take j C = take j C0" by (simp add: C(1))
      then have "logged_of (take j C) = []" using C(2) by (intro no_logged) (auto dest: in_set_takeD)
      then show ?thesis using acked by (simp add: pre lp decided_def)
    next
      case False
      then have "take j C = C0 @ take (j - length C0) L2" "C0 @ take (j - length C0) L2 = C0 @ L2 \<or> L2 = []"
        using C(3) by (auto simp: C(1) take_Cons')
      then have tc: "take j C = C0 @ L2" by auto
      have l0: "logged_of C0 = []" using C(2) by (intro no_logged) blast
      have lg: "logged_of (take k acts) = ?e # logged_of L2" by (simp add: pre lp tc l0)
      then have "decided (take k acts)" by (simp add: decided_def)
      moreover have "\<forall>s \<in> set (participant_servers tx). Committed s \<in> set (take k acts)" if "L2 \<noteq> []"
        using C(3,4) that unfolding pre tc by fastforce
      ultimately show ?thesis
        using acked unfolding lg by (cases "L2 = []") simp_all
    qed
  qed
qed

lemma wal_after:
  assumes "run_2pc net m tx op = (acts, r)" "tx_state tx = TxInit" "wal_codec_ok (wal_cd net)"
    "wal_store m = Some (wal_file (wal_cd net) old)" "\<forall>e \<in> set old. wal_accepts (wal_cd net) e"
    "logged_of done = logged_of (take k acts)"
    "torn = [] \<or> (\<exists>e n. wal_accepts (wal_cd net) e \<and> n < length (wal_line (wal_cd net) e) \<and> torn = take n (wal_line (wal_cd net) e))"
  shows "\<exists>w. wal_store (foldl (apply_act (wal_cd net) t) m done) = Some w \<and>
    wal_read_all (wal_cd net) (w @ torn) = old @ logged_of (take k acts) \<and>
    (\<forall>e \<in> set (logged_of (take k acts)). entry_tx e = transaction_id tx)"
proof -
  have sub: "set (logged_of (take k acts)) \<subseteq> set (logged_of acts)"
    by (metis append_take_drop_id of_append(2) set_append Un_upper1)
  have acc: "\<forall>e \<in> set (logged_of (take k acts)). wal_accepts (wal_cd net) e \<and> entry_tx e = transaction_id tx"
    using run_2pc_logged [OF assms(1,2)] sub by blast
  have "wal_store (foldl (apply_act (wal_cd net) t) m done) = Some (wal_file (wal_cd net) (old @ logged_of (take k acts)))"
    using apply_acts_wal [of "done" "wal_cd net" t m] acc assms(4,6) by (simp add: wal_file_def)
  moreover have "wal_read_all (wal_cd net) (wal_file (wal_cd net) (old @ logged_of (take k acts)) @ torn) = old @ logged_of (take k acts)"
    using assms(3,5,7) acc by (intro wal_round_trip) auto
  ultimately show ?thesis using acc by blast
qed

text \<open>Recovery commits a transaction whose entries all name its participants, and leaves an unlogged one alone.\<close>

lemma recovery_commits:
  assumes "network_ok net" "wal_store m = Some w" "e0 \<in> set (wal_read_all (wal_cd net) w)" "entry_tx e0 = t"
    "\<forall>e \<in> set (wal_read_all (wal_cd net) w). entry_tx e = t \<longrightarrow> entry_state e = TxPrepare \<and> set (participants_ack e) = set ps"
    "responsive net m t ps" "recover_from_wal net m = (m', acts, res)" "p \<in> set ps"
  shows "(t, Committed p) \<in> set acts"
proof -
  let ?es = "wal_read_all (wal_cd net) w"
  have ne: "?es \<noteq> []" using assms(3) by auto
  have fin: "final_state ?es t \<noteq> None" using final_state_mem [of ?es t] assms(3,4) by blast
  then obtain e where e: "final_state ?es t = Some e" "e \<in> set ?es" "entry_tx e = t" using final_state_mem [of ?es t] by blast
  then have pe: "entry_state e = TxPrepare" "set (participants_ack e) = set ps" using assms(5) by auto
  obtain m2 rec where l: "recover_loop net (final_state ?es) (iteration net (remdups (map entry_tx ?es))) m = (m2, acts, rec)"
    using assms(2,7) ne by (auto simp: recover_from_wal_def Let_def split: prod.splits)
  have "t \<in> set (iteration net (remdups (map entry_tx ?es)))" using assms(1,3,4) by (auto simp: network_ok_def)
  moreover have "responsive net m t (participants_ack e)" using assms(6) pe by (simp add: responsive_def)
  ultimately show ?thesis using recover_loop_commits [of "final_state ?es" t e p] e(1) pe assms(8) l by blast
qed

lemma recovery_skips:
  assumes "wal_store m = Some w" "\<forall>e \<in> set (wal_read_all (wal_cd net) w). entry_tx e \<noteq> t" "recover_from_wal net m = (m', acts, res)"
  shows "(t, a) \<notin> set acts"
proof -
  let ?es = "wal_read_all (wal_cd net) w"
  have f: "final_state ?es t = None" using final_state_mem [of ?es t] assms(2) by blast
  show ?thesis
  proof (cases "?es = []")
    case True
    then show ?thesis using assms(1,3) by (simp add: recover_from_wal_def)
  next
    case False
    then obtain m2 rec where "recover_loop net (final_state ?es) (iteration net (remdups (map entry_tx ?es))) m = (m2, acts, rec)"
      using assms(1,3) by (auto simp: recover_from_wal_def Let_def split: prod.splits)
    with recover_loop_skips [of "final_state ?es" t] f show ?thesis by blast
  qed
qed

text \<open>
  What recovery makes of the log that a prefix of a run leaves, with or without a torn last line. The
  effects \<open>done\<close> may go on behind the prefix as long as they log nothing.
\<close>

lemma prefix_recovered:
  assumes "network_ok net" "network_ok net2" "wal_cd net2 = wal_cd net"
    "wal_store m = Some (wal_file (wal_cd net) old)" "\<forall>e \<in> set old. wal_accepts (wal_cd net) e \<and> entry_tx e \<noteq> tx_id"
    "durable net m tx_id ps" "run_2pc net m (tx_with_id tx_id ps s0) op = (acts, outcome)" "logged_of done = logged_of (take j acts)"
    "torn = [] \<or> (\<exists>e n. wal_accepts (wal_cd net) e \<and> n < length (wal_line (wal_cd net) e) \<and> torn = take n (wal_line (wal_cd net) e))"
    "wal_store m2 = map_option (\<lambda>w. w @ torn) (wal_store (foldl (apply_act (wal_cd net) tx_id) m done))"
    "responsive net2 m2 tx_id ps" "recover_from_wal net2 m2 = (m3, acts2, res2)"
  shows "if decided (take j acts)
    then \<forall>p \<in> set ps. Committed p \<in> set (take j acts) \<or> (tx_id, Committed p) \<in> set acts2
    else (\<forall>a \<in> set (take j acts). \<not> is_commit a) \<and> (\<forall>a. (tx_id, a) \<notin> set acts2)"
proof -
  let ?tx = "tx_with_id tx_id ps s0" and ?cd = "wal_cd net"
  have tx: "tx_state ?tx = TxInit" "transaction_id ?tx = tx_id" "participant_servers ?tx = ps" by (simp_all add: tx_with_id_def)
  have cok: "wal_codec_ok ?cd" using assms(1) by (simp add: network_ok_def)
  have old: "\<forall>e \<in> set old. wal_accepts ?cd e" using assms(5) by blast
  note run = assms(7)
  obtain w where w: "wal_store (foldl (apply_act ?cd tx_id) m done) = Some w"
    "wal_read_all ?cd (w @ torn) = old @ logged_of (take j acts)"
    using wal_after [OF run tx(1) cok assms(4) old assms(8,9)] by blast
  have w2: "wal_store m2 = Some (w @ torn)" using assms(10) w(1) by simp
  have es: "wal_read_all (wal_cd net2) (w @ torn) = old @ logged_of (take j acts)" using w(2) assms(3) by simp
  note pre = prefix_of_run [OF run tx(1) assms(1), unfolded tx, OF assms(6), of j]
  show ?thesis
  proof (cases "decided (take j acts)")
    case False
    then have "logged_of (take j acts) = []" using pre by blast
    then have "\<forall>e \<in> set (wal_read_all (wal_cd net2) (w @ torn)). entry_tx e \<noteq> tx_id" using es assms(5) by simp
    from recovery_skips [OF w2 this assms(12)] False pre show ?thesis by simp
  next
    case True
    have "Committed p \<in> set (take j acts) \<or> (tx_id, Committed p) \<in> set acts2" if p: "p \<in> set ps" for p
    proof (cases "\<forall>q \<in> set ps. Committed q \<in> set (take j acts)")
      case False
      then have B: "\<forall>e \<in> set (logged_of (take j acts)). entry_state e = TxPrepare \<and> set (participants_ack e) = set ps" using pre by blast
      obtain e0 where e0: "e0 \<in> set (logged_of (take j acts))" using True by (auto simp: decided_def)
      have "set (logged_of (take j acts)) \<subseteq> set (logged_of acts)"
        by (metis append_take_drop_id of_append(2) set_append Un_upper1)
      then have t0: "entry_tx e0 = tx_id" using e0 run_2pc_logged [OF run tx(1)] tx(2) by auto
      have "e0 \<in> set (wal_read_all (wal_cd net2) (w @ torn))" using e0 es by simp
      moreover have "\<forall>e \<in> set (wal_read_all (wal_cd net2) (w @ torn)).
          entry_tx e = tx_id \<longrightarrow> entry_state e = TxPrepare \<and> set (participants_ack e) = set ps"
        using B es assms(5) by auto
      ultimately show ?thesis using recovery_commits [OF assms(2) w2 _ t0 _ assms(11,12) p] by blast
    qed (use p in blast)
    then show ?thesis using True by simp
  qed
qed

text \<open>A commit round stops at the first participant that is not registered.\<close>

lemma commit_loop_stops:
  "commit_loop net reg m tx (pre @ s # post) c f = (acts, r) \<Longrightarrow> reg s = None \<Longrightarrow>
   (\<forall>a \<in> set acts. \<exists>q \<in> set pre. reg q \<noteq> None \<and> a \<in> {Committed q, CommitFailed q, Queued q}) \<and> (\<exists>e. r = Inl e)"
proof (induction pre arbitrary: c f acts r)
  case (Cons x pre)
  show ?case
  proof (cases "reg x")
    case None
    then show ?thesis using Cons.prems by auto
  next
    case (Some y)
    obtain a0 ok where t: "try_commit net y x tx 0 (m + 1) = (a0, ok)" by force
    note ta = try_commit_acts [OF t]
    obtain a1 r1 where l: "commit_loop net reg m tx (pre @ s # post) (if ok then c @ [x] else c) (if ok then f else f @ [x]) = (a1, r1)" by force
    have a: "acts = (if ok then a0 @ a1 else a0 @ [Queued x] @ a1)" "r = r1"
      using Cons.prems Some t l by (auto split: if_splits)
    note IH = Cons.IH [OF l Cons.prems(2)]
    have "\<exists>q \<in> set (x # pre). reg q \<noteq> None \<and> b \<in> {Committed q, CommitFailed q, Queued q}" if "b \<in> set acts" for b
    proof -
      have "b \<in> set a0 \<or> b = Queued x \<or> b \<in> set a1" using that by (auto simp: a split: if_splits)
      then show ?thesis
      proof (elim disjE)
        assume "b \<in> set a1"
        with IH show ?thesis by (meson list.set_intros(2))
      qed (use ta Some in auto)
    qed
    then show ?thesis using IH a(2) by blast
  qed
qed auto

text \<open>What recovery does for a transaction is one commit phase over the participants of its final entry.\<close>

lemma recover_loop_member:
  "recover_loop net fin ts m = (m', acts, rec) \<Longrightarrow>
   (\<forall>a. (t, a) \<in> set acts \<longrightarrow> (\<exists>e n acts0 r. fin t = Some e \<and> registry n = registry m \<and> config n = config m \<and>
      commit_phase net n ((tx_with_id t (participants_ack e) 0)\<lparr>tx_state := TxCommit\<rparr>) = (acts0, r) \<and> a \<in> set acts0)) \<and>
   (t \<in> set ts \<and> map_option entry_state (fin t) = Some TxPrepare \<longrightarrow> t \<in> set rec)"
proof (induction ts arbitrary: m m' acts rec)
  case (Cons x ts)
  show ?case
  proof (cases "map_option entry_state (fin x) = Some TxPrepare")
    case True
    then obtain d where d: "fin x = Some d" "entry_state d = TxPrepare" by auto
    let ?tx = "(tx_with_id x (participants_ack d) 0)\<lparr>tx_state := TxCommit\<rparr>"
    obtain a0 r0 where c: "commit_phase net m ?tx = (a0, r0)" by force
    obtain m2 a1 rec1 where l: "recover_loop net fin ts (foldl (apply_act (wal_cd net) x) m a0) = (m2, a1, rec1)"
      by (metis prod_cases3)
    have a: "acts = map (Pair x) a0 @ a1" "rec = x # rec1" using Cons.prems d c l by (simp_all add: transition_def)
    note IH = Cons.IH [OF l, unfolded apply_acts_fields]
    show ?thesis
    proof (intro conjI allI impI)
      fix b assume "(t, b) \<in> set acts"
      then consider "(t, b) \<in> set a1" | "x = t" "b \<in> set a0" using a by auto
      then show "\<exists>e n acts0 r. fin t = Some e \<and> registry n = registry m \<and> config n = config m \<and>
        commit_phase net n ((tx_with_id t (participants_ack e) 0)\<lparr>tx_state := TxCommit\<rparr>) = (acts0, r) \<and> b \<in> set acts0"
        by cases (use IH d c in blast)+
    qed (use IH a in auto)
  next
    case False
    then have l: "recover_loop net fin ts m = (m', acts, rec)" using Cons.prems by (auto split: option.splits)
    show ?thesis using Cons.IH [OF l] False by auto
  qed
qed simp

text \<open>The three endings of a run.\<close>

lemma run_2pc_outcome:
  assumes "run_2pc net m tx op = (acts, r)" "tx_state tx = TxInit" "network_ok net"
    "\<forall>p \<in> set (participant_servers tx). registry m p \<noteq> None"
  shows "case r of
      Inr None \<Rightarrow> (\<forall>a \<in> set acts. \<not> is_commit a) \<and>
        (\<forall>p \<in> set (participant_servers tx). RolledBack p \<in> set acts \<or> RollbackFailed p \<in> set acts)
    | Inr (Some sids) \<Rightarrow> sids = participant_servers tx \<and> (\<forall>a \<in> set acts. \<not> is_roll a) \<and> (\<forall>p \<in> set sids. Committed p \<in> set acts)
    | Inl e \<Rightarrow> (\<forall>a \<in> set acts. \<not> is_roll a) \<and> queued_of acts \<noteq> [] \<and>
        (\<forall>p \<in> set (participant_servers tx). Committed p \<in> set acts \<or> p \<in> set (queued_of acts))"
  using assms(1,2)
proof (cases rule: run_2pc_acts)
  case (aborted P)
  have "\<not> is_commit a" if "a \<in> set acts" for a
  proof -
    have "is_prep a \<or> is_roll a" using that aborted(1,2) rollback_loop_acts unfolding rollback_phase_def by fastforce
    then show ?thesis by (cases a) auto
  qed
  moreover have "\<forall>p \<in> set (participant_servers tx). RolledBack p \<in> set acts \<or> RollbackFailed p \<in> set acts"
    using rollback_loop_acts [of net "registry m" "transaction_id tx" "arrivals net (participant_servers tx)"] assms(3,4) aborted(1)
    unfolding rollback_phase_def network_ok_def by auto
  ultimately show ?thesis using aborted(3) by simp
next
  case (committing P acked C c)
  have t: "transaction_id (tx\<lparr>tx_state := TxCommit\<rparr>) = transaction_id tx" "participant_servers (tx\<lparr>tx_state := TxCommit\<rparr>) = participant_servers tx"
    by simp_all
  obtain C0 L2 where C: "C = C0 @ L2" "\<forall>a \<in> set C0. is_commit a \<or> (\<exists>s. a = Queued s)"
    and L2: "L2 = [] \<or> c = Inr () \<and> (\<exists>e. L2 = [Logged e] \<and> entry_tx e = transaction_id tx \<and> entry_state e = TxCommit \<and> wal_accepts (wal_cd net) e)"
    and c: "c = Inr () \<longleftrightarrow> queued_of C0 = [] \<and> (\<forall>s \<in> set (participant_servers tx). Committed s \<in> set C0)"
    and f: "c \<noteq> Inr () \<and> (\<forall>s \<in> set (participant_servers tx). registry m s \<noteq> None) \<longrightarrow>
      queued_of C0 \<noteq> [] \<and> (\<forall>s \<in> set (participant_servers tx). Committed s \<in> set C0 \<or> s \<in> set (queued_of C0))"
    using commit_phase_acts [OF committing(6), unfolded t] by (elim exE conjE) (rule that)
  have L2': "L2 = [] \<or> (\<exists>e. L2 = [Logged e])" using L2 by blast
  have L: "log_entry net m (transaction_id tx) TxPrepare acked = [] \<or> (\<exists>e. log_entry net m (transaction_id tx) TxPrepare acked = [Logged e])"
    using log_entry_acts by (metis (no_types, lifting))
  have nr: "\<forall>a \<in> set acts. \<not> is_roll a"
  proof
    fix a assume "a \<in> set acts"
    then have "is_prep a \<or> is_commit a \<or> (\<exists>s. a = Queued s) \<or> (\<exists>e. a = Logged e)"
      using committing(1,2) C L2' L by auto
    then show "\<not> is_roll a" by (cases a) auto
  qed
  have "queued_of P = []" using committing(2) by (intro no_queued) blast
  then have q: "queued_of acts = queued_of C0" using L L2' by (auto simp: committing(1) C(1))
  have C0: "set C0 \<subseteq> set acts" by (auto simp: committing(1) C(1))
  show ?thesis
  proof (cases "c = Inr ()")
    case True
    then show ?thesis using committing(7) c nr C0 by auto
  next
    case False
    then obtain e where "c = Inl e" by (cases c) auto
    then show ?thesis using committing(7) f assms(4) nr C0 q by auto
  qed
qed

section \<open>A concrete mesh\<close>

text \<open>
  A log codec for the entries of one transaction of one server, and networks over it: used to show that
  the hypotheses of the properties can hold together.
\<close>

definition unary_codec :: wal_codec where
  "unary_codec =
     \<lparr>entry_to_vec = (\<lambda>e. if entry_tx e = ''t'' \<and> entry_timestamp e = 0 \<and> set (participants_ack e) \<subseteq> {''s''} \<and> entry_state e \<in> {TxPrepare, TxCommit}
         then Inr (replicate (length (participants_ack e)) 1 @ [if entry_state e = TxPrepare then 2 else 3]) else Inl ''other''),
      entry_from_line = (\<lambda>bs. if bs \<noteq> [] \<and> set (butlast bs) \<subseteq> {1} \<and> last bs \<in> {2, 3}
         then Some \<lparr>entry_tx = ''t'', entry_state = (if last bs = 2 then TxPrepare else TxCommit),
                    participants_ack = replicate (length bs - 1) ''s'', entry_timestamp = 0\<rparr> else None),
      line_utf8_lossy = (\<lambda>_. []), line_to_lowercase = id\<rparr>"

lemma unary_codec_ok: "wal_codec_ok unary_codec"
proof -
  have r: "xs = replicate (length xs) x" if "set xs \<subseteq> {x}" for xs :: "'a list" and x
    using that by (induction xs) auto
  have "take n (replicate k 1 @ [b]) = replicate n (1 :: byte)" if "n < Suc k" for n k b using that by (simp add: min_def)
  then show ?thesis
    by (auto simp: wal_codec_ok_def unary_codec_def butlast_append intro!: wal_entry.equality r [symmetric] split: if_splits)
qed

lemma unary_accepts:
  assumes "entry_tx e = ''t''" "entry_timestamp e = 0" "set (participants_ack e) \<subseteq> {''s''}" "entry_state e \<in> {TxPrepare, TxCommit}"
  shows "wal_accepts unary_codec e"
proof -
  have "\<not> is_blocked (scan id [] write_policy)" by (rule unmarked_not_blocked) simp
  then show ?thesis using assms by (auto simp: wal_accepts_def wal_blocked_def unary_codec_def wal_line_def)
qed

definition demo_network :: "(nat \<Rightarrow> (mcp_error, unit) result) \<Rightarrow> network" where
  "demo_network commits =
     \<lparr>on_prepare = (\<lambda>s t op k. Inr ()), on_commit = (\<lambda>s t k. commits k), on_rollback = (\<lambda>s t. Inr ()),
      arrivals = id, iteration = id, now_ms = (\<lambda>_. 0), disk_ok = True, wal_cd = unary_codec\<rparr>"

definition demo_mesh :: mcp_mesh where
  "demo_mesh =
     \<lparr>config = mesh_config_default,
      registry = [''s'' \<mapsto> \<lparr>server_id = ''s'', endpoint = ''203.0.113.1:80'', capabilities = [], last_heartbeat = 0\<rparr>],
      wal_store = Some [], pending_compensations = Map.empty\<rparr>"

lemma demo_network_ok: "network_ok (demo_network f)"
  by (simp add: network_ok_def demo_network_def unary_codec_ok)

lemma demo_durable: "durable (demo_network f) demo_mesh ''t'' [''s'']"
  using unary_accepts by (simp add: durable_def demo_network_def demo_mesh_def)

lemma demo_fields [simp]:
  "on_prepare (demo_network f) s t op k = Inr ()" "on_commit (demo_network f) s t k = f k" "on_rollback (demo_network f) s t = Inr ()"
  "arrivals (demo_network f) xs = xs" "iteration (demo_network f) xs = xs" "now_ms (demo_network f) st = 0" "disk_ok (demo_network f)"
  "wal_cd (demo_network f) = unary_codec"
  "config demo_mesh = mesh_config_default" "wal_store demo_mesh = Some []" "pending_compensations demo_mesh = Map.empty"
  "registry demo_mesh ''s'' = Some \<lparr>server_id = ''s'', endpoint = ''203.0.113.1:80'', capabilities = [], last_heartbeat = 0\<rparr>"
  by (simp_all add: demo_network_def demo_mesh_def)

definition demo_entry :: "transaction_state \<Rightarrow> wal_entry" where
  "demo_entry st = \<lparr>entry_tx = ''t'', entry_state = st, participants_ack = [''s''], entry_timestamp = 0\<rparr>"

lemma demo_log: "st \<in> {TxPrepare, TxCommit} \<Longrightarrow> log_entry (demo_network f) demo_mesh ''t'' st [''s''] = [Logged (demo_entry st)]"
  using wal_append_ok(2) [of unary_codec True "[]" "demo_entry st"] unary_accepts [of "demo_entry st"]
  by (simp add: log_entry_def Let_def demo_entry_def)

lemma demo_run:
  "run_2pc (demo_network f) demo_mesh (tx_with_id ''t'' [''s''] 0) op =
     (let (acts, r) = commit_phase (demo_network f) demo_mesh ((tx_with_id ''t'' [''s''] 0)\<lparr>tx_state := TxCommit\<rparr>)
      in ([Prepared ''s'', Logged (demo_entry TxPrepare)] @ acts, case r of Inl e \<Rightarrow> Inl e | Inr _ \<Rightarrow> Inr (Some [''s''])))"
  by (simp add: run_2pc_def transition_def tx_with_id_def prepare_phase_def demo_log Let_def split: prod.splits sum.splits)

lemma demo_commit:
  "commit_phase (demo_network (\<lambda>_. Inr ())) demo_mesh ((tx_with_id ''t'' [''s''] 0)\<lparr>tx_state := TxCommit\<rparr>) =
     ([Committed ''s'', Logged (demo_entry TxCommit)], Inr ())"
  by (simp add: commit_phase_def tx_with_id_def demo_log mesh_config_default_def numeral_3_eq_3)

lemma demo_execute:
  "execute_transaction (demo_network (\<lambda>_. Inr ())) demo_mesh ''t'' 0 [''s''] op None =
     (let acts = [Prepared ''s'', Logged (demo_entry TxPrepare), Committed ''s'', Logged (demo_entry TxCommit)]
      in (foldl (apply_act unary_codec ''t'') demo_mesh acts, acts,
          Inr \<lparr>result_tx = ''t'', success = True, committed_servers = [''s'']\<rparr>))"
  by (simp add: execute_transaction_def demo_run demo_commit mesh_config_default_def is_alive_def Let_def)

section \<open>What the coordinator promises\<close>

text \<open>
  C4: no commit before unanimity. In every execution, whether it succeeds, fails or is cut off by its
  timeout at any await point, whenever a commit call to any participant completes, every participant
  of the transaction has acknowledged its prepare call before.
\<close>

theorem commit_needs_unanimous_prepare:
  assumes "execute_transaction net m tx_id now ps op stop = (m', done, res)" "done = xs @ a # ys" "is_commit a"
  shows "\<forall>p \<in> set ps. Prepared p \<in> set xs"
proof
  fix p assume p: "p \<in> set ps"
  let ?tx = "tx_with_id tx_id ps (nat now)"
  have tx: "tx_state ?tx = TxInit" "p \<in> set (participant_servers ?tx)" using p by (simp_all add: tx_with_id_def)
  have "done \<noteq> [] \<or> is_Ok res" using assms(2) by simp
  from execute_acts [OF assms(1) this] obtain acts outcome k where r: "run_2pc net m ?tx op = (acts, outcome)"
    and d: "done = acts \<or> done = take k acts @ rollback_phase net m ?tx" by metis
  have nr: "a \<notin> set (rollback_phase net m ?tx)"
  proof -
    have "\<not> is_roll a" using assms(3) by (cases a) auto
    then show ?thesis using rollback_loop_acts unfolding rollback_phase_def by blast
  qed
  have "\<exists>zs. acts = xs @ a # zs"
  proof (cases "done = acts")
    case False
    with d assms(2) have "take k acts @ rollback_phase net m ?tx = xs @ a # ys" by simp
    then obtain us where "take k acts = xs @ us \<and> us @ rollback_phase net m ?tx = a # ys \<or>
        take k acts @ us = xs \<and> rollback_phase net m ?tx = us @ a # ys"
      unfolding append_eq_append_conv2 by blast
    then show ?thesis using nr split_prefix [of k acts xs a] by (auto simp: append_eq_Cons_conv)
  qed (use assms(2) in blast)
  then show "Prepared p \<in> set xs" using commit_after_prepare [OF r tx(1) _ assms(3) tx(2)] by blast
qed

theorem commit_needs_unanimous_prepare_witness:
  "\<exists>xs ys. fst (snd (execute_transaction (demo_network (\<lambda>_. Inr ())) demo_mesh ''t'' 0 [''s''] ''op'' None)) = xs @ Committed ''s'' # ys \<and>
     Prepared ''s'' \<in> set xs"
proof -
  obtain m' ys res where e: "execute_transaction (demo_network (\<lambda>_. Inr ())) demo_mesh ''t'' 0 [''s''] ''op'' None =
      (m', [Prepared ''s'', Logged (demo_entry TxPrepare)] @ Committed ''s'' # ys, res)"
    by (simp add: demo_execute Let_def)
  have "\<forall>p \<in> set [''s'']. Prepared p \<in> set [Prepared ''s'', Logged (demo_entry TxPrepare)]"
    by (rule commit_needs_unanimous_prepare [OF e refl]) simp
  then show ?thesis unfolding e fst_conv snd_conv
    by (intro exI [of _ "[Prepared ''s'', Logged (demo_entry TxPrepare)]"] exI [of _ ys]) simp
qed

text \<open>
  What the caller is told. An execution that returns a result reports success exactly when every
  participant was committed, and then none was rolled back. A reported failure names no committed
  server, but it covers two different endings: either no commit was ever sent and every participant
  was told to roll back, or some commit failed for good, the others stand, and the failed servers
  wait in the compensation queue.
\<close>

theorem reported_outcome:
  assumes "network_ok net" "pending_compensations m tx_id = None" "execute_transaction net m tx_id now ps op stop = (m', done, Inr r)"
  shows "if success r
    then committed_servers r = ps \<and> (\<forall>p \<in> set ps. Committed p \<in> set done) \<and> (\<forall>a \<in> set done. \<not> is_roll a)
    else committed_servers r = [] \<and>
      ((\<forall>a \<in> set done. \<not> is_commit a) \<and> (\<forall>p \<in> set ps. RolledBack p \<in> set done \<or> RollbackFailed p \<in> set done) \<or>
       (\<forall>a \<in> set done. \<not> is_roll a) \<and>
       (\<exists>pc. pending_compensations m' tx_id = Some pc \<and> failed_participants pc \<noteq> [] \<and>
          (\<forall>p \<in> set ps. Committed p \<in> set done \<or> p \<in> set (failed_participants pc))))"
proof -
  let ?tx = "tx_with_id tx_id ps (nat now)"
  have tx: "tx_state ?tx = TxInit" "participant_servers ?tx = ps" "transaction_id ?tx = tx_id" by (simp_all add: tx_with_id_def)
  obtain outcome where run: "run_2pc net m ?tx op = (done, outcome)"
    and reg: "\<forall>p \<in> set ps. registry m p \<noteq> None" and m': "m' = foldl (apply_act (wal_cd net) tx_id) m done"
    and r: "r = (case outcome of Inl e \<Rightarrow> \<lparr>result_tx = tx_id, success = False, committed_servers = []\<rparr>
          | Inr c \<Rightarrow> \<lparr>result_tx = tx_id, success = (c \<noteq> None), committed_servers = (case c of None \<Rightarrow> [] | Some sids \<Rightarrow> sids)\<rparr>)"
    by (rule execute_returned [OF assms(3)])
  note out = run_2pc_outcome [OF run tx(1) assms(1), unfolded tx, OF reg]
  have q: "pending_compensations m' tx_id = Some \<lparr>pc_transaction_id = tx_id, failed_participants = queued_of done, retries = 0\<rparr>"
    if "queued_of done \<noteq> []"
    using apply_acts_pending [of "wal_cd net" tx_id m "done"] assms(2) that by (simp add: m' Let_def map_default_def)
  show ?thesis
  proof (cases outcome)
    case (Inl e)
    then show ?thesis using out q r by auto
  next
    case (Inr w)
    then show ?thesis using out r by (cases w) auto
  qed
qed

theorem reported_outcome_witness:
  "\<exists>m' done r. execute_transaction (demo_network (\<lambda>_. Inr ())) demo_mesh ''t'' 0 [''s''] ''op'' None = (m', done, Inr r) \<and>
     success r \<and> Committed ''s'' \<in> set done \<and> committed_servers r = [''s'']"
proof -
  obtain m' "done" r where e: "execute_transaction (demo_network (\<lambda>_. Inr ())) demo_mesh ''t'' 0 [''s''] ''op'' None = (m', done, Inr r)" "success r"
    by (simp add: demo_execute Let_def)
  with reported_outcome [OF demo_network_ok _ e(1)] show ?thesis by auto
qed


definition demo_crashed :: mcp_mesh where
  "demo_crashed = foldl (apply_act unary_codec ''t'') demo_mesh [Prepared ''s'', Logged (demo_entry TxPrepare)]"

lemma demo_crashed_fields [simp]:
  "registry demo_crashed = registry demo_mesh" "config demo_crashed = mesh_config_default"
  by (simp_all only: demo_crashed_def apply_acts_fields demo_fields)

lemma demo_responsive: "on_commit net = (\<lambda>_ _ _. Inr ()) \<Longrightarrow> registry m = registry demo_mesh \<Longrightarrow> responsive net m ''t'' [''s'']"
  by (auto simp: responsive_def)


text \<open>
  A timeout contradicts the log. When the overall timeout of a transaction fires after its prepare
  entry was written, every participant is told to roll back, but nothing of it is logged: a recovery
  from that log, with participants that answer, commits the same transaction at every participant
  that was not committed before the timeout.
\<close>

theorem timeout_then_recovery_commits:
  assumes "network_ok net" "network_ok net2" "wal_cd net2 = wal_cd net"
    "wal_store m = Some (wal_file (wal_cd net) old)" "\<forall>e \<in> set old. wal_accepts (wal_cd net) e \<and> entry_tx e \<noteq> tx_id"
    "durable net m tx_id ps" "execute_transaction net m tx_id now ps op stop = (m', done, Inl e)" "decided done"
    "wal_store m2 = wal_store m'" "responsive net2 m2 tx_id ps" "recover_from_wal net2 m2 = (m3, acts2, res2)"
  shows "e = TransactionTimeout tx_id (transaction_timeout_ms (config m)) \<and>
    (\<forall>p \<in> set ps. (RolledBack p \<in> set done \<or> RollbackFailed p \<in> set done) \<and>
       (Committed p \<in> set done \<or> (tx_id, Committed p) \<in> set acts2))"
proof -
  let ?tx = "tx_with_id tx_id ps (nat now)" and ?R = "rollback_phase net m (tx_with_id tx_id ps (nat now))"
  have ne: "done \<noteq> []" using assms(8) by (auto simp: decided_def)
  obtain acts outcome k where run: "run_2pc net m ?tx op = (acts, outcome)" and reg: "\<forall>p \<in> set ps. registry m p \<noteq> None"
    and m': "m' = foldl (apply_act (wal_cd net) tx_id) m done" and d: "done = take k acts @ ?R"
    and e: "e = TransactionTimeout tx_id (transaction_timeout_ms (config m))"
    by (rule execute_stopped [OF assms(7) ne])
  have roll: "\<forall>a \<in> set ?R. is_roll a" using rollback_loop_acts unfolding rollback_phase_def by blast
  then have lg: "logged_of ?R = []" by (intro no_logged) blast
  have dec: "decided (take k acts)" using assms(8) by (simp add: decided_def d lg)
  have l: "logged_of done = logged_of (take k acts)" by (simp add: d lg)
  have w: "wal_store m2 = map_option (\<lambda>w. w @ []) (wal_store (foldl (apply_act (wal_cd net) tx_id) m done))"
    by (simp add: assms(9) m' option.map_ident)
  have "\<forall>p \<in> set ps. Committed p \<in> set (take k acts) \<or> (tx_id, Committed p) \<in> set acts2"
    using prefix_recovered [OF assms(1-6) run l _ w assms(10,11)] by (simp add: dec)
  moreover have "RolledBack p \<in> set ?R \<or> RollbackFailed p \<in> set ?R" if "p \<in> set ps" for p
  proof -
    have "p \<in> set (arrivals net ps)" using that assms(1) by (simp add: network_ok_def)
    then show ?thesis
      using rollback_loop_acts [of net "registry m" tx_id "arrivals net ps"] reg that by (simp add: rollback_phase_def tx_with_id_def)
  qed
  ultimately show ?thesis by (auto simp: d e)
qed

lemma demo_rollback: "rollback_phase (demo_network f) demo_mesh (tx_with_id ''t'' [''s''] 0) = [RolledBack ''s'']"
  by (simp add: rollback_phase_def tx_with_id_def)

lemma demo_stopped:
  "execute_transaction (demo_network (\<lambda>_. Inr ())) demo_mesh ''t'' 0 [''s''] op (Some 2) =
     (let acts = [Prepared ''s'', Logged (demo_entry TxPrepare), RolledBack ''s'']
      in (foldl (apply_act unary_codec ''t'') demo_mesh acts, acts, Inl (TransactionTimeout ''t'' 200)))"
  by (simp add: execute_transaction_def demo_run demo_commit mesh_config_default_def is_alive_def Let_def demo_rollback)

theorem timeout_then_recovery_commits_witness:
  "\<exists>m3 acts2 res2. recover_from_wal (demo_network (\<lambda>_. Inr ())) demo_crashed = (m3, acts2, res2) \<and> (''t'', Committed ''s'') \<in> set acts2 \<and>
     RolledBack ''s'' \<in> set (fst (snd (execute_transaction (demo_network (\<lambda>_. Inr ())) demo_mesh ''t'' 0 [''s''] ''op'' (Some 2))))"
proof -
  let ?net = "demo_network (\<lambda>_. Inr ())" and ?done = "[Prepared ''s'', Logged (demo_entry TxPrepare), RolledBack ''s'']"
  obtain m3 acts2 res2 where rec: "recover_from_wal ?net demo_crashed = (m3, acts2, res2)" by (metis prod_cases3)
  have e: "execute_transaction ?net demo_mesh ''t'' 0 [''s''] ''op'' (Some 2) =
      (foldl (apply_act unary_codec ''t'') demo_mesh ?done, ?done, Inl (TransactionTimeout ''t'' 200))"
    unfolding demo_stopped Let_def ..
  have s: "wal_store demo_mesh = Some (wal_file (wal_cd ?net) [])" by (simp add: wal_file_def)
  have w: "wal_store demo_crashed = wal_store (foldl (apply_act unary_codec ''t'') demo_mesh ?done)"
    by (simp add: demo_crashed_def)
  have r: "responsive ?net demo_crashed ''t'' [''s'']" by (rule demo_responsive) (simp_all add: demo_network_def)
  have d: "decided ?done" by (simp add: decided_def demo_entry_def)
  have "\<forall>p \<in> set [''s'']. (RolledBack p \<in> set ?done \<or> RollbackFailed p \<in> set ?done) \<and>
       (Committed p \<in> set ?done \<or> (''t'', Committed p) \<in> set acts2)"
    using timeout_then_recovery_commits [OF demo_network_ok demo_network_ok refl s _ demo_durable e d w r rec] by simp
  with rec show ?thesis unfolding e by simp
qed

text \<open>
  Recovery forgets a decided transaction. When a participant of a prepared transaction is no longer
  registered, recovery reports the transaction as recovered and empties the log, although neither this
  participant nor any behind it is committed or queued for compensation.
\<close>

theorem recovery_forgets_unregistered:
  assumes "network_ok net" "disk_ok net" "wal_store m = Some w" "final_state (wal_read_all (wal_cd net) w) t = Some e"
    "entry_state e = TxPrepare" "participants_ack e = pre @ s # post" "registry m s = None" "distinct (participants_ack e)"
    "recover_from_wal net m = (m', acts, res)"
  shows "(\<exists>rec. res = Inr rec \<and> t \<in> set rec) \<and>
    (\<forall>p \<in> set (s # post). (t, Committed p) \<notin> set acts \<and> (t, CommitFailed p) \<notin> set acts \<and> (t, Queued p) \<notin> set acts) \<and>
    wal_store m' = Some []"
proof -
  let ?es = "wal_read_all (wal_cd net) w"
  have mem: "e \<in> set ?es" "entry_tx e = t" using final_state_mem [of ?es t] assms(4) by blast+
  then have ne: "?es \<noteq> []" by auto
  let ?ts = "iteration net (remdups (map entry_tx ?es))"
  have t: "t \<in> set ?ts" using assms(1) mem by (auto simp: network_ok_def)
  obtain m2 a2 rec where l: "recover_loop net (final_state ?es) ?ts m = (m2, a2, rec)" by (metis prod_cases3)
  have a: "a2 = acts" "res = Inr rec" "m' = m2\<lparr>wal_store := map_option (\<lambda>w. fst (wal_truncate (disk_ok net) w)) (wal_store m2)\<rparr>"
    using assms(3,9) ne l by (simp_all add: recover_from_wal_def Let_def)
  note R = recover_loop_member [OF l, of t]
  have no: "(t, b) \<notin> set acts" if b: "b \<in> {Committed p, CommitFailed p, Queued p}" "p \<in> set (s # post)" for b p
  proof
    assume "(t, b) \<in> set acts"
    then obtain n acts0 r where n: "registry n = registry m" "b \<in> set acts0"
      "commit_phase net n ((tx_with_id t (pre @ s # post) 0)\<lparr>tx_state := TxCommit\<rparr>) = (acts0, r)"
      using R assms(4,6) a(1) by fastforce
    obtain q c where c: "commit_loop net (registry m) (max_retries (config n)) t (pre @ s # post) [] [] = (c, q)" by force
    note stop = commit_loop_stops [OF c assms(7)]
    then obtain e' where "q = Inl e'" by blast
    then have "acts0 = c" using n c by (simp add: commit_phase_def tx_with_id_def)
    then obtain x where "x \<in> set pre" "b \<in> {Committed x, CommitFailed x, Queued x}" using stop n(2) by blast
    then have "p \<in> set pre" using b(1) by auto
    with b(2) assms(6,8) show False by auto
  qed
  have "t \<in> set rec" using R t assms(4,5) by simp
  moreover have "wal_store m' = Some []"
    using a(3) assms(2,3) recover_loop_keeps_wal [OF l] by (cases "wal_store m2") (simp_all add: wal_truncate_def)
  ultimately show ?thesis using a(2) no by blast
qed

definition demo_lost :: mcp_mesh where
  "demo_lost = demo_mesh\<lparr>registry := Map.empty, wal_store := Some (wal_file unary_codec [demo_entry TxPrepare])\<rparr>"

theorem recovery_forgets_unregistered_witness:
  "\<exists>m' acts rec. recover_from_wal (demo_network (\<lambda>_. Inr ())) demo_lost = (m', acts, Inr rec) \<and> ''t'' \<in> set rec \<and>
     (''t'', Committed ''s'') \<notin> set acts \<and> wal_store m' = Some []"
proof -
  let ?net = "demo_network (\<lambda>_. Inr ())"
  obtain m' acts res where rec: "recover_from_wal ?net demo_lost = (m', acts, res)" by (metis prod_cases3)
  have w: "wal_store demo_lost = Some (wal_file unary_codec [demo_entry TxPrepare])" by (simp add: demo_lost_def)
  have "wal_accepts unary_codec (demo_entry TxPrepare)" by (rule unary_accepts) (simp_all add: demo_entry_def)
  then have "wal_read_all unary_codec (wal_file unary_codec [demo_entry TxPrepare]) = [demo_entry TxPrepare]"
    using wal_round_trip [OF unary_codec_ok, of "[demo_entry TxPrepare]" "[]"] by simp
  then have f: "final_state (wal_read_all (wal_cd ?net) (wal_file unary_codec [demo_entry TxPrepare])) ''t'' = Some (demo_entry TxPrepare)"
    by (simp add: final_state_def) (simp add: demo_entry_def)
  have "(\<exists>rec. res = Inr rec \<and> ''t'' \<in> set rec) \<and>
    (\<forall>p \<in> set [''s'']. (''t'', Committed p) \<notin> set acts \<and> (''t'', CommitFailed p) \<notin> set acts \<and> (''t'', Queued p) \<notin> set acts) \<and>
    wal_store m' = Some []"
    by (rule recovery_forgets_unregistered [OF demo_network_ok _ w f _ _ _ _ rec, where pre = "[]"])
      (simp_all add: demo_entry_def demo_lost_def)
  with rec show ?thesis by auto
qed

end
