(* ===== verification/Mesh_Registry.thy ===== *)
theory Mesh_Registry
  imports Mesh_Tx
begin

text \<open>
  The server registry of the tool mesh and the check of server endpoints:
  \<^verbatim>\<open>mcp-mesh/src/server_registry.rs\<close>, and the second check before a connection,
  \<^verbatim>\<open>validate_endpoint_dns\<close> of \<^verbatim>\<open>mcp-mesh/src/quantum/participant_client.rs\<close>. What the code takes from
  the Rust standard library is written out: splitting of strings and the parser behind
  \<^verbatim>\<open>str::parse::<IpAddr>\<close>, whose functions return the value with the unread text, or \<open>None\<close> with
  the position unchanged. The answer of the name server is an argument.
\<close>

unbundle bit_operations_syntax

section \<open>Strings\<close>

text \<open>\<^verbatim>\<open>s.split(sep).nth(1)\<close> for a separator string.\<close>

definition split_nth1 :: "string \<Rightarrow> string \<Rightarrow> string option" where
  "split_nth1 sep s =
     (case str_find s sep of
        None \<Rightarrow> None
      | Some i \<Rightarrow>
          (let rest = drop (i + length sep) s
           in Some (case str_find rest sep of None \<Rightarrow> rest | Some j \<Rightarrow> take j rest)))"

text \<open>\<^verbatim>\<open>s.split(c).next()\<close>, which is always there.\<close>

definition split_first :: "char \<Rightarrow> string \<Rightarrow> string" where
  "split_first c s = takeWhile (\<lambda>x. x \<noteq> c) s"

text \<open>\<^verbatim>\<open>s.rsplit_once(c).map(|(h, _)| h).unwrap_or(s)\<close>\<close>

definition rsplit_head :: "char \<Rightarrow> string \<Rightarrow> string" where
  "rsplit_head c s = (if c \<in> set s then rev (tl (dropWhile (\<lambda>x. x \<noteq> c) (rev s))) else s)"

definition to_ascii_lowercase :: "string \<Rightarrow> string" where
  "to_ascii_lowercase s =
     map (\<lambda>c. let n = of_char c :: nat in if 65 \<le> n \<and> n \<le> 90 then char_of (n + 32) else c) s"

section \<open>Parsing an address\<close>

datatype ip_addr = V4 byte byte byte byte | V6 "16 word list"

definition to_digit :: "nat \<Rightarrow> char \<Rightarrow> nat option" where
  "to_digit radix c =
     (let n = of_char c :: nat;
          d = (if 48 \<le> n \<and> n \<le> 57 then n - 48 else if 97 \<le> n \<and> n \<le> 122 then n - 87
               else if 65 \<le> n \<and> n \<le> 90 then n - 55 else radix)
      in if d < radix then Some d else None)"

fun read_digits :: "nat \<Rightarrow> nat \<Rightarrow> string \<Rightarrow> nat \<Rightarrow> nat \<Rightarrow> (nat \<times> nat \<times> string) option" where
  "read_digits radix max_digits [] v n = Some (v, n, [])"
| "read_digits radix max_digits (c # cs) v n =
     (case to_digit radix c of
        None \<Rightarrow> Some (v, n, c # cs)
      | Some d \<Rightarrow> if max_digits < n + 1 then None else read_digits radix max_digits cs (v * radix + d) (n + 1))"

text \<open>\<open>bound\<close> is the largest value of the integer type read.\<close>

definition read_number :: "nat \<Rightarrow> nat \<Rightarrow> bool \<Rightarrow> nat \<Rightarrow> string \<Rightarrow> (nat \<times> string) option" where
  "read_number radix max_digits allow_zero_prefix bound s =
     (case read_digits radix max_digits s 0 0 of
        None \<Rightarrow> None
      | Some (v, n, rest) \<Rightarrow>
          if n = 0 then None
          else if \<not> allow_zero_prefix \<and> hd s = CHR ''0'' \<and> 1 < n then None
          else if bound < v then None
          else Some (v, rest))"

definition read_given_char :: "char \<Rightarrow> string \<Rightarrow> string option" where
  "read_given_char c s = (case s of [] \<Rightarrow> None | x # xs \<Rightarrow> if x = c then Some xs else None)"

definition read_separator :: "char \<Rightarrow> nat \<Rightarrow> (string \<Rightarrow> ('a \<times> string) option) \<Rightarrow> string \<Rightarrow> ('a \<times> string) option" where
  "read_separator sep index inner s =
     (if 0 < index then (case read_given_char sep s of None \<Rightarrow> None | Some s' \<Rightarrow> inner s') else inner s)"

definition read_octet :: "nat \<Rightarrow> string \<Rightarrow> (byte \<times> string) option" where
  "read_octet index s =
     map_option (map_prod of_nat id) (read_separator CHR ''.'' index (read_number 10 3 False 255) s)"

definition read_ipv4_addr :: "string \<Rightarrow> ((byte \<times> byte \<times> byte \<times> byte) \<times> string) option" where
  "read_ipv4_addr s =
     (case read_octet 0 s of
        None \<Rightarrow> None
      | Some (a, s1) \<Rightarrow>
          (case read_octet 1 s1 of
             None \<Rightarrow> None
           | Some (b, s2) \<Rightarrow>
               (case read_octet 2 s2 of
                  None \<Rightarrow> None
                | Some (c, s3) \<Rightarrow>
                    (case read_octet 3 s3 of None \<Rightarrow> None | Some (d, s4) \<Rightarrow> Some ((a, b, c, d), s4)))))"

definition from_be :: "byte \<Rightarrow> byte \<Rightarrow> 16 word" where
  "from_be a b = of_nat (256 * unat a + unat b)"

text \<open>
  \<^verbatim>\<open>read_groups\<close> with \<open>left\<close> slots to fill from position \<open>i\<close> on; the result holds the groups that were
  written, whether they end in a dotted quad, and the unread text.
\<close>

fun read_groups :: "nat \<Rightarrow> nat \<Rightarrow> string \<Rightarrow> 16 word list \<times> bool \<times> string" where
  "read_groups i 0 s = ([], False, s)"
| "read_groups i (Suc left) s =
     (case (if 0 < left then read_separator CHR '':'' i read_ipv4_addr s else None) of
        Some ((a, b, c, d), s') \<Rightarrow> ([from_be a b, from_be c d], True, s')
      | None \<Rightarrow>
          (case read_separator CHR '':'' i (read_number 16 4 True 65535) s of
             None \<Rightarrow> ([], False, s)
           | Some (g, s') \<Rightarrow> (let (gs, v4, rest) = read_groups (i + 1) left s' in (of_nat g # gs, v4, rest))))"

definition read_ipv6_addr :: "string \<Rightarrow> (16 word list \<times> string) option" where
  "read_ipv6_addr s =
     (case read_groups 0 8 s of
        (head, head_ipv4, s1) \<Rightarrow>
          if length head = 8 then Some (head, s1)
          else if head_ipv4 then None
          else (case read_given_char CHR '':'' s1 of
                  None \<Rightarrow> None
                | Some s2 \<Rightarrow>
                    (case read_given_char CHR '':'' s2 of
                       None \<Rightarrow> None
                     | Some s3 \<Rightarrow>
                         (case read_groups 0 (8 - (length head + 1)) s3 of
                            (tail, _, s4) \<Rightarrow> Some (head @ replicate (8 - length head - length tail) 0 @ tail, s4)))))"

definition parse_ip :: "string \<Rightarrow> ip_addr option" where
  "parse_ip s =
     (case (case read_ipv4_addr s of
              Some ((a, b, c, d), rest) \<Rightarrow> Some (V4 a b c d, rest)
            | None \<Rightarrow> map_option (map_prod V6 id) (read_ipv6_addr s)) of
        Some (ip, []) \<Rightarrow> Some ip
      | _ \<Rightarrow> None)"

section \<open>The endpoint check\<close>

definition extract_host :: "string \<Rightarrow> (mcp_error, string) result" where
  "extract_host ep =
     (let after_scheme = (case split_nth1 ''://'' ep of None \<Rightarrow> ep | Some s \<Rightarrow> s);
          authority = split_first CHR ''/'' after_scheme;
          host = (case authority of
                    [] \<Rightarrow> rsplit_head CHR '':'' authority
                  | c # stripped \<Rightarrow>
                      if c = CHR ''['' then split_first CHR '']'' stripped else rsplit_head CHR '':'' authority)
      in if host = [] then Inl (SsrfBlocked ep) else Inr host)"

definition is_reserved_domain :: "string \<Rightarrow> bool" where
  "is_reserved_domain domain \<longleftrightarrow>
     to_ascii_lowercase domain \<in>
       {''localhost'', ''metadata.google.internal'', ''metadata.aws.internal'', ''metadata.azure.com'',
        ''169.254.169.254.nip.io'', ''kubernetes.default.svc'', ''kubernetes.default.svc.cluster.local''}"

definition is_reserved_ipv4 :: "byte \<Rightarrow> byte \<Rightarrow> byte \<Rightarrow> byte \<Rightarrow> bool" where
  "is_reserved_ipv4 a b c d \<longleftrightarrow>
     a = 0 \<or> a = 10 \<or> a = 100 \<and> b AND 0xC0 = 64 \<or> a = 127 \<or> a = 169 \<and> b = 254 \<or> a = 172 \<and> b AND 0xF0 = 16 \<or>
     a = 192 \<and> b = 168 \<or> a AND 0xF0 = 224 \<or> [a, b, c, d] = [255, 255, 255, 255]"

definition is_reserved_ipv6 :: "16 word list \<Rightarrow> bool" where
  "is_reserved_ipv6 s \<longleftrightarrow>
     s = [0, 0, 0, 0, 0, 0, 0, 1] \<or> s = [0, 0, 0, 0, 0, 0, 0, 0] \<or> s ! 0 AND 0xFE00 = 0xFC00 \<or> s ! 0 AND 0xFFC0 = 0xFE80"

fun is_reserved_ip :: "ip_addr \<Rightarrow> bool" where
  "is_reserved_ip (V4 a b c d) = is_reserved_ipv4 a b c d"
| "is_reserved_ip (V6 s) = is_reserved_ipv6 s"

definition validate_endpoint :: "string \<Rightarrow> (mcp_error, unit) result" where
  "validate_endpoint ep =
     (case extract_host ep of
        Inl e \<Rightarrow> Inl e
      | Inr host \<Rightarrow>
          if is_reserved_domain host then Inl (SsrfBlocked ep)
          else (case parse_ip host of
                  Some ip \<Rightarrow> if is_reserved_ip ip then Inl (SsrfBlocked ep) else Inr ()
                | None \<Rightarrow> Inr ()))"

text \<open>The check before a connection: \<open>lookup\<close> is the resolver, \<open>shown\<close> prints an address for the error.\<close>

fun check_resolved :: "(ip_addr \<Rightarrow> string) \<Rightarrow> string \<Rightarrow> ip_addr list \<Rightarrow> (mcp_error, unit) result" where
  "check_resolved shown host [] = Inr ()"
| "check_resolved shown host (ip # ips) =
     (if is_reserved_ip ip then Inl (DnsRebindingBlocked host (shown ip)) else check_resolved shown host ips)"

definition validate_endpoint_dns ::
  "(string \<Rightarrow> (string, ip_addr list) result) \<Rightarrow> (ip_addr \<Rightarrow> string) \<Rightarrow> string \<Rightarrow> string \<Rightarrow> (mcp_error, unit) result" where
  "validate_endpoint_dns lookup shown sid ep =
     (case extract_host ep of
        Inl e \<Rightarrow> Inl e
      | Inr host \<Rightarrow>
          if parse_ip host \<noteq> None then Inr ()
          else (case lookup (host @ '':0'') of
                  Inl e \<Rightarrow> Inl (NetworkError sid ep e)
                | Inr ips \<Rightarrow> check_resolved shown host ips))"

section \<open>The registry\<close>

record server_registry =
  servers :: "string \<rightharpoonup> mesh_server"
  capacity :: nat

definition registry_new :: "nat \<Rightarrow> server_registry" where
  "registry_new c = \<lparr>servers = Map.empty, capacity = c\<rparr>"

definition mesh_server_new :: "int \<Rightarrow> string \<Rightarrow> string \<Rightarrow> string list \<Rightarrow> mesh_server" where
  "mesh_server_new now i ep caps = \<lparr>server_id = i, endpoint = ep, capabilities = caps, last_heartbeat = now\<rparr>"

definition touch_heartbeat :: "int \<Rightarrow> mesh_server \<Rightarrow> mesh_server" where
  "touch_heartbeat now s = s\<lparr>last_heartbeat := now\<rparr>"

definition register :: "server_registry \<Rightarrow> mesh_server \<Rightarrow> server_registry \<times> (mcp_error, unit) result" where
  "register r s =
     (if capacity r = 0 then (r, Inl (RegistryFull 0))
      else (case validate_endpoint (endpoint s) of
              Inl e \<Rightarrow> (r, Inl e)
            | Inr _ \<Rightarrow> (r\<lparr>servers := (servers r)(server_id s \<mapsto> s)\<rparr>, Inr ())))"

definition unregister :: "server_registry \<Rightarrow> string \<Rightarrow> server_registry \<times> (mcp_error, unit) result" where
  "unregister r sid =
     (if servers r sid = None then (r, Inl (ServerNotFound sid))
      else (r\<lparr>servers := (servers r)(sid := None)\<rparr>, Inr ()))"

definition heartbeat :: "server_registry \<Rightarrow> int \<Rightarrow> string \<Rightarrow> server_registry \<times> (mcp_error, unit) result" where
  "heartbeat r now sid =
     (case servers r sid of
        None \<Rightarrow> (r, Inl (ServerNotFound sid))
      | Some s \<Rightarrow> (r\<lparr>servers := (servers r)(sid \<mapsto> touch_heartbeat now s)\<rparr>, Inr ()))"

text \<open>The two lists follow the iteration order of the hash map, given by its list of keys.\<close>

definition list_alive :: "server_registry \<Rightarrow> string list \<Rightarrow> int \<Rightarrow> nat \<Rightarrow> string list" where
  "list_alive r keys now timeout_ms =
     filter (\<lambda>k. case servers r k of None \<Rightarrow> False | Some s \<Rightarrow> is_alive s now timeout_ms) keys"

definition list_all_servers :: "server_registry \<Rightarrow> string list \<Rightarrow> string list" where
  "list_all_servers r keys = filter (\<lambda>k. servers r k \<noteq> None) keys"

definition registry_len :: "server_registry \<Rightarrow> nat" where
  "registry_len r = card (dom (servers r))"

text \<open>The delegations of \<^verbatim>\<open>McpMesh\<close>, whose registry is created with the configured capacity.\<close>

definition mesh_registry :: "mcp_mesh \<Rightarrow> server_registry" where
  "mesh_registry m = \<lparr>servers = registry m, capacity = registry_capacity (config m)\<rparr>"

definition register_server :: "mcp_mesh \<Rightarrow> mesh_server \<Rightarrow> mcp_mesh \<times> (mcp_error, unit) result" where
  "register_server m s = (let (r, res) = register (mesh_registry m) s in (m\<lparr>registry := servers r\<rparr>, res))"

definition unregister_server :: "mcp_mesh \<Rightarrow> string \<Rightarrow> mcp_mesh \<times> (mcp_error, unit) result" where
  "unregister_server m sid = (let (r, res) = unregister (mesh_registry m) sid in (m\<lparr>registry := servers r\<rparr>, res))"

definition mesh_heartbeat :: "mcp_mesh \<Rightarrow> int \<Rightarrow> string \<Rightarrow> mcp_mesh \<times> (mcp_error, unit) result" where
  "mesh_heartbeat m now sid = (let (r, res) = heartbeat (mesh_registry m) now sid in (m\<lparr>registry := servers r\<rparr>, res))"

end
