(* ===== verification/Mesh_Endpoint.thy ===== *)
theory Mesh_Endpoint
  imports Mesh_Registry
begin

text \<open>
  What the endpoint check of the tool mesh lets through: the addresses written as dotted quads are
  accepted exactly outside the reserved blocks, addresses mapped into IPv6 always, and every server of
  the registry has passed the check.
\<close>

unbundle bit_operations_syntax

section \<open>Splitting an endpoint\<close>

lemma find_from_first: "CHR '':'' \<notin> set xs \<Longrightarrow> find_from i ''://'' (xs @ ''://'' @ ys) = Some (i + length xs)"
  by (induction xs arbitrary: i) auto

lemma find_from_none: "CHR ''/'' \<notin> set xs \<Longrightarrow> find_from i ''://'' xs = None"
proof -
  assume "CHR ''/'' \<notin> set xs"
  then have "\<not> sublist ''://'' xs" using set_mono_sublist [of "''://''" xs] by auto
  then show ?thesis using find_from_iff [of i "''://''" xs] by blast
qed

lemma sep_position:
  assumes "find_from 0 ''://'' (as @ CHR ''/'' # ys) = Some j" "CHR ''/'' \<notin> set as" "as \<noteq> []" "last as \<noteq> CHR '':''"
  shows "length as \<le> j"
proof (rule ccontr)
  assume "\<not> length as \<le> j"
  then have j: "j < length as" by simp
  let ?s = "as @ CHR ''/'' # ys"
  from find_from_position [OF assms(1)] have p: "prefix ''://'' (drop j ?s)" by simp
  then obtain zs where z: "drop j ?s = ''://'' @ zs" by (auto simp: prefix_def)
  have "?s ! j = drop j ?s ! 0" "?s ! (j + 1) = drop j ?s ! 1" using j nth_drop [of j ?s 0] nth_drop [of j ?s 1] by (simp_all del: drop_append)
  then have c: "as ! j = CHR '':''" "?s ! (j + 1) = CHR ''/''" unfolding z using j by (simp_all add: nth_append)
  show False
  proof (cases "j + 1 < length as")
    case True
    then show False using c(2) assms(2) by (metis nth_append nth_mem)
  next
    case False
    then have "j = length as - 1" using j by simp
    then show False using c(1) assms(3,4) by (simp add: last_conv_nth)
  qed
qed

lemma take_past: "length xs \<le> j \<Longrightarrow> take j (xs @ ys) = xs @ take (j - length xs) ys"
  by simp

lemma takeWhile_stop: "\<forall>x \<in> set xs. P x \<Longrightarrow> \<not> P y \<Longrightarrow> takeWhile P (xs @ y # ys) = xs"
  by (simp add: takeWhile_tail)

lemma rsplit_head_last: "c \<notin> set ys \<Longrightarrow> rsplit_head c (xs @ c # ys) = xs"
proof -
  assume a: "c \<notin> set ys"
  have "dropWhile (\<lambda>x. x \<noteq> c) (rev ys @ c # rev xs) = c # rev xs" using a by (induction ys rule: rev_induct) auto
  then show ?thesis by (simp add: rsplit_head_def)
qed

text \<open>The forms of an endpoint that the code documents: \<open>host:port\<close> and \<open>scheme://host:port/path\<close>.\<close>

fun endpoint_text :: "string option \<Rightarrow> string \<Rightarrow> string \<Rightarrow> string \<Rightarrow> string" where
  "endpoint_text None host port path = host @ CHR '':'' # port"
| "endpoint_text (Some scheme) host port path = scheme @ ''://'' @ host @ CHR '':'' # port @ CHR ''/'' # path"

definition digits :: "string \<Rightarrow> bool" where
  "digits s \<longleftrightarrow> s \<noteq> [] \<and> (\<forall>c \<in> set s. to_digit 10 c \<noteq> None)"

definition scheme_ok :: "string option \<Rightarrow> bool" where
  "scheme_ok sch \<longleftrightarrow> (case sch of None \<Rightarrow> True | Some s \<Rightarrow> CHR '':'' \<notin> set s)"

lemma digits_chars: "digits s \<Longrightarrow> CHR '':'' \<notin> set s \<and> CHR ''/'' \<notin> set s"
  by (auto simp: digits_def to_digit_def Let_def)

lemma authority_of_text:
  assumes "scheme_ok sch" "digits port" "CHR ''/'' \<notin> set host"
  shows "split_first CHR ''/'' (case split_nth1 ''://'' (endpoint_text sch host port path) of None \<Rightarrow> endpoint_text sch host port path | Some s \<Rightarrow> s) =
    host @ CHR '':'' # port"
proof -
  let ?a = "host @ CHR '':'' # port"
  have a: "CHR ''/'' \<notin> set ?a" "?a \<noteq> []" "last ?a \<noteq> CHR '':''"
    using digits_chars [OF assms(2)] assms(2,3) by (auto simp: digits_def) (metis last_in_set)
  show ?thesis
  proof (cases sch)
    case None
    have "split_nth1 ''://'' ?a = None" using find_from_none [OF a(1), of 0] by (simp add: split_nth1_def str_find_def)
    then show ?thesis using None a(1) by (auto simp: split_first_def takeWhile_eq_all_conv)
  next
    case (Some scheme)
    let ?rest = "?a @ CHR ''/'' # path"
    have "str_find (endpoint_text sch host port path) ''://'' = Some (length scheme)"
      using assms(1) find_from_first [of scheme 0 ?rest] Some by (simp add: scheme_ok_def str_find_def)
    moreover have "drop (length scheme + length ''://'') (endpoint_text sch host port path) = ?rest" using Some by simp
    ultimately have s: "split_nth1 ''://'' (endpoint_text sch host port path) =
        Some (case str_find ?rest ''://'' of None \<Rightarrow> ?rest | Some j \<Rightarrow> take j ?rest)"
      by (simp add: split_nth1_def Let_def cong: option.case_cong)
    show ?thesis
    proof (cases "str_find ?rest ''://''")
      case None
      then show ?thesis unfolding s using a(1) by (simp add: split_first_def takeWhile_append)
    next
      case (Some j)
      have j: "length ?a \<le> j" using sep_position [OF _ a] Some by (simp add: str_find_def)
      then have "take j ?rest = ?a @ take (j - length ?a) (CHR ''/'' # path)" by (rule take_past)
      moreover have "takeWhile (\<lambda>x. x \<noteq> CHR ''/'') (?a @ take n (CHR ''/'' # path)) = ?a" for n
        using a(1) by (cases n) (auto simp: takeWhile_append takeWhile_eq_all_conv)
      ultimately show ?thesis unfolding s Some by (simp only: option.case split_first_def)
    qed
  qed
qed

lemma extract_plain:
  assumes "scheme_ok sch" "digits port" "CHR ''/'' \<notin> set host" "host \<noteq> []" "hd host \<noteq> CHR ''[''"
  shows "extract_host (endpoint_text sch host port path) = Inr host"
  unfolding extract_host_def Let_def authority_of_text [OF assms(1-3)]
  using assms(4,5) rsplit_head_last [of "CHR '':''" port host] digits_chars [OF assms(2)] by (cases host) auto

lemma extract_bracketed:
  assumes "scheme_ok sch" "digits port" "CHR ''/'' \<notin> set h" "CHR '']'' \<notin> set h" "h \<noteq> []"
  shows "extract_host (endpoint_text sch (CHR ''['' # h @ '']'') port path) = Inr h"
proof -
  have a: "CHR ''/'' \<notin> set (CHR ''['' # h @ '']'')" using assms(3) by simp
  have "split_first CHR '']'' (h @ '']'' @ CHR '':'' # port) = h"
    unfolding split_first_def append_Cons append_Nil by (rule takeWhile_stop) (use assms(4) in auto)
  then show ?thesis unfolding extract_host_def Let_def authority_of_text [OF assms(1,2) a] using assms(5) by simp
qed

section \<open>Addresses as text\<close>

definition digit :: "nat \<Rightarrow> char" where
  "digit n = char_of (48 + n)"

fun dec :: "nat \<Rightarrow> string" where
  "dec n = (if n < 10 then [digit n] else dec (n div 10) @ [digit (n mod 10)])"

declare dec.simps [simp del]

fun quad :: "byte \<times> byte \<times> byte \<times> byte \<Rightarrow> string" where
  "quad (a, b, c, d) = dec (unat a) @ ''.'' @ dec (unat b) @ ''.'' @ dec (unat c) @ ''.'' @ dec (unat d)"

lemma to_digit_digit: "n < 10 \<Longrightarrow> to_digit 10 (digit n) = Some n"
  by (simp add: to_digit_def digit_def)

lemma digit_code: "n < 10 \<Longrightarrow> of_char (digit n) = 48 + n"
  by (simp add: digit_def)

lemma digit_zero:
  assumes "n < 10"
  shows "digit n = CHR ''0'' \<longleftrightarrow> n = 0"
proof
  assume "digit n = CHR ''0''"
  then have "of_char (digit n) = (of_char CHR ''0'' :: nat)" by (rule arg_cong)
  then show "n = 0" using digit_code [OF assms] by simp
next
  have "digit 0 = CHR ''0''" by code_simp
  then show "n = 0 \<Longrightarrow> digit n = CHR ''0''" by simp
qed

lemma dec_cases:
  assumes "n < 256"
  obtains "n < 10" "dec n = [digit n]"
  | x y where "n = 10 * x + y" "0 < x" "x < 10" "y < 10" "dec n = [digit x, digit y]"
  | x y z where "n = 100 * x + 10 * y + z" "0 < x" "x < 10" "y < 10" "z < 10" "dec n = [digit x, digit y, digit z]"
proof -
  consider "n < 10" | "10 \<le> n" "n < 100" | "100 \<le> n" by linarith
  then show thesis
  proof cases
    case 1
    then show thesis using that(1) by (simp add: dec.simps)
  next
    case 2
    then have "n div 10 < 10" "n mod 10 < 10" by simp_all
    moreover have "dec n = [digit (n div 10), digit (n mod 10)]" using 2 by (simp add: dec.simps)
    moreover have "n = 10 * (n div 10) + n mod 10" "0 < n div 10" using 2 by simp_all
    ultimately show thesis using that(2) by blast
  next
    case 3
    have "n div 10 div 10 < 10" "n div 10 mod 10 < 10" "n mod 10 < 10" "0 < n div 10 div 10" using 3 assms by simp_all
    moreover have "dec n = [digit (n div 10 div 10), digit (n div 10 mod 10), digit (n mod 10)]"
    proof -
      have "dec n = dec (n div 10) @ [digit (n mod 10)]" "dec (n div 10) = dec (n div 10 div 10) @ [digit (n div 10 mod 10)]"
        "dec (n div 10 div 10) = [digit (n div 10 div 10)]"
        using 3 assms by (subst dec.simps, simp)+
      then show ?thesis by (simp only: append.simps)
    qed
    moreover have "n = 100 * (n div 10 div 10) + 10 * (n div 10 mod 10) + n mod 10"
      using mult_div_mod_eq [of 10 n] mult_div_mod_eq [of 10 "n div 10"] by linarith
    ultimately show thesis using that(3) by blast
  qed
qed

definition stops :: "string \<Rightarrow> bool" where
  "stops rest \<longleftrightarrow> (case rest of [] \<Rightarrow> True | c # cs \<Rightarrow> to_digit 10 c = None)"

lemma read_digits_stops: "stops rest \<Longrightarrow> read_digits 10 m rest v n = Some (v, n, rest)"
  by (auto simp: stops_def split: list.splits)

lemma read_number_dec:
  assumes "n < 256" "stops rest"
  shows "read_number 10 3 False 255 (dec n @ rest) = Some (n, rest)"
  using assms(1)
proof (cases rule: dec_cases)
  case 1
  then show ?thesis using read_digits_stops [OF assms(2)] by (simp add: read_number_def to_digit_digit)
next
  case (2 x y)
  then show ?thesis using assms(1) read_digits_stops [OF assms(2)]
    by (simp add: read_number_def to_digit_digit digit_zero algebra_simps)
next
  case (3 x y z)
  then show ?thesis using assms(1) read_digits_stops [OF assms(2)]
    by (simp add: read_number_def to_digit_digit digit_zero algebra_simps)
qed

lemma dec_chars: "n < 256 \<Longrightarrow> c \<in> set (dec n) \<Longrightarrow> 48 \<le> (of_char c :: nat) \<and> (of_char c :: nat) \<le> 57"
  by (erule dec_cases) (auto simp: digit_code)

lemma dec_nonempty: "n < 256 \<Longrightarrow> dec n \<noteq> []"
  by (erule dec_cases) auto

lemma unat_byte_less: "unat (b :: byte) < 256"
  using unsigned_less [of b] by simp

lemma stops_dot [simp]: "stops (CHR ''.'' # s)" "stops []"
  by (simp_all add: stops_def to_digit_def)

lemma read_octet_dec:
  "stops rest \<Longrightarrow> read_octet 0 (dec (unat b) @ rest) = Some (b, rest)"
  "stops rest \<Longrightarrow> 0 < i \<Longrightarrow> read_octet i (CHR ''.'' # dec (unat b) @ rest) = Some (b, rest)"
  using read_number_dec [OF unat_byte_less [of b]] by (simp_all add: read_octet_def read_separator_def read_given_char_def)

lemma read_quad: "stops rest \<Longrightarrow> read_ipv4_addr (quad (a, b, c, d) @ rest) = Some ((a, b, c, d), rest)"
  by (simp add: read_ipv4_addr_def read_octet_dec)

lemma parse_quad: "parse_ip (quad (a, b, c, d)) = Some (V4 a b c d)"
  using read_quad [of "[]" a b c d] by (simp add: parse_ip_def del: quad.simps)

lemma quad_chars: "x \<in> set (quad (a, b, c, d)) \<Longrightarrow> x = CHR ''.'' \<or> 48 \<le> (of_char x :: nat) \<and> (of_char x :: nat) \<le> 57"
  using dec_chars [OF unat_byte_less] by auto

lemma quad_nonempty: "quad q \<noteq> []"
  by (cases q) simp

lemma parse_mapped: "parse_ip (''::ffff:'' @ quad (a, b, c, d)) = Some (V6 [0, 0, 0, 0, 0, 0xFFFF, from_be a b, from_be c d])"
proof -
  have no: "read_ipv4_addr (CHR '':'' # s) = None" "read_ipv4_addr (CHR ''f'' # s) = None"
    "read_number 16 4 True 65535 (CHR '':'' # s) = None" for s
    by (simp_all add: read_ipv4_addr_def read_octet_def read_separator_def read_number_def to_digit_def)
  have f: "read_number 16 4 True 65535 (''ffff:'' @ s) = Some (65535, CHR '':'' # s)" for s
    by (simp add: read_number_def to_digit_def)
  have q: "read_separator CHR '':'' 1 read_ipv4_addr (CHR '':'' # quad (a, b, c, d)) = Some ((a, b, c, d), [])"
    using read_quad [of "[]" a b c d] by (simp add: read_separator_def read_given_char_def)
  have h: "read_groups 0 8 (''::ffff:'' @ quad (a, b, c, d)) = ([], False, ''::ffff:'' @ quad (a, b, c, d))"
    using no read_groups.simps(2) [of 0 7 "''::ffff:'' @ quad (a, b, c, d)"] by (simp add: read_separator_def del: quad.simps)
  have g: "read_groups 0 7 (''ffff:'' @ quad (a, b, c, d)) = ([0xFFFF, from_be a b, from_be c d], True, [])"
  proof -
    have "read_groups 1 6 (CHR '':'' # quad (a, b, c, d)) = ([from_be a b, from_be c d], True, [])"
      using q read_groups.simps(2) [of 1 5 "CHR '':'' # quad (a, b, c, d)"] by (simp del: quad.simps)
    then show ?thesis
      using read_groups.simps(2) [of 0 6 "''ffff:'' @ quad (a, b, c, d)"] no(2) f [of "quad (a, b, c, d)"]
      by (simp add: read_separator_def del: quad.simps)
  qed
  have "replicate 5 (0 :: 16 word) = [0, 0, 0, 0, 0]" by (simp add: eval_nat_numeral)
  then have "read_ipv6_addr (''::ffff:'' @ quad (a, b, c, d)) = Some ([0, 0, 0, 0, 0, 0xFFFF, from_be a b, from_be c d], [])"
    unfolding read_ipv6_addr_def h using g by (simp add: read_given_char_def del: quad.simps)
  then show ?thesis using no(1) by (simp add: parse_ip_def del: quad.simps)
qed

section \<open>The reserved blocks\<close>

text \<open>An address block is its first address and the length of the prefix.\<close>

definition ipv4_nat :: "byte \<Rightarrow> byte \<Rightarrow> byte \<Rightarrow> byte \<Rightarrow> nat" where
  "ipv4_nat a b c d = unat d + 256 * (unat c + 256 * (unat b + 256 * unat a))"

definition in_block :: "nat \<Rightarrow> nat \<times> nat \<Rightarrow> bool" where
  "in_block x blk = (case blk of (base, len) \<Rightarrow> x div 2 ^ (32 - len) = base div 2 ^ (32 - len))"

definition reserved_blocks :: "(nat \<times> nat) list" where
  "reserved_blocks =
     [(ipv4_nat 0 0 0 0, 8), (ipv4_nat 10 0 0 0, 8), (ipv4_nat 100 64 0 0, 10), (ipv4_nat 127 0 0 0, 8),
      (ipv4_nat 169 254 0 0, 16), (ipv4_nat 172 16 0 0, 12), (ipv4_nat 192 168 0 0, 16), (ipv4_nat 224 0 0 0, 4),
      (ipv4_nat 255 255 255 255, 32)]"

lemma byte_enum: "(\<And>n. n < 256 \<Longrightarrow> P (of_nat n)) \<Longrightarrow> P (b :: byte)"
proof -
  assume a: "\<And>n. n < 256 \<Longrightarrow> P (of_nat n)"
  show "P b" using a [OF unat_byte_less [of b]] by simp
qed

lemma masks_enum:
  "\<forall>n \<in> set [0..<256]. (((of_nat n :: byte) AND 0xC0 = 64) = (n div 64 = 1)) \<and> (((of_nat n :: byte) AND 0xF0 = 16) = (n div 16 = 1)) \<and>
     (((of_nat n :: byte) AND 0xF0 = 224) = (n div 16 = 14))"
  by code_simp

lemma masks:
  "(b :: byte) AND 0xC0 = 64 \<longleftrightarrow> unat b div 64 = 1" "b AND 0xF0 = 16 \<longleftrightarrow> unat b div 16 = 1"
  "b AND 0xF0 = 224 \<longleftrightarrow> unat b div 16 = 14"
  using bspec [OF masks_enum, of "unat b"] unat_byte_less [of b] by simp_all

lemma ipv4_nat_div:
  "ipv4_nat a b c d div 2 ^ 24 = unat a" "ipv4_nat a b c d div 2 ^ 16 = unat b + 256 * unat a"
  "ipv4_nat a b c d div 2 ^ 22 = unat b div 64 + 4 * unat a" "ipv4_nat a b c d div 2 ^ 20 = unat b div 16 + 16 * unat a"
  "ipv4_nat a b c d div 2 ^ 28 = unat a div 16"
proof -
  let ?x = "ipv4_nat a b c d"
  have s: "(unat (o1 :: byte) + 256 * h) div 256 = h" for o1 h using unat_byte_less [of o1] by simp
  have x8: "?x div 256 = unat c + 256 * (unat b + 256 * unat a)" unfolding ipv4_nat_def by (rule s)
  have x16: "?x div 256 div 256 = unat b + 256 * unat a" unfolding x8 by (rule s)
  have x24: "?x div 256 div 256 div 256 = unat a" unfolding x16 by (rule s)
  have e: "(2 :: nat) ^ 16 = 256 * 256" "(2 :: nat) ^ 24 = 256 * 256 * 256" "(2 :: nat) ^ 22 = 256 * 256 * 64"
    "(2 :: nat) ^ 20 = 256 * 256 * 16" "(2 :: nat) ^ 28 = 256 * 256 * 256 * 16" by simp_all
  show "?x div 2 ^ 24 = unat a" unfolding e div_mult2_eq by (rule x24)
  show "?x div 2 ^ 16 = unat b + 256 * unat a" unfolding e div_mult2_eq by (rule x16)
  show "?x div 2 ^ 28 = unat a div 16" unfolding e div_mult2_eq x24 ..
  show "?x div 2 ^ 22 = unat b div 64 + 4 * unat a" unfolding e div_mult2_eq x16 by presburger
  show "?x div 2 ^ 20 = unat b div 16 + 16 * unat a" unfolding e div_mult2_eq x16 by presburger
qed

lemma pair_eq: "b < 256 \<Longrightarrow> y < 256 \<Longrightarrow> b + 256 * a = y + 256 * x \<longleftrightarrow> a = x \<and> b = (y :: nat)"
proof -
  assume b: "b < 256" "y < 256"
  have "(b + 256 * a) div 256 = a" "(y + 256 * x) div 256 = x" using b by simp_all
  then have "b + 256 * a = y + 256 * x \<Longrightarrow> a = x" by metis
  then show ?thesis by auto
qed

lemma ipv4_nat_eq: "ipv4_nat a b c d = ipv4_nat a' b' c' d' \<longleftrightarrow> [a, b, c, d] = [a', b', c', d']"
  by (simp only: ipv4_nat_def pair_eq unat_byte_less word_unat_eq_iff list.inject) auto

lemma reserved_ipv4_blocks:
  "is_reserved_ipv4 a b c d \<longleftrightarrow> (\<exists>blk \<in> set reserved_blocks. in_block (ipv4_nat a b c d) blk)"
proof -
  have ab: "unat a < 256" "unat b < 256" "unat c < 256" "unat d < 256" by (rule unat_byte_less)+
  have eq: "(w :: byte) = numeral k \<longleftrightarrow> unat w = unat (numeral k :: byte)" "w = 0 \<longleftrightarrow> unat w = 0" for w k
    by (simp_all add: word_unat_eq_iff)
  have pairs: "unat b + 256 * unat a = 43518 \<longleftrightarrow> unat a = 169 \<and> unat b = 254" "unat b + 256 * unat a = 49320 \<longleftrightarrow> unat a = 192 \<and> unat b = 168"
    using pair_eq [of "unat b" 254 "unat a" 169] pair_eq [of "unat b" 168 "unat a" 192] ab by simp_all
  have arith: "B < 4 \<Longrightarrow> B + 4 * A = 401 \<longleftrightarrow> A = 100 \<and> B = 1" "C < 16 \<Longrightarrow> C + 16 * A = 2753 \<longleftrightarrow> A = 172 \<and> C = 1" for A B C :: nat
    by presburger+
  have q1: "unat b div 64 + 4 * unat a = 401 \<longleftrightarrow> unat a = 100 \<and> unat b div 64 = 1" by (rule arith(1)) (use ab in simp)
  have q2: "unat b div 16 + 16 * unat a = 2753 \<longleftrightarrow> unat a = 172 \<and> unat b div 16 = 1" by (rule arith(2)) (use ab in simp)
  have "in_block (ipv4_nat a b c d) (ipv4_nat 255 255 255 255, 32) \<longleftrightarrow> [a, b, c, d] = [255, 255, 255, 255]"
    by (simp add: in_block_def ipv4_nat_eq)
  then show ?thesis
    using pairs q1 q2
    by (simp add: reserved_blocks_def in_block_def ipv4_nat_div [simplified] is_reserved_ipv4_def masks eq [of a] eq [of b])
qed

section \<open>Domains\<close>

lemma lowercase_plain: "\<forall>x \<in> set s. (of_char x :: nat) \<le> 58 \<Longrightarrow> to_ascii_lowercase s = s"
  by (induction s) (auto simp: to_ascii_lowercase_def Let_def)

text \<open>Every name of the list has a letter.\<close>

lemma plain_not_reserved: "\<forall>x \<in> set s. (of_char x :: nat) \<le> 58 \<Longrightarrow> \<not> is_reserved_domain s"
  using lowercase_plain [of s] by (auto simp: is_reserved_domain_def)

lemma colon_not_reserved: "\<not> is_reserved_domain (CHR '':'' # s)"
  by (simp add: is_reserved_domain_def to_ascii_lowercase_def)

section \<open>Endpoints with a dotted quad\<close>

lemma quad_host:
  assumes "scheme_ok sch" "digits port"
  shows "extract_host (endpoint_text sch (quad q) port path) = Inr (quad q)"
proof -
  obtain a b c d where q: "q = (a, b, c, d)" by (metis prod_cases4)
  have "x \<noteq> CHR ''/'' \<and> x \<noteq> CHR ''[''" if "x \<in> set (quad q)" for x using quad_chars [of x a b c d] that q by auto
  then show ?thesis using extract_plain [OF assms, of "quad q"] quad_nonempty [of q] hd_in_set by metis
qed

lemma validate_quad:
  assumes "scheme_ok sch" "digits port"
  shows "validate_endpoint (endpoint_text sch (quad (a, b, c, d)) port path) =
    (if is_reserved_ipv4 a b c d then Inl (SsrfBlocked (endpoint_text sch (quad (a, b, c, d)) port path)) else Inr ())"
proof -
  have "\<forall>x \<in> set (quad (a, b, c, d)). (of_char x :: nat) \<le> 58" using quad_chars [of _ a b c d] by fastforce
  then have "\<not> is_reserved_domain (quad (a, b, c, d))" by (rule plain_not_reserved)
  then show ?thesis by (simp add: validate_endpoint_def quad_host [OF assms] parse_quad del: quad.simps)
qed

lemma mapped_host:
  assumes "scheme_ok sch" "digits port"
  shows "extract_host (endpoint_text sch (''[::ffff:'' @ quad q @ '']'') port path) = Inr (''::ffff:'' @ quad q)"
proof -
  obtain a b c d where q: "q = (a, b, c, d)" by (metis prod_cases4)
  have "x \<noteq> CHR ''/'' \<and> x \<noteq> CHR '']''" if "x \<in> set (quad q)" for x using quad_chars [of x a b c d] that q by auto
  then show ?thesis using extract_bracketed [OF assms, of "''::ffff:'' @ quad q"] by auto
qed

lemma mapped_not_reserved: "\<not> is_reserved_ipv6 [0, 0, 0, 0, 0, 0xFFFF, x, y]"
  by (simp add: is_reserved_ipv6_def)

section \<open>The registry\<close>

inductive registry_step :: "server_registry \<Rightarrow> server_registry \<Rightarrow> bool" where
  registers: "register r s = (r', res) \<Longrightarrow> registry_step r r'"
| unregisters: "unregister r sid = (r', res) \<Longrightarrow> registry_step r r'"
| beats: "heartbeat r now sid = (r', res) \<Longrightarrow> registry_step r r'"

definition registry_ok :: "server_registry \<Rightarrow> bool" where
  "registry_ok r \<longleftrightarrow> (\<forall>k s. servers r k = Some s \<longrightarrow> server_id s = k \<and> validate_endpoint (endpoint s) = Inr ())"

lemma registry_ok_step: "registry_ok r \<Longrightarrow> registry_step r r' \<Longrightarrow> registry_ok r'"
  by (erule registry_step.cases)
    (auto simp: registry_ok_def register_def unregister_def heartbeat_def touch_heartbeat_def split: if_splits sum.splits option.splits)

interpretation registry_system: invariant_system "\<lambda>r. \<exists>c. r = registry_new c" registry_step registry_ok
  by (unfold_locales, (auto simp: registry_ok_def registry_new_def)[1], rule registry_ok_step)

lemma check_resolved_ok: "check_resolved shown host ips = Inr () \<longleftrightarrow> (\<forall>ip \<in> set ips. \<not> is_reserved_ip ip)"
  by (induction ips) auto

section \<open>What the check promises\<close>

text \<open>
  The check of literal addresses is exact. An endpoint whose host is a dotted quad, in each of the forms
  \<open>host:port\<close> and \<open>scheme://host:port/path\<close>, is refused exactly when the address lies in one of the nine
  reserved blocks, for every address, port, scheme and path.
\<close>

theorem dotted_endpoint_decided:
  assumes "scheme_ok sch" "digits port"
  shows "validate_endpoint (endpoint_text sch (quad (a, b, c, d)) port path) =
    (if \<exists>blk \<in> set reserved_blocks. in_block (ipv4_nat a b c d) blk
     then Inl (SsrfBlocked (endpoint_text sch (quad (a, b, c, d)) port path)) else Inr ())"
  unfolding validate_quad [OF assms] reserved_ipv4_blocks ..

theorem dotted_endpoint_decided_witness:
  "validate_endpoint ''http://169.254.169.254:80/latest'' = Inl (SsrfBlocked ''http://169.254.169.254:80/latest'') \<and>
   validate_endpoint ''203.0.113.1:8080'' = Inr ()"
proof -
  have d: "dec 169 = ''169''" "dec 254 = ''254''" "dec 203 = ''203''" "dec 0 = ''0''" "dec 113 = ''113''" "dec (Suc 0) = ''1''" by code_simp+
  have p: "digits ''80''" "digits ''8080''" "scheme_ok (Some ''http'')" "scheme_ok None" by code_simp+
  have b: "is_reserved_ipv4 169 254 169 254" "\<not> is_reserved_ipv4 203 0 113 1" by code_simp+
  show ?thesis
    using dotted_endpoint_decided [OF p(3,1), of 169 254 169 254 "''latest''"] dotted_endpoint_decided [OF p(4,2), of 203 0 113 1 "[]"]
      b unfolding reserved_ipv4_blocks by (simp add: d)
qed

text \<open>
  The check does not see through mapped addresses. Every IPv4 address, the reserved ones included, is
  accepted at registration and before each connection when its endpoint writes it as the IPv6 literal
  \<open>[::ffff:a.b.c.d]\<close>, which the parser reads as the mapped form of that very address.
\<close>

theorem mapped_endpoint_accepted:
  assumes "scheme_ok sch" "digits port"
  shows "validate_endpoint (endpoint_text sch (''[::ffff:'' @ quad (a, b, c, d) @ '']'') port path) = Inr () \<and>
    validate_endpoint_dns lookup shown sid (endpoint_text sch (''[::ffff:'' @ quad (a, b, c, d) @ '']'') port path) = Inr () \<and>
    parse_ip (''::ffff:'' @ quad (a, b, c, d)) = Some (V6 [0, 0, 0, 0, 0, 0xFFFF, from_be a b, from_be c d])"
  unfolding validate_endpoint_def validate_endpoint_dns_def mapped_host [OF assms]
  using parse_mapped [of a b c d] mapped_not_reserved colon_not_reserved by (simp del: quad.simps)

theorem mapped_endpoint_accepted_witness:
  "is_reserved_ipv4 127 0 0 1 \<and> validate_endpoint ''[::ffff:127.0.0.1]:80'' = Inr ()"
proof -
  have d: "dec 127 = ''127''" "dec 0 = ''0''" "dec (Suc 0) = ''1''" by code_simp+
  have p: "digits ''80''" "scheme_ok None" by code_simp+
  have "is_reserved_ipv4 127 0 0 1" by code_simp
  then show ?thesis using mapped_endpoint_accepted [OF p(2,1), of 127 0 0 1 "[]"] by (simp add: d)
qed

text \<open>
  No server of the registry is contacted at an unchecked address. In every registry that arises by
  registering, removing and refreshing servers, a server is stored under its own identifier, and if
  the check before a connection passes, the host of its endpoint is a literal address outside the
  reserved ranges, or a name outside the blocked ones all of whose resolved addresses are outside them.
\<close>

theorem registered_endpoints_checked:
  assumes "registry_step\<^sup>*\<^sup>* (registry_new c) r" "servers r k = Some s" "validate_endpoint_dns lookup shown k (endpoint s) = Inr ()"
  shows "server_id s = k \<and> (\<exists>host. extract_host (endpoint s) = Inr host \<and> \<not> is_reserved_domain host \<and>
    (case parse_ip host of
       Some ip \<Rightarrow> \<not> is_reserved_ip ip
     | None \<Rightarrow> \<exists>ips. lookup (host @ '':0'') = Inr ips \<and> (\<forall>ip \<in> set ips. \<not> is_reserved_ip ip)))"
proof -
  have "registry_ok r" using registry_system.inv_reachable [OF _ assms(1)] by blast
  then have "server_id s = k" "validate_endpoint (endpoint s) = Inr ()" using assms(2) by (auto simp: registry_ok_def)
  then show ?thesis using assms(3)
    by (auto simp: validate_endpoint_def validate_endpoint_dns_def check_resolved_ok split: sum.splits if_splits option.splits)
qed

theorem registered_endpoints_checked_witness:
  "\<exists>r s. registry_step\<^sup>*\<^sup>* (registry_new 1) r \<and> servers r ''s'' = Some s \<and> endpoint s = ''example.com:80'' \<and>
     (\<forall>ip \<in> set [V4 203 0 113 1]. \<not> is_reserved_ip ip)"
proof -
  let ?s = "mesh_server_new 0 ''s'' ''example.com:80'' []"
  let ?r = "fst (register (registry_new 1) ?s)"
  let ?look = "\<lambda>t. if t = ''example.com:0'' then Inr [V4 203 0 113 1] else Inl ''no such host''"
  have h: "extract_host ''example.com:80'' = Inr ''example.com''" "\<not> is_reserved_domain ''example.com''"
    by (simp_all add: extract_host_def split_nth1_def str_find_def split_first_def rsplit_head_def is_reserved_domain_def to_ascii_lowercase_def)
  have "read_ipv4_addr (CHR ''e'' # t) = None" for t
    by (simp add: read_ipv4_addr_def read_octet_def read_separator_def read_number_def to_digit_def)
  then have p: "parse_ip ''example.com'' = None"
    using read_groups.simps(2) [of 0 7 "''example.com''"] read_groups.simps(2) [of 1 6 "''xample.com''"]
    by (simp add: parse_ip_def read_ipv6_addr_def read_separator_def read_given_char_def read_number_def to_digit_def)
  have v: "validate_endpoint ''example.com:80'' = Inr ()" using h p by (simp add: validate_endpoint_def)
  have reach: "registry_step\<^sup>*\<^sup>* (registry_new 1) ?r"
    by (rule r_into_rtranclp, rule registers [of _ ?s _ "snd (register (registry_new 1) ?s)"]) simp
  have s: "servers ?r ''s'' = Some ?s" using v by (simp add: register_def registry_new_def mesh_server_new_def)
  have "\<not> is_reserved_ip (V4 203 0 113 1)" by code_simp
  then have d: "validate_endpoint_dns ?look (\<lambda>_. []) ''s'' (endpoint ?s) = Inr ()"
    using h p by (simp add: validate_endpoint_dns_def mesh_server_new_def)
  have e: "endpoint ?s = ''example.com:80''" by (simp add: mesh_server_new_def)
  from registered_endpoints_checked [OF reach s d] have "\<forall>ip \<in> set [V4 203 0 113 1]. \<not> is_reserved_ip ip"
    unfolding e h(1) by (simp add: p)
  with reach s e show ?thesis by blast
qed

end
