(* ===== verification/Replay.thy ===== *)
theory Replay
  imports Segment "HOL-Library.Multiset" "HOL-Library.Product_Lexorder"
begin

text \<open>
  The k-way merge of \<^verbatim>\<open>session-store/src/replay.rs\<close>: one read-only cursor per segment file, a min-heap of
  the cursors' current offsets, and the stream that pops the smallest. The segments that a session
  sees, with the last sequence number visible in each, come from the SQLite index and are an argument;
  the binary heap of the standard library is a list kept in its order.
\<close>

section \<open>The contract of a min-heap\<close>

locale min_heap =
  fixes push :: "'a::linorder \<Rightarrow> 'h \<Rightarrow> 'h"
    and pop :: "'h \<Rightarrow> ('a \<times> 'h) option"
    and elems :: "'h \<Rightarrow> 'a multiset"
    and heap_inv :: "'h \<Rightarrow> bool"
  assumes push_elems: "elems (push x h) = add_mset x (elems h)"
    and push_inv: "heap_inv h \<Longrightarrow> heap_inv (push x h)"
    and pop_None: "heap_inv h \<Longrightarrow> pop h = None \<longleftrightarrow> elems h = {#}"
    and pop_Some: "heap_inv h \<Longrightarrow> pop h = Some (x, h') \<Longrightarrow>
      elems h = add_mset x (elems h') \<and> heap_inv h' \<and> (\<forall>y. y \<in># elems h \<longrightarrow> x \<le> y)"
begin

lemma pop_min:
  assumes "heap_inv h" "elems h \<noteq> {#}"
  obtains x h' where "pop h = Some (x, h')" "x \<in># elems h" "\<And>y. y \<in># elems h \<Longrightarrow> x \<le> y"
    "elems h = add_mset x (elems h')" "heap_inv h'"
proof -
  obtain x h' where p: "pop h = Some (x, h')" using assms pop_None by (cases "pop h") auto
  from pop_Some [OF assms(1) p] that [OF p] show thesis by auto
qed

end

type_synonym heap_entry = "offset \<times> nat"
type_synonym heap = "heap_entry list"

definition heap_push :: "heap_entry \<Rightarrow> heap \<Rightarrow> heap" where
  "heap_push e h = insort e h"

fun heap_pop :: "heap \<Rightarrow> (heap_entry \<times> heap) option" where
  "heap_pop [] = None"
| "heap_pop (e # h) = Some (e, h)"

interpretation offset_heap: min_heap heap_push heap_pop mset sorted
proof (unfold_locales, goal_cases)
  case (4 h x h')
  then show ?case by (cases h) auto
qed (auto simp: heap_push_def sorted_insort elim: heap_pop.elims)

section \<open>Cursors\<close>

record seg_cursor =
  reader :: segment_reader
  end_at :: nat
  current :: "segment_record option"

function advance :: "codec \<Rightarrow> offset \<Rightarrow> seg_cursor \<Rightarrow> (store_error, seg_cursor) result" where
  "advance cd from_off c =
     (case next_record cd (reader c) of
        (rd, Inl e) \<Rightarrow> Inl e
      | (rd, Inr (Some rec)) \<Rightarrow>
          (if end_at c < rec_seq rec then Inr (c\<lparr>reader := rd, current := None\<rparr>)
           else if from_off \<le> offset_of rec then Inr (c\<lparr>reader := rd, current := Some rec\<rparr>)
           else advance cd from_off (c\<lparr>reader := rd\<rparr>))
      | (rd, Inr None) \<Rightarrow> Inr (c\<lparr>reader := rd, current := None\<rparr>))"
  by pat_completeness auto

record replay_item =
  item_offset :: offset
  item_event :: session_event

record replay_stream =
  readers :: "seg_cursor list"
  heap :: heap
  last_timestamp_ms :: "int option"
  out_of_order_count :: nat

definition timestamp_millis :: "session_event \<Rightarrow> int" where
  "timestamp_millis ev = timestamp_ns (metadata ev) div 1000000"

definition push_current :: "nat \<Rightarrow> seg_cursor \<Rightarrow> heap \<Rightarrow> heap" where
  "push_current i c h = (case current c of None \<Rightarrow> h | Some rec \<Rightarrow> heap_push (offset_of rec, i) h)"

definition next_item ::
  "codec \<Rightarrow> replay_stream \<Rightarrow> replay_stream \<times> (store_error, replay_item option) result" where
  "next_item cd st =
     (case heap_pop (heap st) of
        None \<Rightarrow> (st, Inr None)
      | Some ((_, i), h) \<Rightarrow>
          (let st1 = st\<lparr>heap := h\<rparr>
           in if length (readers st) \<le> i then (st1, Inl (InvalidInput ''no such cursor''))
              else (case current (readers st ! i) of
                      None \<Rightarrow> (st1, Inl (InvalidInput ''cursor has no current record''))
                    | Some rec \<Rightarrow>
                        (case advance cd (offset_of rec) ((readers st ! i)\<lparr>current := None\<rparr>) of
                           Inl e \<Rightarrow> (st1\<lparr>readers := (readers st)[i := (readers st ! i)\<lparr>current := None\<rparr>]\<rparr>, Inl e)
                         | Inr c' \<Rightarrow>
                             (let ts = timestamp_millis (rec_event rec);
                                  late = (case last_timestamp_ms st of None \<Rightarrow> False | Some l \<Rightarrow> ts < l)
                              in (st1\<lparr>readers := (readers st)[i := c'], heap := push_current i c' h,
                                      last_timestamp_ms := Some ts,
                                      out_of_order_count := out_of_order_count st + (if late then 1 else 0)\<rparr>,
                                  Inr (Some \<lparr>item_offset = offset_of rec, item_event = rec_event rec\<rparr>)))))))"

function collect :: "codec \<Rightarrow> replay_stream \<Rightarrow> (store_error, replay_item list) result" where
  "collect cd st =
     (case next_item cd st of
        (st', Inl e) \<Rightarrow> Inl e
      | (st', Inr None) \<Rightarrow> Inr []
      | (st', Inr (Some x)) \<Rightarrow> (case collect cd st' of Inl e \<Rightarrow> Inl e | Inr xs \<Rightarrow> Inr (x # xs)))"
  by pat_completeness auto

text \<open>The loop of \<^verbatim>\<open>replay\<close> over the segment sources: file content and last visible sequence number.\<close>

type_synonym segment_source = "bytes option \<times> nat"

fun open_cursors ::
  "codec \<Rightarrow> offset \<Rightarrow> nat \<Rightarrow> segment_source list \<Rightarrow> seg_cursor list \<Rightarrow> heap \<Rightarrow> (store_error, seg_cursor list \<times> heap) result" where
  "open_cursors cd from_off i [] rs h = Inr (rs, h)"
| "open_cursors cd from_off i ((file, endo) # srcs) rs h =
     (case reader_open file of
        Inl e \<Rightarrow> Inl e
      | Inr rd \<Rightarrow>
          (case advance cd from_off \<lparr>reader = rd, end_at = endo, current = None\<rparr> of
             Inl e \<Rightarrow> Inl e
           | Inr c \<Rightarrow> open_cursors cd from_off (i + 1) srcs (rs @ [c]) (push_current i c h)))"

definition replay :: "codec \<Rightarrow> segment_source list \<Rightarrow> offset \<Rightarrow> (store_error, replay_stream) result" where
  "replay cd sources from_off =
     (case open_cursors cd from_off 0 sources [] [] of
        Inl e \<Rightarrow> Inl e
      | Inr (rs, h) \<Rightarrow> Inr \<lparr>readers = rs, heap = h, last_timestamp_ms = None, out_of_order_count = 0\<rparr>)"

definition merge_degree :: "replay_stream \<Rightarrow> nat" where
  "merge_degree st = length (readers st)"

section \<open>Termination\<close>

lemma next_record_shrinks: "next_record cd rd = (rd', Inr (Some r)) \<Longrightarrow> length (unread rd') < length (unread rd)"
  by (auto simp: next_record_def split: option.splits sum.splits) (erule unframe_shrinks)

lemma next_record_le: "next_record cd rd = (rd', r) \<Longrightarrow> length (unread rd') \<le> length (unread rd)"
  by (auto simp: next_record_def split: option.splits sum.splits) (drule unframe_shrinks, simp)+

termination advance
  by (relation "measure (\<lambda>(cd, f, c). length (unread (reader c)))") (auto intro: next_record_shrinks [OF sym])

definition work :: "seg_cursor \<Rightarrow> nat" where
  "work c = length (unread (reader c)) + (if current c = None then 0 else 1)"

lemma advance_work: "advance cd f c = Inr c' \<Longrightarrow> work c' \<le> length (unread (reader c))"
proof (induction cd f c rule: advance.induct)
  case (1 cd f c)
  obtain rd r where n: "next_record cd (reader c) = (rd, r)" by force
  note eq = 1(2) [unfolded advance.simps [of cd f c] n]
  show ?case
  proof (cases r)
    case (Inl e)
    then show ?thesis using eq by simp
  next
    case (Inr q)
    show ?thesis
    proof (cases q)
      case None
      then show ?thesis using eq Inr next_record_le [OF n] by (auto simp: work_def)
    next
      case (Some x)
      have lt: "length (unread rd) < length (unread (reader c))" using n Inr Some by (simp add: next_record_shrinks)
      show ?thesis
      proof (cases "end_at c < rec_seq x \<or> f \<le> offset_of x")
        case True
        then show ?thesis using eq Inr Some lt by (auto simp: work_def split: if_splits)
      next
        case False
        then have "work c' \<le> length (unread rd)" using eq Inr Some 1(1) [OF n [symmetric] Inr Some] by simp
        then show ?thesis using lt by simp
      qed
    qed
  qed
qed

lemma next_item_SomeE:
  assumes "next_item cd st = (st', Inr (Some x))"
  obtains k i h rec c' where "heap_pop (heap st) = Some ((k, i), h)" "i < length (readers st)"
    "current (readers st ! i) = Some rec" "advance cd (offset_of rec) ((readers st ! i)\<lparr>current := None\<rparr>) = Inr c'"
    "readers st' = (readers st)[i := c']"
proof -
  obtain k i h where p: "heap_pop (heap st) = Some ((k, i), h)"
    using assms by (cases "heap_pop (heap st)") (auto simp: next_item_def)
  have i: "i < length (readers st)"
    using assms p by (cases "length (readers st) \<le> i") (auto simp: next_item_def)
  obtain rec where r: "current (readers st ! i) = Some rec"
    using assms p i by (cases "current (readers st ! i)") (auto simp: next_item_def)
  obtain c' where c: "advance cd (offset_of rec) ((readers st ! i)\<lparr>current := None\<rparr>) = Inr c'"
    using assms p i r by (cases "advance cd (offset_of rec) ((readers st ! i)\<lparr>current := None\<rparr>)") (auto simp: next_item_def)
  have "readers st' = (readers st)[i := c']"
    using assms p i r c by (auto simp: next_item_def Let_def)
  from that [OF p i r c this] show thesis .
qed

lemma next_item_work:
  assumes "next_item cd st = (st', Inr (Some x))"
  shows "sum_list (map work (readers st')) < sum_list (map work (readers st))"
proof -
  obtain i rec c' where i: "i < length (readers st)" "current (readers st ! i) = Some rec"
    "advance cd (offset_of rec) ((readers st ! i)\<lparr>current := None\<rparr>) = Inr c'" "readers st' = (readers st)[i := c']"
    using next_item_SomeE [OF assms] by metis
  have "work c' < work (readers st ! i)"
    using advance_work [OF i(3)] i(2) by (simp add: work_def)
  moreover have "work (readers st ! i) \<le> sum_list (map work (readers st))"
    using i(1) by (simp add: member_le_sum_list)
  ultimately show ?thesis using i(1) by (simp add: i(4) map_update sum_list_update)
qed

termination collect
  by (relation "measure (\<lambda>(cd, st). sum_list (map work (readers st)))") (auto intro: next_item_work [OF sym])

declare advance.simps [simp del] collect.simps [simp del]

section \<open>What a cursor still has to deliver\<close>

definition reading :: "codec \<Rightarrow> segment_reader \<Rightarrow> segment_record list \<Rightarrow> bool" where
  "reading cd rd recs \<longleftrightarrow>
     (\<exists>tail. unread rd = file_of cd recs @ tail \<and> unframe tail = None) \<and> (\<forall>r \<in> set recs. encodable cd r)"

abbreviation in_range :: "nat \<Rightarrow> segment_record \<Rightarrow> bool" where
  "in_range endo \<equiv> \<lambda>r. rec_seq r \<le> endo"

definition cursor_rel :: "codec \<Rightarrow> seg_cursor \<Rightarrow> segment_record list \<Rightarrow> bool" where
  "cursor_rel cd c L \<longleftrightarrow>
     (case L of
        [] \<Rightarrow> current c = None
      | r # rs \<Rightarrow> current c = Some r \<and> (\<exists>recs. reading cd (reader c) recs \<and> rs = takeWhile (in_range (end_at c)) recs))"

lemma next_record_reading:
  assumes "codec_ok cd" "reading cd rd recs"
  shows "case recs of
      [] \<Rightarrow> \<exists>rd'. next_record cd rd = (rd', Inr None)
    | r # rs \<Rightarrow> \<exists>rd'. next_record cd rd = (rd', Inr (Some r)) \<and> reading cd rd' rs"
proof (cases recs)
  case Nil
  then show ?thesis using assms(2) by (auto simp: reading_def next_record_def)
next
  case (Cons r rs)
  then have r: "encodable cd r" using assms(2) by (simp add: reading_def)
  show ?thesis
    using assms(2) Cons by (auto simp: reading_def next_record_def unframe_body [OF r] from_slice_body [OF assms(1) r])
qed

lemma advance_reading:
  assumes "codec_ok cd" "reading cd (reader c) recs"
  shows "\<exists>c'. advance cd f c = Inr c' \<and> end_at c' = end_at c \<and>
    cursor_rel cd c' (dropWhile (\<lambda>r. \<not> f \<le> offset_of r) (takeWhile (in_range (end_at c)) recs))"
  using assms(2)
proof (induction recs arbitrary: c)
  case Nil
  then show ?case
    using next_record_reading [OF assms(1), of "reader c" "[]"]
    by (subst advance.simps) (auto simp: cursor_rel_def)
next
  case (Cons r recs)
  obtain rd' where n: "next_record cd (reader c) = (rd', Inr (Some r))" "reading cd rd' recs"
    using next_record_reading [OF assms(1) Cons.prems] by auto
  show ?case
  proof (cases "end_at c < rec_seq r \<or> f \<le> offset_of r")
    case True
    then show ?thesis using n by (subst advance.simps) (auto simp: cursor_rel_def)
  next
    case False
    have "advance cd f c = advance cd f (c\<lparr>reader := rd'\<rparr>)" using False n by (subst advance.simps) simp
    then show ?thesis using Cons.IH [of "c\<lparr>reader := rd'\<rparr>"] n(2) False by simp
  qed
qed

lemma filter_from:
  "sorted_wrt (<) (map offset_of rs) \<Longrightarrow> dropWhile (\<lambda>r. \<not> f \<le> offset_of r) rs = filter (\<lambda>r. f \<le> offset_of r) rs"
proof (induction rs)
  case (Cons r rs)
  show ?case
  proof (cases "f \<le> offset_of r")
    case True
    with Cons.prems have "\<forall>x \<in> set rs. f \<le> offset_of x" by fastforce
    with True show ?thesis by (simp add: filter_id_conv)
  qed (use Cons in simp)
qed simp

section \<open>The heads of the cursors\<close>

fun head_entry :: "nat \<Rightarrow> segment_record list \<Rightarrow> heap_entry multiset" where
  "head_entry i [] = {#}"
| "head_entry i (r # rs) = {#(offset_of r, i)#}"

fun heads_from :: "nat \<Rightarrow> segment_record list list \<Rightarrow> heap_entry multiset" where
  "heads_from i [] = {#}"
| "heads_from i (L # Ls) = head_entry i L + heads_from (Suc i) Ls"

lemma head_entry_mem: "e \<in># head_entry i L \<longleftrightarrow> (\<exists>r rs. L = r # rs \<and> e = (offset_of r, i))"
  by (cases L) auto

lemma heads_mem: "e \<in># heads_from i Ls \<longleftrightarrow> (\<exists>j < length Ls. e \<in># head_entry (i + j) (Ls ! j))"
proof (induction Ls arbitrary: i)
  case (Cons L Ls)
  have "(\<exists>j < length (L # Ls). e \<in># head_entry (i + j) ((L # Ls) ! j)) \<longleftrightarrow>
      e \<in># head_entry i L \<or> (\<exists>j < length Ls. e \<in># head_entry (Suc i + j) (Ls ! j))"
    by (simp add: Ex_less_Suc2)
  then show ?case using Cons by simp
qed simp

lemma heads_update:
  "j < length Ls \<Longrightarrow> heads_from i (Ls[j := L]) + head_entry (i + j) (Ls ! j) = heads_from i Ls + head_entry (i + j) L"
proof (induction Ls arbitrary: i j)
  case (Cons x Ls)
  show ?case
  proof (cases j)
    case (Suc k)
    then have "heads_from (Suc i) (Ls[k := L]) + head_entry (Suc i + k) (Ls ! k) = heads_from (Suc i) Ls + head_entry (Suc i + k) L"
      using Cons.prems by (intro Cons.IH) simp
    then show ?thesis using Suc by (simp add: ac_simps)
  qed (simp add: ac_simps)
qed simp

lemma heads_empty: "heads_from i Ls = {#} \<longleftrightarrow> concat Ls = []"
proof (induction Ls arbitrary: i)
  case (Cons L Ls)
  then show ?case by (cases L) auto
qed simp

lemma concat_update:
  "j < length Ls \<Longrightarrow> mset (concat (Ls[j := L])) + mset (Ls ! j) = mset (concat Ls) + mset L"
proof (induction Ls arbitrary: j)
  case (Cons x Ls)
  show ?case
  proof (cases j)
    case (Suc k)
    then show ?thesis using Cons by (auto simp: ac_simps)
  qed (simp add: ac_simps)
qed simp

definition stream_rel :: "codec \<Rightarrow> replay_stream \<Rightarrow> segment_record list list \<Rightarrow> bool" where
  "stream_rel cd st Ls \<longleftrightarrow>
     list_all2 (cursor_rel cd) (readers st) Ls \<and> (\<forall>L \<in> set Ls. sorted_wrt (<) (map offset_of L)) \<and>
     sorted (heap st) \<and> mset (heap st) = heads_from 0 Ls"

definition item_of :: "segment_record \<Rightarrow> replay_item" where
  "item_of r = \<lparr>item_offset = offset_of r, item_event = rec_event r\<rparr>"

lemma push_current_head:
  "cursor_rel cd c L \<Longrightarrow> mset (push_current i c h) = mset h + head_entry i L"
  "sorted h \<Longrightarrow> sorted (push_current i c h)"
  by (auto simp: cursor_rel_def push_current_def heap_push_def sorted_insort split: list.splits option.splits)

text \<open>One step of the stream: it delivers a least record and the relation holds for what is left.\<close>

lemma next_item_step:
  assumes ok: "codec_ok cd" and rel: "stream_rel cd st Ls" and ne: "concat Ls \<noteq> []"
  obtains i r rs st' where "i < length Ls" "Ls ! i = r # rs" "next_item cd st = (st', Inr (Some (item_of r)))"
    "stream_rel cd st' (Ls[i := rs])" "\<forall>x \<in> set (concat Ls). offset_of r \<le> offset_of x"
proof -
  have cur: "list_all2 (cursor_rel cd) (readers st) Ls" and srt: "\<forall>L \<in> set Ls. sorted_wrt (<) (map offset_of L)"
    and hp: "sorted (heap st)" "mset (heap st) = heads_from 0 Ls"
    using rel by (simp_all add: stream_rel_def)
  have "mset (heap st) \<noteq> {#}" using hp ne heads_empty [of 0 Ls] by simp
  then obtain k i h where p: "heap_pop (heap st) = Some ((k, i), h)" and mem: "(k, i) \<in># heads_from 0 Ls"
    and least: "\<And>e. e \<in># heads_from 0 Ls \<Longrightarrow> (k, i) \<le> e"
    and h: "heads_from 0 Ls = add_mset (k, i) (mset h)" "sorted h"
    using offset_heap.pop_min [OF hp(1)] hp(2) by (metis surj_pair)
  from mem obtain r rs where i: "i < length Ls" "Ls ! i = r # rs" "k = offset_of r"
    by (auto simp: heads_mem head_entry_mem)
  let ?c = "readers st ! i"
  have len: "length (readers st) = length Ls" using cur by (rule list_all2_lengthD)
  have "cursor_rel cd ?c (r # rs)" using cur i by (metis list_all2_nthD2)
  then obtain recs where c: "current ?c = Some r" "reading cd (reader ?c) recs" "rs = takeWhile (in_range (end_at ?c)) recs"
    by (auto simp: cursor_rel_def)
  have "sorted_wrt (<) (map offset_of (r # rs))" using srt i nth_mem by metis
  then have rs: "dropWhile (\<lambda>x. \<not> offset_of r \<le> offset_of x) rs = rs" "sorted_wrt (<) (map offset_of rs)"
    by (cases rs; fastforce)+
  obtain c' where c': "advance cd (offset_of r) (?c\<lparr>current := None\<rparr>) = Inr c'" "cursor_rel cd c' rs"
    using advance_reading [OF ok, of "?c\<lparr>current := None\<rparr>" recs "offset_of r"] c rs by auto
  obtain st' where st': "next_item cd st = (st', Inr (Some (item_of r)))" "readers st' = (readers st)[i := c']"
    "heap st' = push_current i c' h"
    using p i c c' len by (simp add: next_item_def Let_def item_of_def)
  have "heads_from 0 (Ls[i := rs]) + {#(k, i)#} = heads_from 0 Ls + head_entry i rs"
    using heads_update [OF i(1), of 0 rs] i by simp
  then have "mset (heap st') = heads_from 0 (Ls[i := rs])"
    using push_current_head(1) [OF c'(2), of i h] h(1) st'(3) by simp
  moreover have "sorted (heap st')" using st'(3) h(2) push_current_head(2) by simp
  moreover have "list_all2 (cursor_rel cd) (readers st') (Ls[i := rs])"
    using st'(2) cur c'(2) by (simp add: list_all2_update_cong)
  moreover have "\<forall>L \<in> set (Ls[i := rs]). sorted_wrt (<) (map offset_of L)"
    using srt rs(2) set_update_subset_insert [of Ls i rs] by blast
  ultimately have st'': "stream_rel cd st' (Ls[i := rs])" by (simp add: stream_rel_def)
  have "offset_of r \<le> offset_of x" if "x \<in> set (concat Ls)" for x
  proof -
    from that obtain L where "L \<in> set Ls" "x \<in> set L" by auto
    then obtain j where j: "j < length Ls" "x \<in> set (Ls ! j)" by (metis in_set_conv_nth)
    then obtain y ys where y: "Ls ! j = y # ys" by (cases "Ls ! j") auto
    have "(offset_of y, j) \<in># heads_from 0 Ls" using j y by (auto simp: heads_mem)
    with least i(3) have "offset_of r \<le> offset_of y" by (fastforce simp: less_eq_prod_def)
    moreover have "sorted_wrt (<) (map offset_of (y # ys))" using srt j y nth_mem by metis
    ultimately show ?thesis using j y by fastforce
  qed
  with that i st'(1) st'' show thesis by blast
qed

lemma collect_merges:
  assumes ok: "codec_ok cd"
  shows "stream_rel cd st Ls \<Longrightarrow>
    \<exists>rs. collect cd st = Inr (map item_of rs) \<and> mset rs = mset (concat Ls) \<and> sorted (map offset_of rs)"
proof (induction "length (concat Ls)" arbitrary: st Ls)
  case 0
  then have "concat Ls = []" by simp
  then have "heads_from 0 Ls = {#}" unfolding heads_empty .
  then have "heap st = []" using 0 by (simp add: stream_rel_def)
  then show ?case using 0 by (subst collect.simps) (simp add: next_item_def)
next
  case (Suc n)
  then have "concat Ls \<noteq> []" by (metis list.size(3) nat.distinct(1))
  from next_item_step [OF ok Suc.prems this] obtain i r rs st' where
    i: "i < length Ls" "Ls ! i = r # rs" and st': "next_item cd st = (st', Inr (Some (item_of r)))"
    "stream_rel cd st' (Ls[i := rs])" and least: "\<forall>x \<in> set (concat Ls). offset_of r \<le> offset_of x" by metis
  have ms: "add_mset r (mset (concat (Ls[i := rs]))) = mset (concat Ls)"
    using concat_update [OF i(1), of rs] i(2) by simp
  then have "length (concat (Ls[i := rs])) = n" using Suc.hyps(2) by (metis Suc_inject size_add_mset size_mset)
  with Suc.hyps(1) st'(2) obtain out where out: "collect cd st' = Inr (map item_of out)"
    "mset out = mset (concat (Ls[i := rs]))" "sorted (map offset_of out)" by metis
  have "set out \<subseteq> set (concat Ls)" using out(2) ms by (metis mset_subset_eq_add_right set_mset_mono add_mset_add_single set_mset_mset mset_eq_setD union_commute)
  with least out(3) have "sorted (map offset_of (r # out))" by auto
  then show ?case using out ms st' by (subst collect.simps) (intro exI [of _ "r # out"], simp)
qed

section \<open>Opening the cursors\<close>

text \<open>A source whose file holds the given records, possibly followed by a torn tail.\<close>

definition source_ok :: "codec \<Rightarrow> segment_source \<Rightarrow> segment_record list \<Rightarrow> bool" where
  "source_ok cd src recs \<longleftrightarrow> (\<exists>bs. fst src = Some bs \<and> reading cd \<lparr>unread = bs, rows_read = 0\<rparr> recs)"

definition visible :: "offset \<Rightarrow> segment_source \<Rightarrow> segment_record list \<Rightarrow> segment_record list" where
  "visible f src recs = filter (\<lambda>r. f \<le> offset_of r) (takeWhile (in_range (snd src)) recs)"

lemma sorted_takeWhile: "sorted_wrt (<) (map offset_of R) \<Longrightarrow> sorted_wrt (<) (map offset_of (takeWhile P R))"
  by (simp add: sorted_wrt_map sorted_wrt_iff_nth_less takeWhile_nth)
     (meson length_takeWhile_le order.strict_trans2)

lemma sorted_visible: "sorted_wrt (<) (map offset_of R) \<Longrightarrow> sorted_wrt (<) (map offset_of (visible f src R))"
  using sorted_takeWhile [of R "in_range (snd src)"] by (simp add: visible_def sorted_wrt_map sorted_wrt_filter)

lemma open_cursors_rel:
  assumes ok: "codec_ok cd"
  shows "list_all2 (source_ok cd) srcs Rs \<Longrightarrow> \<forall>R \<in> set Rs. sorted_wrt (<) (map offset_of R) \<Longrightarrow>
    \<exists>cs h'. open_cursors cd f i srcs rs h = Inr (rs @ cs, h') \<and> list_all2 (cursor_rel cd) cs (map2 (visible f) srcs Rs) \<and>
      mset h' = mset h + heads_from i (map2 (visible f) srcs Rs) \<and> (sorted h \<longrightarrow> sorted h')"
proof (induction srcs Rs arbitrary: i rs h rule: list_all2_induct)
  case (Cons src srcs R Rs)
  obtain fl endo where src: "src = (fl, endo)" by force
  obtain bs where bs: "fl = Some bs" "reading cd \<lparr>unread = bs, rows_read = 0\<rparr> R"
    using Cons.hyps(1) src by (auto simp: source_ok_def)
  have "sorted_wrt (<) (map offset_of (takeWhile (in_range endo) R))" using Cons.prems sorted_takeWhile by simp
  then obtain c where c: "advance cd f \<lparr>reader = \<lparr>unread = bs, rows_read = 0\<rparr>, end_at = endo, current = None\<rparr> = Inr c"
    "cursor_rel cd c (visible f src R)"
    using advance_reading [OF ok, of "\<lparr>reader = \<lparr>unread = bs, rows_read = 0\<rparr>, end_at = endo, current = None\<rparr>" R f] bs(2)
    by (auto simp: visible_def src filter_from)
  obtain cs h' where rest: "open_cursors cd f (i + 1) srcs (rs @ [c]) (push_current i c h) = Inr ((rs @ [c]) @ cs, h')"
    "list_all2 (cursor_rel cd) cs (map2 (visible f) srcs Rs)"
    "mset h' = mset (push_current i c h) + heads_from (i + 1) (map2 (visible f) srcs Rs)"
    "sorted (push_current i c h) \<longrightarrow> sorted h'"
    using Cons.IH [of "i + 1" "rs @ [c]" "push_current i c h"] Cons.prems by auto
  have "open_cursors cd f i (src # srcs) rs h = Inr (rs @ (c # cs), h')"
    using rest(1) by (simp add: src bs(1) reader_open_def c(1))
  then show ?case
    using rest(2-4) c(2) push_current_head(1) [OF c(2), of i h] push_current_head(2) [of h i c]
    by (intro exI [of _ "c # cs"] exI [of _ h']) simp
qed simp

lemma replay_merges:
  assumes "codec_ok cd" "list_all2 (source_ok cd) srcs Rs" "\<forall>R \<in> set Rs. sorted_wrt (<) (map offset_of R)"
  obtains st out where "replay cd srcs f = Inr st" "collect cd st = Inr (map item_of out)" "sorted (map offset_of out)"
    "mset out = mset (concat (map2 (visible f) srcs Rs))"
proof -
  obtain cs h' where o: "open_cursors cd f 0 srcs [] [] = Inr (cs, h')" "list_all2 (cursor_rel cd) cs (map2 (visible f) srcs Rs)"
    "mset h' = heads_from 0 (map2 (visible f) srcs Rs)" "sorted h'"
    using open_cursors_rel [OF assms, of f 0 "[]" "[]"] by auto
  let ?st = "\<lparr>readers = cs, heap = h', last_timestamp_ms = None, out_of_order_count = 0\<rparr>"
  have "\<forall>L \<in> set (map2 (visible f) srcs Rs). sorted_wrt (<) (map offset_of L)"
    using assms(3) sorted_visible by (auto dest!: set_zip_rightD)
  then have "stream_rel cd ?st (map2 (visible f) srcs Rs)" using o by (simp add: stream_rel_def)
  from collect_merges [OF assms(1) this] that [of ?st] o(1) show thesis by (auto simp: replay_def)
qed

section \<open>Sessions that rolled over several segments\<close>

fun rolled :: "nat \<Rightarrow> session_event list list \<Rightarrow> segment_record list list" where
  "rolled start [] = []"
| "rolled start (E # Es) = records_of start 0 E # rolled (start + length E) Es"

lemma seqs_records_of: "map rec_seq (records_of s r E) = [s..<s + length E]"
  by (induction E arbitrary: s r) (simp_all add: upt_conv_Cons del: upt_Suc)

lemma events_records_of: "map rec_event (records_of s r E) = E"
  by (induction E arbitrary: s r) auto

lemma seqs_rolled: "map rec_seq (concat (rolled s Es)) = [s..<s + length (concat Es)]"
proof (induction Es arbitrary: s)
  case (Cons E Es)
  have "[s..<s + length (concat (E # Es))] = [s..<s + length E] @ [s + length E..<s + length E + length (concat Es)]"
    using upt_add_eq_append [of s "s + length E" "length (concat Es)"] by (simp add: add.assoc)
  then show ?case using Cons.IH [of "s + length E"] by (simp add: seqs_records_of)
qed simp

lemma events_rolled: "map rec_event (concat (rolled s Es)) = concat Es"
  by (induction Es arbitrary: s) (auto simp: events_records_of)

lemma filter_upt_drop: "map g xs = [a..<a + length xs] \<Longrightarrow> filter (\<lambda>x. s \<le> g x) xs = drop (s - a) xs"
proof (induction xs arbitrary: a)
  case (Cons x xs)
  from Cons.prems have x: "g x = a" "map g xs = [Suc a..<Suc a + length xs]" by (simp_all add: upt_conv_Cons del: upt_Suc)
  show ?case
  proof (cases "s \<le> a")
    case True
    then have "\<forall>y \<in> set xs. s \<le> g y" using x(2) by (metis (no_types, lifting) Suc_leD atLeastLessThan_iff image_eqI le_trans list.set_map set_upt)
    with True x show ?thesis by (simp add: filter_id_conv)
  next
    case False
    then have "s - a = Suc (s - Suc a)" by simp
    with False x Cons.IH [OF x(2)] show ?thesis by simp
  qed
qed simp

lemma sorted_from_seqs: "map rec_seq R = [a..<a + length R] \<Longrightarrow> sorted_wrt (<) (map offset_of R)"
proof -
  assume "map rec_seq R = [a..<a + length R]"
  then have "sorted_wrt (<) (map rec_seq R)" by simp
  then show ?thesis unfolding sorted_wrt_map
    by (rule sorted_wrt_mono_rel [rotated]) (simp add: less_offset_def offset_of_def)
qed

section \<open>Properties\<close>


lemma demo_source: "source_ok plain_codec (Some (file_of plain_codec (records_of s 0 [plain_event ''hi''])), e) (records_of s 0 [plain_event ''hi''])"
  if "s < 45"
proof -
  have "encodable plain_codec \<lparr>rec_seq = s, rec_row = 0, rec_event = plain_event ''hi''\<rparr>"
    using that by (simp add: encodable_def frame_ok_def body_def plain_codec_def plain_to_vec_def plain_event_def u32_max_def)
  then show ?thesis by (auto simp: source_ok_def reading_def unframe_def)
qed


text \<open>
  Replay restores the order of writing. For a session whose events were rolled over any number of
  segments, each visible to its end, resuming from sequence number \<open>s\<close> returns exactly the events
  written from \<open>s\<close> on, in the order in which they were written, with consecutive sequence numbers.
\<close>

theorem replay_restores_write_order:
  assumes "codec_ok cd" "list_all2 (source_ok cd) srcs (rolled start Es)"
    "list_all2 (\<lambda>src R. \<forall>r \<in> set R. rec_seq r \<le> snd src) srcs (rolled start Es)"
  shows "\<exists>st items. replay cd srcs (Offset s 0) = Inr st \<and> collect cd st = Inr items \<and>
    map item_event items = drop (s - start) (concat Es) \<and>
    map (off_seq \<circ> item_offset) items = drop (s - start) [start..<start + length (concat Es)]"
proof -
  let ?all = "concat (rolled start Es)"
  have srt: "\<forall>R \<in> set (rolled start Es). sorted_wrt (<) (map offset_of R)"
    by (induction Es arbitrary: start) (auto intro!: sorted_from_seqs simp: seqs_records_of)
  from replay_merges [OF assms(1,2) srt, of "Offset s 0"] obtain st out where
    o: "replay cd srcs (Offset s 0) = Inr st" "collect cd st = Inr (map item_of out)" "sorted (map offset_of out)"
    "mset out = mset (concat (map2 (visible (Offset s 0)) srcs (rolled start Es)))" by metis
  have vis: "visible (Offset s 0) src R = filter (\<lambda>r. s \<le> rec_seq r) R" if "\<forall>r \<in> set R. rec_seq r \<le> snd src" for src R
  proof -
    have "takeWhile (in_range (snd src)) R = R" using that by (simp add: takeWhile_eq_all_conv)
    then show ?thesis by (auto simp: visible_def less_eq_offset_def offset_of_def intro!: filter_cong)
  qed
  have "concat (map2 (visible (Offset s 0)) srcs Rs) = filter (\<lambda>r. s \<le> rec_seq r) (concat Rs)"
    if "list_all2 (\<lambda>src R. \<forall>r \<in> set R. rec_seq r \<le> snd src) srcs Rs" for Rs
    using that by (induction rule: list_all2_induct) (simp_all add: vis)
  with o(4) assms(3) have ms: "mset out = mset (filter (\<lambda>r. s \<le> rec_seq r) ?all)" by simp
  also have flt: "filter (\<lambda>r. s \<le> rec_seq r) ?all = drop (s - start) ?all"
    by (rule filter_upt_drop) (metis seqs_rolled length_map length_upt add_diff_cancel_left')
  finally have ms: "mset out = mset (drop (s - start) ?all)" .
  have seqs: "map rec_seq (drop (s - start) ?all) = drop (s - start) [start..<start + length (concat Es)]"
    by (simp add: drop_map [symmetric] seqs_rolled del: map_concat drop_upt)
  have "sorted (map rec_seq out)"
    using o(3) by (auto simp: sorted_wrt_map less_eq_offset_def offset_of_def elim!: sorted_wrt_mono_rel [rotated])
  moreover have "distinct (map rec_seq (drop (s - start) ?all))" "sorted (map rec_seq (drop (s - start) ?all))"
    by (simp_all add: seqs)
  moreover have "distinct (map rec_seq out)"
    using calculation(2) arg_cong [OF ms, of "image_mset rec_seq"]
      mset_eq_imp_distinct_iff [of "map rec_seq out" "map rec_seq (drop (s - start) ?all)"] by simp
  ultimately have out: "out = drop (s - start) ?all"
    using ms by (intro map_sorted_distinct_set_unique [of rec_seq])
      (auto simp: distinct_map dest: mset_eq_setD)
  have "map item_event (map item_of out) = drop (s - start) (concat Es)"
    by (simp add: out item_of_def comp_def drop_map [symmetric] events_rolled)
  moreover have "map (off_seq \<circ> item_offset) (map item_of out) = map rec_seq out"
    by (simp add: item_of_def offset_of_def)
  ultimately show ?thesis using o(1,2) seqs out by metis
qed

theorem replay_restores_write_order_witness:
  "\<exists>st items. replay plain_codec
       [(Some (file_of plain_codec (records_of 0 0 [plain_event ''hi''])), 0),
        (Some (file_of plain_codec (records_of 1 0 [plain_event ''hi''])), 1)] (Offset 1 0) = Inr st \<and>
     collect plain_codec st = Inr items \<and> map (off_seq \<circ> item_offset) items = [1]"
proof -
  let ?e = "[plain_event ''hi'']"
  let ?srcs = "[(Some (file_of plain_codec (records_of 0 0 ?e)), 0), (Some (file_of plain_codec (records_of 1 0 ?e)), 1)]"
  have r: "rolled 0 [?e, ?e] = [records_of 0 0 ?e, records_of 1 0 ?e]" by simp
  have "list_all2 (source_ok plain_codec) ?srcs (rolled 0 [?e, ?e])"
    unfolding r by (simp add: demo_source del: records_of.simps)
  moreover have "list_all2 (\<lambda>src R. \<forall>r \<in> set R. rec_seq r \<le> snd src) ?srcs (rolled 0 [?e, ?e])"
    unfolding r by simp
  ultimately have "\<exists>st items. replay plain_codec ?srcs (Offset 1 0) = Inr st \<and> collect plain_codec st = Inr items \<and>
      map (off_seq \<circ> item_offset) items = drop (1 - 0) [0..<0 + length (concat [?e, ?e])]"
    using replay_restores_write_order [OF plain_codec_ok, of ?srcs 0 "[?e, ?e]" 1] by blast
  then show ?thesis by (simp add: upt_rec del: records_of.simps)
qed

end
