(* ===== verification/Fork_Replay.thy ===== *)
theory Fork_Replay
  imports Replay Session_Fork
begin

text \<open>
  The entry point \<^verbatim>\<open>replay\<close> of \<^verbatim>\<open>session-store/src/replay.rs\<close> over the tree index: the sources of the
  session are looked up, their files opened and merged. A fork is replayed as the beginning of its
  parent, at every depth of forking.
\<close>

text \<open>\<open>files s i\<close> is the content of the file of segment \<open>i\<close> of session \<open>s\<close>, if there is one.\<close>

definition located :: "(session_id \<Rightarrow> nat \<Rightarrow> bytes option) \<Rightarrow> Session_Tree.segment_source \<Rightarrow> bytes option \<times> nat" where
  "located files s = (files (file_session s) (file_index s), source_end s)"

definition replay_session ::
  "codec \<Rightarrow> tree_index \<Rightarrow> (session_id \<Rightarrow> nat \<Rightarrow> bytes option) \<Rightarrow> session_id \<Rightarrow> offset \<Rightarrow> (store_error, replay_stream) result" where
  "replay_session cd t files sid from_off =
     (case segment_sources t sid of
        Inl e \<Rightarrow> Inl e
      | Inr sources \<Rightarrow> replay cd (map (located files) sources) from_off)"

section \<open>Cutting a source\<close>

lemma visible_cut:
  assumes "sorted_wrt (<) (map offset_of R)" "0 < k"
  shows "visible f (fl, min e (k - 1)) R = filter (\<lambda>r. rec_seq r < k) (visible f (fl, e) R)"
proof -
  have s: "sorted (map rec_seq R)"
    using assms(1) by (auto simp: sorted_wrt_map less_offset_def offset_of_def elim!: sorted_wrt_mono_rel [rotated])
  have "takeWhile (in_range (min e (k - 1))) R = filter (\<lambda>r. rec_seq r < k) (takeWhile (in_range e) R)"
    using s
  proof (induction R)
    case (Cons r R)
    show ?case
    proof (cases "rec_seq r < k")
      case False
      then have "\<forall>x \<in> set R. \<not> rec_seq x < k" using Cons.prems by fastforce
      then have "\<forall>x \<in> set (takeWhile (in_range e) R). \<not> rec_seq x < k" by (metis set_takeWhileD)
      then have "filter (\<lambda>r. rec_seq r < k) (takeWhile (in_range e) R) = []" by (simp add: filter_empty_conv)
      then show ?thesis using False assms(2) by auto
    qed (use Cons assms(2) in auto)
  qed simp
  then show ?thesis by (simp add: visible_def filter_filter conj_commute)
qed

text \<open>The sources of a fork next to those of its parent.\<close>

definition kept :: "nat \<Rightarrow> Session_Tree.segment_source list \<Rightarrow> segment_record list list \<Rightarrow> segment_record list list" where
  "kept k srcs Rs = map snd (filter (\<lambda>(s, R). source_start s < k) (zip srcs Rs))"

abbreviation cut_at :: "(session_id \<Rightarrow> nat \<Rightarrow> bytes option) \<Rightarrow> nat \<Rightarrow> Session_Tree.segment_source \<Rightarrow> bytes option \<times> nat" where
  "cut_at files k s \<equiv> (files (file_session s) (file_index s), min (source_end s) (k - 1))"

lemma kept_ok:
  assumes "list_all2 (source_ok cd) (map (located files) srcs) Rs"
  shows "list_all2 (source_ok cd) (map (cut_at files k) (filter (\<lambda>s. source_start s < k) srcs)) (kept k srcs Rs)"
  using assms
proof (induction srcs arbitrary: Rs)
  case (Cons s srcs)
  then obtain R Rs' where R: "Rs = R # Rs'" "source_ok cd (located files s) R" "list_all2 (source_ok cd) (map (located files) srcs) Rs'"
    by (auto simp: list_all2_Cons1)
  have "source_ok cd (cut_at files k s) R" using R(2) by (simp add: source_ok_def located_def)
  then show ?case using Cons.IH [OF R(3)] R(1) by (simp add: kept_def)
qed (simp add: kept_def)

lemma kept_set: "set (kept k srcs Rs) \<subseteq> set Rs"
  by (auto simp: kept_def dest: set_zip_rightD)

lemma kept_visible:
  assumes "list_all2 (\<lambda>s R. \<forall>r \<in> set R. source_start s \<le> rec_seq r) srcs Rs" "\<forall>R \<in> set Rs. sorted_wrt (<) (map offset_of R)"
  shows "concat (map2 (visible f) (map (cut_at files k) (filter (\<lambda>s. source_start s < k) srcs)) (kept k srcs Rs)) =
    filter (\<lambda>r. rec_seq r < k) (concat (map2 (visible f) (map (located files) srcs) Rs))"
  using assms
proof (induction rule: list_all2_induct)
  case (Cons s srcs R Rs)
  show ?case
  proof (cases "source_start s < k")
    case True
    then have "visible f (cut_at files k s) R = filter (\<lambda>r. rec_seq r < k) (visible f (located files s) R)"
      using visible_cut [of R k] Cons.prems by (simp add: located_def)
    then show ?thesis using Cons.IH Cons.prems True by (simp add: kept_def)
  next
    case False
    have "filter (\<lambda>r. rec_seq r < k) (visible f (located files s) R) = []"
      using Cons.hyps(1) False by (fastforce simp: visible_def filter_empty_conv dest: set_takeWhileD)
    then show ?thesis using Cons.IH Cons.prems False by (simp add: kept_def)
  qed
qed (simp add: kept_def)

lemma sorted_distinct_unique:
  assumes "sorted (map offset_of xs)" "sorted (map offset_of ys)" "distinct (map offset_of ys)" "mset xs = mset ys"
  shows "xs = ys"
proof -
  have "distinct (map offset_of xs)" using assms(3,4) mset_eq_imp_distinct_iff [of "map offset_of xs" "map offset_of ys"] by simp
  then show ?thesis using assms mset_eq_setD [OF assms(4)]
    by (intro map_sorted_distinct_set_unique [of offset_of]) (auto simp: distinct_map)
qed

section \<open>Property\<close>

text \<open>
  C15: a fork replays the beginning of its parent. Let the parent, itself a fork or not, be within the limit of
  references, and let its files hold the records of its rows in order. Then both sessions replay
  without an error, and the replay of the fork is the replay of the parent up to the fork point.
\<close>

theorem fork_replays_prefix:
  assumes "codec_ok cd" "unused t new fresh" "fork t b k new fresh = (t', Inr c)"
    "\<forall>n \<in> set (query_segment_nodes t b). \<exists>d r. lineage t (node_id n) d r \<and> d < 64" "segment_sources t b = Inr srcs"
    "list_all2 (source_ok cd) (map (located files) srcs) Rs" "\<forall>R \<in> set Rs. sorted_wrt (<) (map offset_of R)"
    "list_all2 (\<lambda>s R. \<forall>r \<in> set R. source_start s \<le> rec_seq r) srcs Rs"
    "distinct (map offset_of (concat (map2 (visible f) (map (located files) srcs) Rs)))"
  shows "\<exists>st st' out. replay_session cd t files b f = Inr st \<and> collect cd st = Inr (map item_of out) \<and>
    replay_session cd t' files c f = Inr st' \<and> collect cd st' = Inr (map item_of (filter (\<lambda>r. rec_seq r < k) out))"
proof -
  have no: "\<not> (\<exists>n \<in> set (query_segment_nodes t b). \<exists>r. node_start n < k \<and> lineage t (node_id n) 64 r)"
    using assms(4) lineage_unique by (metis less_irrefl)
  have le: "\<forall>n \<in> set (query_segment_nodes t b). \<exists>d r. lineage t (node_id n) d r \<and> d \<le> 64" using assms(4) less_imp_le by metis
  obtain srcs' where s': "segment_sources t' c = Inr srcs'"
    "map (\<lambda>s. (file_session s, file_index s, source_start s, source_end s)) srcs' =
     map (\<lambda>s. (file_session s, file_index s, source_start s, min (source_end s) (k - 1))) (filter (\<lambda>s. source_start s < k) srcs)"
    using fork_sources [OF assms(2,3) le, unfolded if_not_P [OF no] assms(5)] by auto
  have "map (located files) srcs' = map (\<lambda>(fs, fi, a, e). (files fs fi, e)) (map (\<lambda>s. (file_session s, file_index s, source_start s, source_end s)) srcs')"
    by (simp add: located_def comp_def)
  then have loc: "map (located files) srcs' = map (cut_at files k) (filter (\<lambda>s. source_start s < k) srcs)"
    unfolding s'(2) by (simp add: comp_def)
  obtain st out where o: "replay cd (map (located files) srcs) f = Inr st" "collect cd st = Inr (map item_of out)"
    "sorted (map offset_of out)" "mset out = mset (concat (map2 (visible f) (map (located files) srcs) Rs))"
    by (rule replay_merges [OF assms(1,6,7)])
  have "\<forall>R \<in> set (kept k srcs Rs). sorted_wrt (<) (map offset_of R)" using assms(7) kept_set by blast
  then obtain st' out' where o': "replay cd (map (cut_at files k) (filter (\<lambda>s. source_start s < k) srcs)) f = Inr st'"
    "collect cd st' = Inr (map item_of out')" "sorted (map offset_of out')"
    "mset out' = mset (concat (map2 (visible f) (map (cut_at files k) (filter (\<lambda>s. source_start s < k) srcs)) (kept k srcs Rs)))"
    by (rule replay_merges [OF assms(1) kept_ok [OF assms(6)]])
  have ms: "mset out' = mset (filter (\<lambda>r. rec_seq r < k) out)"
    unfolding o'(4) kept_visible [OF assms(8,7)] by (simp only: mset_filter o(4))
  have "distinct (map offset_of out)"
    using assms(9) arg_cong [OF o(4), of "image_mset offset_of"] mset_eq_imp_distinct_iff
    by (metis mset_map)
  then have "distinct (map offset_of (filter (\<lambda>r. rec_seq r < k) out))" by (simp add: distinct_map_filter)
  moreover have "sorted (map offset_of (filter (\<lambda>r. rec_seq r < k) out))" using o(3) by (simp add: sorted_filter)
  ultimately have "out' = filter (\<lambda>r. rec_seq r < k) out" by (intro sorted_distinct_unique [OF o'(3) _ _ ms])
  then show ?thesis using o(1,2) o'(1,2) assms(5) s'(1) loc by (auto simp: replay_session_def)
qed

definition demo_records :: "segment_record list" where
  "demo_records = records_of 0 0 [plain_event ''hi'', plain_event ''hi'']"

definition demo_files :: "session_id \<Rightarrow> nat \<Rightarrow> bytes option" where
  "demo_files s i = (if s = ''a'' \<and> i = 0 then Some (file_of plain_codec demo_records) else None)"

lemma demo_reading: "reading plain_codec \<lparr>unread = file_of plain_codec demo_records, rows_read = 0\<rparr> demo_records"
proof -
  have "encodable plain_codec \<lparr>rec_seq = s, rec_row = r, rec_event = plain_event ''hi''\<rparr>" if "s < 2" "r < 2" for s r
    using that by (simp add: encodable_def frame_ok_def body_def plain_codec_def plain_to_vec_def plain_event_def u32_max_def)
  then show ?thesis by (auto simp: reading_def unframe_def demo_records_def)
qed

theorem fork_replays_prefix_witness:
  "\<exists>t' st' out. fork demo_tree ''a'' 1 ''b'' demo_fresh = (t', Inr ''b'') \<and>
     replay_session plain_codec t' demo_files ''b'' (Offset 0 0) = Inr st' \<and> collect plain_codec st' = Inr (map item_of out) \<and>
     (\<forall>r \<in> set out. rec_seq r < 1)"
proof -
  have n: "query_segment_node demo_tree ''sa'' = Inr (demo_node ''sa'' ''a'' None 0 1)" by (simp add: query_segment_node_def demo_tree_def demo_node_def)
  then have l: "lineage demo_tree ''sa'' 0 (demo_node ''sa'' ''a'' None 0 1)" by (rule lineage.physical) (simp add: demo_node_def)
  obtain t' where t': "fork demo_tree ''a'' 1 ''b'' demo_fresh = (t', Inr ''b'')"
    using fork_ok [OF _ demo_unused(1), of "''a''" 1] by (auto simp: demo_query copied_rows_def check_cover_def demo_node_def)
  let ?src = "\<lparr>source_id = ''sa'', file_session = ''a'', file_index = 0, source_parent = None, source_start = 0, source_end = 1\<rparr>"
  have src: "segment_sources demo_tree ''a'' = Inr [?src]"
    using resolve_lineage [OF l, of 0] by (simp add: segment_sources_def demo_query demo_node_def)
  have d: "\<forall>n \<in> set (query_segment_nodes demo_tree ''a''). \<exists>d r. lineage demo_tree (node_id n) d r \<and> d < 64"
    using l by (auto simp: demo_query demo_node_def)
  have ok: "list_all2 (source_ok plain_codec) (map (located demo_files) [?src]) [demo_records]"
    using demo_reading by (simp add: source_ok_def located_def demo_files_def)
  have srt: "\<forall>R \<in> set [demo_records]. sorted_wrt (<) (map offset_of R)"
    by (simp add: demo_records_def offset_of_def less_offset_def)
  have dist: "distinct (map offset_of (concat (map2 (visible (Offset 0 0)) (map (located demo_files) [?src]) [demo_records])))"
    by (simp add: demo_records_def visible_def located_def offset_of_def less_eq_offset_def)
  obtain st' out where "replay_session plain_codec t' demo_files ''b'' (Offset 0 0) = Inr st'"
    "collect plain_codec st' = Inr (map item_of (filter (\<lambda>r. rec_seq r < 1) out))"
    using fork_replays_prefix [OF plain_codec_ok demo_unused(1) t' d src ok srt _ dist] by auto
  with t' show ?thesis by (intro exI [of _ t'] exI [of _ st'] exI [of _ "filter (\<lambda>r. rec_seq r < 1) out"]) simp
qed

end
