(* ===== verification/Session_Rebuild.thy ===== *)
theory Session_Rebuild
  imports Session_Fork
begin

text \<open>
  The rebuild of the index of a session from its segment files, \<^verbatim>\<open>rebuild_index\<close> of
  \<^verbatim>\<open>session-store/src/tree.rs\<close>: afterwards every record of the files has its row, and a second rebuild
  changes nothing.
\<close>

section \<open>The rows of one file\<close>

definition present :: "event_tuple list \<Rightarrow> session_id \<Rightarrow> nat \<Rightarrow> bool" where
  "present tab sid q \<longleftrightarrow> (\<exists>x \<in> set tab. tuple_session x = sid \<and> tuple_offset x = q)"

definition storable :: "rmp \<Rightarrow> segment_record \<Rightarrow> bool" where
  "storable rmp r \<longleftrightarrow> is_Ok (rmp_to_vec rmp (rec_event r)) \<and> sql_int (rec_seq r)"

lemma present_list_ex: "list_ex (\<lambda>x. tuple_session x = sid \<and> tuple_offset x = q) tab \<longleftrightarrow> present tab sid q"
  by (simp add: present_def list_ex_iff)

lemma present_append [simp]: "present (xs @ ys) sid q \<longleftrightarrow> present xs sid q \<or> present ys sid q"
  by (auto simp: present_def)

lemma rebuild_events_result:
  "rebuild_events rmp sid i rs (tab, st) = Inr (tab', st') \<Longrightarrow>
   (\<exists>ys. tab' = tab @ ys \<and> rows_inserted st' = rows_inserted st + length ys) \<and>
   (\<forall>r \<in> set rs. storable rmp r \<and> present tab' sid (rec_seq r)) \<and> segments_scanned st' = segments_scanned st \<and>
   rows_inserted st' + rows_skipped st' = rows_inserted st + rows_skipped st + length rs"
proof (induction rs arbitrary: tab st)
  case (Cons r rs)
  obtain bs where bs: "rmp_to_vec rmp (rec_event r) = Inr bs" "sql_int (rec_seq r)"
    using Cons.prems by (auto split: sum.splits if_splits)
  then have st: "storable rmp r" by (simp add: storable_def)
  let ?x = "\<lparr>tuple_offset = rec_seq r, tuple_session = sid, tuple_segment = i, tuple_payload = bs\<rparr>"
  show ?case
  proof (cases "present tab sid (rec_seq r)")
    case True
    then have "rebuild_events rmp sid i rs (tab, st\<lparr>rows_skipped := rows_skipped st + 1\<rparr>) = Inr (tab', st')"
      using Cons.prems bs by (simp add: present_list_ex)
    from Cons.IH [OF this] True st show ?thesis by auto
  next
    case False
    then have "rebuild_events rmp sid i rs (tab @ [?x], st\<lparr>rows_inserted := rows_inserted st + 1\<rparr>) = Inr (tab', st')"
      using Cons.prems bs by (simp add: present_list_ex)
    from Cons.IH [OF this] st show ?thesis by (auto simp: present_def)
  qed
qed simp

lemma rebuild_events_again:
  "\<forall>r \<in> set rs. storable rmp r \<and> present tab sid (rec_seq r) \<Longrightarrow>
   rebuild_events rmp sid i rs (tab, st) = Inr (tab, st\<lparr>rows_skipped := rows_skipped st + length rs\<rparr>)"
proof (induction rs arbitrary: st)
  case (Cons r rs)
  then obtain bs where "rmp_to_vec rmp (rec_event r) = Inr bs" by (auto simp: storable_def is_Ok_def split: sum.splits)
  moreover have "list_ex (\<lambda>x. tuple_session x = sid \<and> tuple_offset x = rec_seq r) tab" "sql_int (rec_seq r)"
    using Cons.prems by (auto simp: present_def list_ex_iff storable_def)
  ultimately show ?case using Cons.IH [of "st\<lparr>rows_skipped := rows_skipped st + 1\<rparr>"] Cons.prems by simp
qed simp

section \<open>The row of one file\<close>

definition file_row :: "segment_node list \<Rightarrow> session_id \<Rightarrow> nat \<Rightarrow> segment_node option" where
  "file_row segs sid idx = find (\<lambda>r. node_session r = sid \<and> node_index r = idx \<and> node_parent r = None) segs"

lemma query_file_row: "query_segment_id segs sid idx = map_option node_id (file_row segs sid idx)"
  by (simp add: query_segment_id_def file_row_def)

lemma file_row_mem: "file_row segs sid idx = Some n \<Longrightarrow> n \<in> set segs \<and> node_session n = sid \<and> node_index n = idx \<and> node_parent n = None"
  by (auto simp: file_row_def find_Some_iff)

lemma find_map_keep: "(\<And>x. P (g x) = P x) \<Longrightarrow> find P (map g xs) = map_option g (find P xs)"
  by (induction xs) auto

lemma upsert_result:
  fixes segs sid idx i start endo
  defines "n \<equiv> \<lparr>node_id = i, node_session = sid, node_index = idx, node_parent = None, node_start = start, node_end = endo\<rparr>"
  assumes "distinct (map node_id segs)" "case file_row segs sid idx of None \<Rightarrow> i \<notin> node_id ` set segs | Some m \<Rightarrow> i = node_id m"
  shows "distinct (map node_id (upsert_segment n segs))" "node_id ` set (upsert_segment n segs) = insert i (node_id ` set segs)"
    "\<exists>m. file_row (upsert_segment n segs) sid idx = Some m \<and> node_end m = endo"
    "j \<noteq> idx \<Longrightarrow> file_row (upsert_segment n segs) sid j = file_row segs sid j"
proof -
  let ?g = "\<lambda>r. if node_id r = i then r\<lparr>node_end := endo\<rparr> else r"
  have all: "distinct (map node_id (upsert_segment n segs)) \<and> node_id ` set (upsert_segment n segs) = insert i (node_id ` set segs) \<and>
      (\<exists>m. file_row (upsert_segment n segs) sid idx = Some m \<and> node_end m = endo) \<and>
      (j \<noteq> idx \<longrightarrow> file_row (upsert_segment n segs) sid j = file_row segs sid j)"
  proof (cases "file_row segs sid idx")
    case None
    then have i: "i \<notin> node_id ` set segs" using assms(3) by simp
    then have u: "upsert_segment n segs = segs @ [n]" by (force simp: upsert_segment_def n_def list_ex_iff)
    show ?thesis
      using None i assms(2) unfolding u by (auto simp: file_row_def find_append n_def split: option.splits)
  next
    case (Some m)
    then have i: "i = node_id m" and m: "m \<in> set segs" using assms(3) file_row_mem by auto
    then have u: "upsert_segment n segs = map ?g segs" by (auto simp: upsert_segment_def n_def list_ex_iff)
    have f: "file_row (map ?g segs) sid j' = map_option ?g (file_row segs sid j')" for j'
      unfolding file_row_def by (rule find_map_keep) simp
    have "file_row (map ?g segs) sid j = file_row segs sid j" if "j \<noteq> idx"
    proof (cases "file_row segs sid j")
      case (Some x)
      then have "x \<in> set segs" "x \<noteq> m" using file_row_mem [OF Some] file_row_mem [OF \<open>file_row segs sid idx = Some m\<close>] that by auto
      then have "node_id x \<noteq> i" using i m assms(2) by (metis distinct_map inj_onD)
      then show ?thesis using f Some by simp
    qed (simp add: f)
    moreover have ids: "map node_id (map ?g segs) = map node_id segs" by simp
    moreover have "node_id ` set (map ?g segs) = insert i (node_id ` set segs)"
    proof -
      have "node_id ` set (map ?g segs) = set (map node_id segs)" unfolding ids [symmetric] by (rule set_map [symmetric])
      then show ?thesis using i m by auto
    qed
    moreover have "distinct (map node_id (map ?g segs))" unfolding ids by (rule assms(2))
    moreover have "\<exists>m. file_row (map ?g segs) sid idx = Some m \<and> node_end m = endo" using f [of idx] Some i by simp
    ultimately show ?thesis unfolding u by blast
  qed
  from all show "distinct (map node_id (upsert_segment n segs))" "node_id ` set (upsert_segment n segs) = insert i (node_id ` set segs)"
    "\<exists>m. file_row (upsert_segment n segs) sid idx = Some m \<and> node_end m = endo"
    "j \<noteq> idx \<Longrightarrow> file_row (upsert_segment n segs) sid j = file_row segs sid j"
    by blast+
qed

lemma upsert_again:
  assumes "distinct (map node_id segs)" "file_row segs sid idx = Some m" "node_end m = endo"
  shows "upsert_segment \<lparr>node_id = node_id m, node_session = sid, node_index = idx, node_parent = None, node_start = start, node_end = endo\<rparr> segs = segs"
proof -
  have m: "m \<in> set segs" using file_row_mem [OF assms(2)] by simp
  have "(if node_id r = node_id m then r\<lparr>node_end := endo\<rparr> else r) = r" if "r \<in> set segs" for r
    using that m assms(1,3) by (metis distinct_map inj_onD segment_node.surjective segment_node.update_convs(6))
  then have "map (\<lambda>r. if node_id r = node_id m then r\<lparr>node_end := endo\<rparr> else r) segs = segs" by (simp add: map_idI)
  moreover have "list_ex (\<lambda>r. node_id r = node_id m) segs" using m by (auto simp: list_ex_iff)
  ultimately show ?thesis by (simp add: upsert_segment_def cong: if_cong)
qed

section \<open>All files\<close>

definition settled :: "segment_node list \<Rightarrow> session_id \<Rightarrow> nat \<Rightarrow> nat \<Rightarrow> bool" where
  "settled segs sid idx e \<longleftrightarrow> (\<exists>m. file_row segs sid idx = Some m \<and> node_end m = e)"

lemma rebuild_segments_result:
  "rebuild_segments rmp sid fresh L (segs, tab, st) = Inr (segs', tab', st') \<Longrightarrow>
   distinct (map fst L) \<Longrightarrow> distinct (map node_id segs) \<Longrightarrow> inj fresh \<Longrightarrow> \<forall>idx \<in> fst ` set L. fresh idx \<notin> node_id ` set segs \<Longrightarrow>
   distinct (map node_id segs') \<and> (\<forall>j. j \<notin> fst ` set L \<longrightarrow> file_row segs' sid j = file_row segs sid j) \<and>
   (\<forall>(idx, rs) \<in> set L. settled segs' sid idx (rec_seq (last rs)) \<and> sql_int (rec_seq (hd rs)) \<and> sql_int (rec_seq (last rs)) \<and>
      (\<forall>r \<in> set rs. storable rmp r \<and> present tab' sid (rec_seq r))) \<and>
   (\<exists>ys. tab' = tab @ ys \<and> rows_inserted st' = rows_inserted st + length ys) \<and> segments_scanned st' = segments_scanned st \<and>
   rows_inserted st' + rows_skipped st' = rows_inserted st + rows_skipped st + length (concat (map snd L))"
proof (induction L arbitrary: segs tab st)
  case (Cons p L)
  obtain idx rs where p: "p = (idx, rs)" by force
  define i where "i = (case query_segment_id segs sid idx of None \<Rightarrow> fresh idx | Some i \<Rightarrow> i)"
  let ?n = "\<lparr>node_id = i, node_session = sid, node_index = idx, node_parent = None, node_start = rec_seq (hd rs), node_end = rec_seq (last rs)\<rparr>"
  have sql: "sql_int (rec_seq (hd rs))" "sql_int (rec_seq (last rs))"
    using Cons.prems(1) by (auto simp: p Let_def split: if_splits)
  obtain tab1 st1 where e: "rebuild_events rmp sid i rs (tab, st) = Inr (tab1, st1)"
    and rest: "rebuild_segments rmp sid fresh L (upsert_segment ?n segs, tab1, st1) = Inr (segs', tab', st')"
    using Cons.prems(1) sql by (auto simp: p Let_def i_def split: sum.splits)
  have i: "case file_row segs sid idx of None \<Rightarrow> i \<notin> node_id ` set segs | Some m \<Rightarrow> i = node_id m"
    using Cons.prems(5) by (auto simp: p i_def query_file_row split: option.splits)
  note U = upsert_result [OF Cons.prems(3) i, where start = "rec_seq (hd rs)" and endo = "rec_seq (last rs)"]
  have i': "i = fresh idx \<or> i \<in> node_id ` set segs"
    by (auto simp: i_def query_file_row split: option.splits dest: file_row_mem)
  have idx: "idx \<notin> fst ` set L" "distinct (map fst L)" using Cons.prems(2) by (auto simp: p)
  have "fresh j \<noteq> fresh idx" if "j \<in> fst ` set L" for j using that idx(1) Cons.prems(4) by (auto dest: injD)
  then have fr: "\<forall>j \<in> fst ` set L. fresh j \<notin> node_id ` set (upsert_segment ?n segs)"
    unfolding U(2) using i' Cons.prems(5) by (auto simp: p)
  note IH = Cons.IH [OF rest idx(2) U(1) Cons.prems(4) fr]
  note E = rebuild_events_result [OF e]
  have keep: "\<forall>j. j \<notin> fst ` set L \<longrightarrow> file_row segs' sid j = file_row (upsert_segment ?n segs) sid j" using IH by blast
  obtain ys zs where tabs: "tab1 = tab @ ys" "rows_inserted st1 = rows_inserted st + length ys"
    "tab' = tab1 @ zs" "rows_inserted st' = rows_inserted st1 + length zs" using E IH by blast
  have "settled segs' sid idx (rec_seq (last rs))" using keep idx(1) U(3) by (simp add: settled_def)
  moreover have "\<forall>j. j \<notin> fst ` set (p # L) \<longrightarrow> file_row segs' sid j = file_row segs sid j" using keep U(4) by (simp add: p)
  moreover have "\<forall>r \<in> set rs. storable rmp r \<and> present tab' sid (rec_seq r)" using E tabs(3) by simp
  moreover have "\<exists>ws. tab' = tab @ ws \<and> rows_inserted st' = rows_inserted st + length ws"
    using tabs by (intro exI [of _ "ys @ zs"]) simp
  moreover have "rows_inserted st' + rows_skipped st' = rows_inserted st + rows_skipped st + length (concat (map snd (p # L)))"
    using IH E by (simp add: p)
  moreover have "segments_scanned st' = segments_scanned st" using IH E by simp
  moreover have "distinct (map node_id segs')" using IH by blast
  ultimately show ?case using IH sql by (auto simp: p)
qed simp

lemma rebuild_segments_again:
  "\<forall>(idx, rs) \<in> set L. settled segs sid idx (rec_seq (last rs)) \<and> sql_int (rec_seq (hd rs)) \<and> sql_int (rec_seq (last rs)) \<and>
      (\<forall>r \<in> set rs. storable rmp r \<and> present tab sid (rec_seq r)) \<Longrightarrow>
   distinct (map node_id segs) \<Longrightarrow>
   rebuild_segments rmp sid fresh L (segs, tab, st) = Inr (segs, tab, st\<lparr>rows_skipped := rows_skipped st + length (concat (map snd L))\<rparr>)"
proof (induction L arbitrary: st)
  case (Cons p L)
  obtain idx rs where p: "p = (idx, rs)" by force
  obtain m where m: "file_row segs sid idx = Some m" "node_end m = rec_seq (last rs)" using Cons.prems(1) by (auto simp: p settled_def)
  have "rebuild_events rmp sid (node_id m) rs (tab, st) = Inr (tab, st\<lparr>rows_skipped := rows_skipped st + length rs\<rparr>)"
    using Cons.prems(1) by (intro rebuild_events_again) (simp add: p)
  then show ?case
    using Cons.IH [of "st\<lparr>rows_skipped := rows_skipped st + length rs\<rparr>"] Cons.prems m upsert_again [OF Cons.prems(2) m]
    by (simp add: p query_file_row Let_def)
qed simp

lemma scan_files_mem:
  "scan_files cd files = Inr L \<Longrightarrow> distinct (map fst files) \<Longrightarrow>
   distinct (map fst L) \<and> fst ` set L \<subseteq> fst ` set files \<and>
   (\<forall>(idx, fl) \<in> set files. \<exists>rs. read_all cd \<lparr>unread = fl, rows_read = 0\<rparr> = Inr rs \<and> (rs \<noteq> [] \<longrightarrow> (idx, rs) \<in> set L))"
proof (induction files arbitrary: L)
  case (Cons p files)
  obtain idx fl where p: "p = (idx, fl)" by force
  obtain rs L' where rs: "read_all cd \<lparr>unread = fl, rows_read = 0\<rparr> = Inr rs" "scan_files cd files = Inr L'"
    "L = (if rs = [] then L' else (idx, rs) # L')"
    using Cons.prems(1) by (auto simp: p split: sum.splits)
  note IH = Cons.IH [OF rs(2)]
  show ?case using IH Cons.prems(2) rs(1,3) by (cases "rs = []") (auto simp: p)
qed simp

section \<open>Property\<close>

text \<open>
  C28: the rebuild heals the index and is idempotent. A successful rebuild only adds event rows, and
  afterwards every record that can be read from the files has a row; rebuilding again succeeds, changes
  nothing and counts every record as skipped.
\<close>

theorem rebuild_heals_once:
  assumes "rebuild_index cd rmp t sid fresh files = (t', Inr st)" "distinct (map fst files)" "distinct (map node_id (segments t))"
    "inj fresh" "\<forall>idx. fresh idx \<notin> node_id ` set (segments t)"
  shows "(\<exists>ys. events t' = events t @ ys \<and> length ys = rows_inserted st) \<and>
    (\<forall>(idx, fl) \<in> set files. \<exists>rs. read_all cd \<lparr>unread = fl, rows_read = 0\<rparr> = Inr rs \<and>
       (\<forall>r \<in> set rs. \<exists>x \<in> set (events t'). tuple_session x = sid \<and> tuple_offset x = rec_seq r)) \<and>
    (\<forall>fresh2. rebuild_index cd rmp t' sid fresh2 files =
       (t', Inr \<lparr>segments_scanned = segments_scanned st, rows_inserted = 0, rows_skipped = rows_inserted st + rows_skipped st\<rparr>))"
proof -
  obtain L segs tab where L: "scan_files cd files = Inr L"
    and r: "rebuild_segments rmp sid fresh L (segments t, events t, \<lparr>segments_scanned = length L, rows_inserted = 0, rows_skipped = 0\<rparr>) =
      Inr (segs, tab, st)" and t': "t' = t\<lparr>segments := segs, events := tab\<rparr>"
    using assms(1) by (auto simp: rebuild_index_def split: sum.splits prod.splits)
  note S = scan_files_mem [OF L assms(2)]
  have "distinct (map fst L)" "\<forall>idx \<in> fst ` set L. fresh idx \<notin> node_id ` set (segments t)" using S assms(5) by blast+
  note R = rebuild_segments_result [OF r this(1) assms(3,4) this(2)]
  have again: "rebuild_segments rmp sid fresh2 L (segs, tab, \<lparr>segments_scanned = length L, rows_inserted = 0, rows_skipped = 0\<rparr>) =
      Inr (segs, tab, \<lparr>segments_scanned = length L, rows_inserted = 0, rows_skipped = length (concat (map snd L))\<rparr>)" for fresh2
    using R rebuild_segments_again [of L segs sid rmp tab fresh2 "\<lparr>segments_scanned = length L, rows_inserted = 0, rows_skipped = 0\<rparr>"] by simp
  have "\<forall>(idx, fl) \<in> set files. \<exists>rs. read_all cd \<lparr>unread = fl, rows_read = 0\<rparr> = Inr rs \<and> (\<forall>r \<in> set rs. present tab sid (rec_seq r))"
  proof (intro ballI, clarify)
    fix idx fl assume "(idx, fl) \<in> set files"
    then obtain rs where rs: "read_all cd \<lparr>unread = fl, rows_read = 0\<rparr> = Inr rs" "rs \<noteq> [] \<longrightarrow> (idx, rs) \<in> set L" using S by blast
    then have "\<forall>r \<in> set rs. present tab sid (rec_seq r)" using R by (cases "rs = []") auto
    with rs(1) show "\<exists>rs. read_all cd \<lparr>unread = fl, rows_read = 0\<rparr> = Inr rs \<and> (\<forall>r \<in> set rs. present tab sid (rec_seq r))" by blast
  qed
  moreover have "\<exists>ys. events t' = events t @ ys \<and> length ys = rows_inserted st" using R t' by auto
  moreover have "rebuild_index cd rmp t' sid fresh2 files =
      (t', Inr \<lparr>segments_scanned = segments_scanned st, rows_inserted = 0, rows_skipped = rows_inserted st + rows_skipped st\<rparr>)" for fresh2
    using R again [of fresh2] L t' by (simp add: rebuild_index_def)
  ultimately show ?thesis by (simp add: t' present_def)
qed

theorem rebuild_heals_once_witness:
  "\<exists>t' st. rebuild_index plain_codec demo_rmp tree_open ''a'' demo_fresh [(0, file_of plain_codec (records_of 0 0 [plain_event ''hi'']))] = (t', Inr st) \<and>
     rebuild_index plain_codec demo_rmp t' ''a'' demo_fresh [(0, file_of plain_codec (records_of 0 0 [plain_event ''hi'']))] =
       (t', Inr \<lparr>segments_scanned = 1, rows_inserted = 0, rows_skipped = 1\<rparr>)"
proof -
  let ?rs = "records_of 0 0 [plain_event ''hi'']"
  let ?files = "[(0, file_of plain_codec ?rs)]"
  have enc: "\<forall>r \<in> set ?rs. encodable plain_codec r"
    by (simp add: encodable_def frame_ok_def body_def plain_codec_def plain_to_vec_def plain_event_def u32_max_def)
  have "scan_files plain_codec ?files = Inr [(0, ?rs)]"
    using read_all_file [OF plain_codec_ok enc, of "[]" 0] by (simp add: unframe_def)
  then obtain t' where t': "rebuild_index plain_codec demo_rmp tree_open ''a'' demo_fresh ?files =
      (t', Inr \<lparr>segments_scanned = 1, rows_inserted = 1, rows_skipped = 0\<rparr>)"
    by (simp add: rebuild_index_def tree_open_def query_segment_id_def sql_int_def demo_rmp_def Let_def)
  have "\<forall>fresh2. rebuild_index plain_codec demo_rmp t' ''a'' fresh2 ?files = (t', Inr \<lparr>segments_scanned = 1, rows_inserted = 0, rows_skipped = 1\<rparr>)"
    using rebuild_heals_once [OF t' _ _ demo_fresh_inj] by (simp add: tree_open_def)
  with t' show ?thesis by blast
qed

end
