(* ===== verification/Merkle.thy ===== *)
theory Merkle
  imports Prelude
begin

text \<open>
  The Merkle tree over canonical spec inputs of \<^verbatim>\<open>seccore/src/merkle.rs\<close>. SHA-256 with its hexadecimal
  rendering comes from the \<^verbatim>\<open>sha2\<close> and \<^verbatim>\<open>hex\<close> crates and is the parameter \<open>H\<close>, from the hashed bytes to the
  digest string; what the code relies on is that every digest has 64 characters.
\<close>

section \<open>Hashing\<close>

type_synonym hash = "bytes \<Rightarrow> string"

definition digest64 :: "hash \<Rightarrow> bool" where
  "digest64 H \<longleftrightarrow> (\<forall>bs. length (H bs) = 64)"

text \<open>
  A collision between two given lists of hashed byte strings. That a hash function has collisions at all
  is no information; the theorems name the inputs of the two computations and find one among them.
\<close>

definition collides :: "hash \<Rightarrow> bytes list \<Rightarrow> bytes list \<Rightarrow> bool" where
  "collides H A B \<longleftrightarrow> (\<exists>a \<in> set A. \<exists>b \<in> set B. a \<noteq> b \<and> H a = H b)"

definition hash_string :: "hash \<Rightarrow> string \<Rightarrow> string" where
  "hash_string H s = H (str_bytes s)"

definition hash_pair :: "hash \<Rightarrow> string \<Rightarrow> string \<Rightarrow> string" where
  "hash_pair H left right = H (str_bytes left @ str_bytes right)"

definition hash_spec_canonical_input :: "hash \<Rightarrow> string \<Rightarrow> string" where
  "hash_spec_canonical_input H s = hash_string H s"

section \<open>The tree\<close>

fun next_layer :: "hash \<Rightarrow> string list \<Rightarrow> string list" where
  "next_layer H [] = []"
| "next_layer H [x] = [hash_pair H x x]"
| "next_layer H (x # y # xs) = hash_pair H x y # next_layer H xs"

lemma length_next_layer: "length (next_layer H xs) = (length xs + 1) div 2"
  by (induction H xs rule: next_layer.induct) auto

function reduce_layers :: "hash \<Rightarrow> string list \<Rightarrow> string list" where
  "reduce_layers H layer = (if 1 < length layer then reduce_layers H (next_layer H layer) else layer)"
  by pat_completeness auto

termination
  by (relation "measure (\<lambda>(H, xs). length xs)") (auto simp: length_next_layer)

declare reduce_layers.simps [simp del]

definition compute_merkle_root :: "hash \<Rightarrow> string list \<Rightarrow> string" where
  "compute_merkle_root H inputs =
     (if inputs = [] then hash_string H []
      else (case reduce_layers H (map (hash_string H) inputs) of
              [] \<Rightarrow> hash_string H []
            | r # _ \<Rightarrow> r))"

definition verify_spec_integrity :: "hash \<Rightarrow> string \<Rightarrow> string \<Rightarrow> bool" where
  "verify_spec_integrity H s expected = (hash_spec_canonical_input H s = expected)"

definition verify_merkle_root :: "hash \<Rightarrow> string list \<Rightarrow> string \<Rightarrow> bool" where
  "verify_merkle_root H inputs expected = (compute_merkle_root H inputs = expected)"

section \<open>What a root computation hashes\<close>

text \<open>The byte strings that one layer, the reduction and the whole computation pass to the hash function.\<close>

fun layer_inputs :: "string list \<Rightarrow> bytes list" where
  "layer_inputs [] = []"
| "layer_inputs [x] = [str_bytes x @ str_bytes x]"
| "layer_inputs (x # y # xs) = (str_bytes x @ str_bytes y) # layer_inputs xs"

function reduce_inputs :: "hash \<Rightarrow> string list \<Rightarrow> bytes list" where
  "reduce_inputs H layer = (if 1 < length layer then layer_inputs layer @ reduce_inputs H (next_layer H layer) else [])"
  by pat_completeness auto

termination
  by (relation "measure (\<lambda>(H, xs). length xs)") (auto simp: length_next_layer)

declare reduce_inputs.simps [simp del]

definition root_inputs :: "hash \<Rightarrow> string list \<Rightarrow> bytes list" where
  "root_inputs H xs = (if xs = [] then [[]] else map str_bytes xs @ reduce_inputs H (map (hash_string H) xs))"

section \<open>Lemmas\<close>

text \<open>The workhorse: without a collision, equal digests come from equal inputs.\<close>

lemma hash_inj: "\<not> collides H A B \<Longrightarrow> a \<in> set A \<Longrightarrow> b \<in> set B \<Longrightarrow> H a = H b \<longleftrightarrow> a = b"
  by (auto simp: collides_def)

lemma collides_parts:
  "\<not> collides H (A @ A') (B @ B') \<Longrightarrow> \<not> collides H A B \<and> \<not> collides H A' B'"
  "\<not> collides H (a # A) (b # B) \<Longrightarrow> (H a = H b \<longleftrightarrow> a = b) \<and> \<not> collides H A B"
  by (auto simp: collides_def)

lemma digest64_layers [simp]:
  "digest64 H \<Longrightarrow> length (hash_string H s) = 64" "digest64 H \<Longrightarrow> length (hash_pair H a b) = 64"
  by (simp_all add: digest64_def hash_string_def hash_pair_def)

lemma digest64_next: "digest64 H \<Longrightarrow> \<forall>x \<in> set (next_layer H xs). length x = 64"
  by (induction H xs rule: next_layer.induct) auto

lemma next_layer_inj:
  "\<not> collides H (layer_inputs xs) (layer_inputs ys) \<Longrightarrow> length xs = length ys \<Longrightarrow>
   \<forall>x \<in> set xs \<union> set ys. length x = 64 \<Longrightarrow> next_layer H xs = next_layer H ys \<Longrightarrow> xs = ys"
proof (induction H xs arbitrary: ys rule: next_layer.induct)
  case (2 H x)
  then obtain y where ys: "ys = [y]" by (cases ys) auto
  with 2 show ?case by (auto simp: hash_pair_def inj_str_bytes dest: collides_parts(2))
next
  case (3 H x y xs)
  then obtain x' y' ys' where ys: "ys = x' # y' # ys'" by (cases ys; cases "tl ys") auto
  note c = collides_parts(2) [OF 3(2) [unfolded ys layer_inputs.simps]]
  have "str_bytes x @ str_bytes y = str_bytes x' @ str_bytes y'" using 3(5) c by (simp add: ys hash_pair_def)
  then have "x = x'" "y = y'" using 3(4) by (simp_all add: ys inj_str_bytes)
  moreover have "xs = ys'" using 3(1) [of ys'] 3(3-5) c by (simp add: ys)
  ultimately show ?case by (simp add: ys)
qed simp

lemma reduce_layers_inj:
  "\<not> collides H (reduce_inputs H xs) (reduce_inputs H ys) \<Longrightarrow> digest64 H \<Longrightarrow> length xs = length ys \<Longrightarrow>
   \<forall>x \<in> set xs \<union> set ys. length x = 64 \<Longrightarrow> reduce_layers H xs = reduce_layers H ys \<Longrightarrow> xs = ys"
proof (induction H xs arbitrary: ys rule: reduce_layers.induct)
  case (1 H xs)
  show ?case
  proof (cases "1 < length xs")
    case True
    then have True': "1 < length ys" using 1(4) by simp
    have c: "\<not> collides H (layer_inputs xs @ reduce_inputs H (next_layer H xs)) (layer_inputs ys @ reduce_inputs H (next_layer H ys))"
      using 1(2) True True' by (subst (asm) (1 2) reduce_inputs.simps) simp
    have "reduce_layers H (next_layer H xs) = reduce_layers H (next_layer H ys)"
      using 1(6) True True' by (subst (asm) (1 2) reduce_layers.simps) simp
    then have "next_layer H xs = next_layer H ys"
      using 1(1) [OF True _ 1(3), of "next_layer H ys"] collides_parts(1) [OF c] 1(3,4) digest64_next
      by (fastforce simp: length_next_layer)
    then show ?thesis using next_layer_inj collides_parts(1) [OF c] 1(4,5) by blast
  next
    case False
    with 1(4,6) show ?thesis by (subst (asm) (1 2) reduce_layers.simps) simp
  qed
qed

lemma length_reduce_layers: "xs \<noteq> [] \<Longrightarrow> length (reduce_layers H xs) = 1"
proof (induction H xs rule: reduce_layers.induct)
  case (1 H xs)
  show ?case
  proof (cases "1 < length xs")
    case True
    then have "next_layer H xs \<noteq> []" using length_next_layer [of H xs] by auto
    then show ?thesis using 1(1) True by (subst reduce_layers.simps) simp
  next
    case False
    then show ?thesis using 1(2) by (subst reduce_layers.simps) (cases xs; simp)
  qed
qed

lemma root_singleton: "xs \<noteq> [] \<Longrightarrow> reduce_layers H (map (hash_string H) xs) = [compute_merkle_root H xs]"
  using length_reduce_layers [of "map (hash_string H) xs" H]
  by (auto simp: compute_merkle_root_def length_Suc_conv)

lemma next_layer_duplicate: "odd (length xs) \<Longrightarrow> next_layer H (xs @ [last xs]) = next_layer H xs"
proof (induction H xs rule: next_layer.induct)
  case (3 H x y xs)
  then have "xs \<noteq> []" by auto
  with 3 show ?case by simp
qed simp_all

section \<open>Properties\<close>

text \<open>
  C33: the root binds its inputs. If \<^verbatim>\<open>verify_merkle_root\<close> accepts a different list of the same length for
  the root of a list, then two different byte strings with one digest stand among the strings that the
  two computations hash; so a tampered list of the original length is rejected unless it comes with a
  collision of SHA-256, and the collision can be read off.
\<close>

theorem merkle_root_binds_inputs:
  assumes "digest64 H" "length xs = length ys" "xs \<noteq> ys" "verify_merkle_root H ys (compute_merkle_root H xs)"
  shows "\<exists>a \<in> set (root_inputs H xs). \<exists>b \<in> set (root_inputs H ys). a \<noteq> b \<and> H a = H b"
proof (rule ccontr)
  assume "\<not> ?thesis"
  then have c: "\<not> collides H (root_inputs H xs) (root_inputs H ys)" by (simp add: collides_def)
  have ne: "xs \<noteq> []" "ys \<noteq> []" using assms(2,3) by auto
  note c' = collides_parts(1) [OF c [unfolded root_inputs_def if_not_P [OF ne(1)] if_not_P [OF ne(2)]]]
  have "reduce_layers H (map (hash_string H) xs) = reduce_layers H (map (hash_string H) ys)"
    using assms(4) unfolding root_singleton [OF ne(1)] root_singleton [OF ne(2)] by (simp add: verify_merkle_root_def)
  moreover have "\<forall>x \<in> set (map (hash_string H) xs) \<union> set (map (hash_string H) ys). length x = 64"
    using assms(1) by auto
  ultimately have "map (hash_string H) xs = map (hash_string H) ys"
    using assms(2) reduce_layers_inj [OF conjunct2 [OF c'] assms(1)] by simp
  moreover have "H (str_bytes x) = H (str_bytes y) \<longleftrightarrow> x = y" if "x \<in> set xs" "y \<in> set ys" for x y
    using hash_inj [OF conjunct1 [OF c'], of "str_bytes x" "str_bytes y"] that by (simp add: inj_str_bytes)
  ultimately have "xs = ys"
    using assms(2) by (intro nth_equalityI) (auto simp: hash_string_def list_eq_iff_nth_eq)
  with assms(3) show False by simp
qed

text \<open>A digest that keeps the first 64 bytes of its input, used to show that the hypotheses can hold.\<close>

definition prefix_hash :: hash where
  "prefix_hash bs = map (\<lambda>b. char_of (unat b)) (take 64 (bs @ replicate 64 0))"

lemma prefix_hash_digest64: "digest64 prefix_hash"
  by (auto simp: digest64_def prefix_hash_def min_def)

theorem merkle_root_binds_inputs_witness:
  "let xs = [replicate 65 CHR ''a'']; ys = [replicate 64 CHR ''a'' @ ''b'']
   in \<exists>a \<in> set (root_inputs prefix_hash xs). \<exists>b \<in> set (root_inputs prefix_hash ys). a \<noteq> b \<and> prefix_hash a = prefix_hash b"
  unfolding Let_def
proof (rule merkle_root_binds_inputs [OF prefix_hash_digest64])
  let ?x = "replicate 65 CHR ''a''" and ?y = "replicate 64 CHR ''a'' @ ''b''"
  show "length [?x] = length [?y]" "[?x] \<noteq> [?y]" by (simp_all add: numeral_eq_Suc)
  have "take 64 (str_bytes ?x @ replicate 64 0) = take 64 (str_bytes ?y @ replicate 64 0)"
    by (simp add: str_bytes_def)
  then show "verify_merkle_root prefix_hash [?y] (compute_merkle_root prefix_hash [?x])"
    by (simp add: verify_merkle_root_def compute_merkle_root_def reduce_layers.simps hash_string_def prefix_hash_def)
qed

text \<open>
  Without fixing the length the root does not bind the list. Repeating the last input of any list
  of odd length above one keeps the root, and so does replacing two inputs by the single text of
  their two digests; \<^verbatim>\<open>verify_merkle_root\<close> accepts both for every hash function.
\<close>

theorem merkle_root_accepts_other_lists:
  "(odd (length xs) \<and> 1 < length xs \<longrightarrow> verify_merkle_root H (xs @ [last xs]) (compute_merkle_root H xs)) \<and>
   verify_merkle_root H [hash_string H a @ hash_string H b] (compute_merkle_root H [a, b])"
proof (intro conjI impI)
  assume xs: "odd (length xs) \<and> 1 < length xs"
  then have ne: "xs \<noteq> []" by auto
  let ?l = "map (hash_string H) xs"
  have "next_layer H (map (hash_string H) (xs @ [last xs])) = next_layer H ?l"
    using next_layer_duplicate [of ?l H] xs ne by (simp add: last_map)
  then have "reduce_layers H (map (hash_string H) (xs @ [last xs])) = reduce_layers H ?l"
    using xs ne by (subst (1 2) reduce_layers.simps) simp
  then show "verify_merkle_root H (xs @ [last xs]) (compute_merkle_root H xs)"
    using ne by (simp add: verify_merkle_root_def compute_merkle_root_def)
next
  show "verify_merkle_root H [hash_string H a @ hash_string H b] (compute_merkle_root H [a, b])"
    by (simp add: verify_merkle_root_def compute_merkle_root_def reduce_layers.simps hash_pair_def hash_string_def)
qed

theorem merkle_root_accepts_other_lists_witness:
  "verify_merkle_root prefix_hash [''a'', ''b'', ''c'', ''c''] (compute_merkle_root prefix_hash [''a'', ''b'', ''c''])"
  using merkle_root_accepts_other_lists [of "[''a'', ''b'', ''c'']" prefix_hash] by simp

end
