(* ===== verification/Audit_Chain.thy ===== *)
theory Audit_Chain
  imports Merkle "HOL-Library.Sublist"
begin

text \<open>
  The execution log of \<^verbatim>\<open>seccore/src/audit.rs\<close>: a chain of blocks in which the root of every block hashes
  the root of the one before. A record is written with status \<^verbatim>\<open>Intent\<close> before a command runs and is
  completed afterwards; only the last block may change. SHA-256 is the parameter \<open>H\<close> of theory
  \<open>Merkle\<close>, the clock is the argument \<open>now\<close>, and the event bus is the list of notifications sent.
\<close>

section \<open>Types\<close>

datatype audit_status = Intent | Executed | Failed

fun status_code :: "audit_status \<Rightarrow> byte" where
  "status_code Intent = 0"
| "status_code Executed = 1"
| "status_code Failed = 2"

fun status_name :: "audit_status \<Rightarrow> string" where
  "status_name Intent = ''intent''"
| "status_name Executed = ''executed''"
| "status_name Failed = ''failed''"

datatype decision_step_type = Proposal | AsaAudit | Debate | Confession | Execution | ResultStep

fun step_code :: "decision_step_type \<Rightarrow> byte" where
  "step_code Proposal = 0"
| "step_code AsaAudit = 1"
| "step_code Debate = 2"
| "step_code Confession = 3"
| "step_code Execution = 4"
| "step_code ResultStep = 5"

record decision_step =
  step_type :: decision_step_type
  step_timestamp :: int
  step_hash :: string
  outcome :: string

record audit_block =
  index :: nat
  timestamp :: int
  command_hash :: string
  result_hash :: string
  prev_hash :: string
  merkle_root :: string
  status :: audit_status
  decision_chain :: "decision_step list"

record audit_chain =
  blocks :: "audit_block list"
  current_hash :: string
  event_bus :: "(string \<times> string) list option"

datatype risk_level = LowRisk | MediumRisk | HighRisk | CriticalRisk | UnknownRisk

text \<open>The environment is a hash map in the code; here it is the list of its entries in iteration order.\<close>

record command_spec =
  program :: string
  allowed_args :: "string list"
  env_whitelist :: "(string \<times> string) list"
  spec_risk_level :: risk_level
  risk_score :: nat

record execution_result =
  exit_code :: int
  stdout :: string
  stderr :: string
  duration_nanos :: nat
  audit_hash :: string

datatype seccore_error = AuditError string

section \<open>Digests\<close>

text \<open>\<^verbatim>\<open>to_le_bytes\<close> of a signed integer.\<close>

definition le_int :: "nat \<Rightarrow> int \<Rightarrow> bytes" where
  "le_int n v = le_bytes n (nat (v mod 256 ^ n))"

definition hash_command :: "hash \<Rightarrow> command_spec \<Rightarrow> string" where
  "hash_command H c =
     H (str_bytes (program c) @ concat (map (\<lambda>a. 0 # str_bytes a) (allowed_args c)) @
        concat (map (\<lambda>(k, v). 0 # str_bytes k @ str_bytes ''='' @ str_bytes v) (env_whitelist c)))"

definition hash_result :: "hash \<Rightarrow> execution_result \<Rightarrow> string" where
  "hash_result H r =
     H (le_int 4 (exit_code r) @ str_bytes (stdout r) @ str_bytes (stderr r) @ le_bytes 16 (duration_nanos r))"

definition block_bytes :: "nat \<Rightarrow> int \<Rightarrow> string \<Rightarrow> string \<Rightarrow> string \<Rightarrow> audit_status \<Rightarrow> string \<Rightarrow> bytes" where
  "block_bytes i ts ch rh ph st dh =
     le_bytes 8 i @ le_int 8 ts @ str_bytes ch @ str_bytes rh @ str_bytes ph @ [status_code st] @ str_bytes dh"

definition compute_block_hash :: "hash \<Rightarrow> nat \<Rightarrow> int \<Rightarrow> string \<Rightarrow> string \<Rightarrow> string \<Rightarrow> audit_status \<Rightarrow> string \<Rightarrow> string" where
  "compute_block_hash H i ts ch rh ph st dh = H (block_bytes i ts ch rh ph st dh)"

definition step_bytes :: "decision_step \<Rightarrow> bytes" where
  "step_bytes s =
     [step_code (step_type s)] @ le_int 8 (step_timestamp s) @ str_bytes (step_hash s) @ str_bytes (outcome s) @ [0]"

definition hash_decision_chain :: "hash \<Rightarrow> decision_step list \<Rightarrow> string" where
  "hash_decision_chain H steps = H (concat (map step_bytes steps))"

definition hash_simple_string :: "hash \<Rightarrow> string \<Rightarrow> string" where
  "hash_simple_string H s = H (str_bytes s)"

definition root_of :: "hash \<Rightarrow> audit_block \<Rightarrow> string" where
  "root_of H b =
     compute_block_hash H (index b) (timestamp b) (command_hash b) (result_hash b) (prev_hash b) (status b)
       (hash_decision_chain H (decision_chain b))"

section \<open>The chain\<close>

definition GENESIS :: string where
  "GENESIS = replicate 64 CHR ''0''"

definition audit_new :: audit_chain where
  "audit_new = \<lparr>blocks = [], current_hash = GENESIS, event_bus = None\<rparr>"

definition with_event_bus :: "audit_chain \<Rightarrow> audit_chain" where
  "with_event_bus ch = ch\<lparr>event_bus := Some []\<rparr>"

definition append_intent_with_chain ::
  "hash \<Rightarrow> audit_chain \<Rightarrow> command_spec \<Rightarrow> decision_step list \<Rightarrow> int \<Rightarrow> audit_chain \<times> (seccore_error, nat) result" where
  "append_intent_with_chain H ch cmd steps now =
     (let i = length (blocks ch);
          b0 = \<lparr>index = i, timestamp = now, command_hash = hash_command H cmd, result_hash = [],
                prev_hash = current_hash ch, merkle_root = [], status = Intent, decision_chain = steps\<rparr>;
          root = root_of H b0
      in (ch\<lparr>current_hash := root, blocks := blocks ch @ [b0\<lparr>merkle_root := root\<rparr>]\<rparr>, Inr i))"

definition append_intent ::
  "hash \<Rightarrow> audit_chain \<Rightarrow> command_spec \<Rightarrow> int \<Rightarrow> audit_chain \<times> (seccore_error, nat) result" where
  "append_intent H ch cmd now = append_intent_with_chain H ch cmd [] now"

text \<open>The tail block rewritten by \<open>f\<close>, its root and the chain's current hash recomputed.\<close>

definition rewrite_tail :: "hash \<Rightarrow> nat \<Rightarrow> (audit_block \<Rightarrow> audit_block) \<Rightarrow> audit_chain \<Rightarrow> audit_chain" where
  "rewrite_tail H i f ch =
     (let b = f (blocks ch ! i); root = root_of H b
      in ch\<lparr>current_hash := root, blocks := (blocks ch)[i := b\<lparr>merkle_root := root\<rparr>]\<rparr>)"

definition extend_decision_chain ::
  "hash \<Rightarrow> audit_chain \<Rightarrow> nat \<Rightarrow> decision_step list \<Rightarrow> audit_chain \<times> (seccore_error, unit) result" where
  "extend_decision_chain H ch i steps =
     (if blocks ch = [] then (ch, Inl (AuditError ''empty chain''))
      else if i \<noteq> length (blocks ch) - 1 then (ch, Inl (AuditError ''not the tail block''))
      else (rewrite_tail H i (\<lambda>b. b\<lparr>decision_chain := decision_chain b @ steps\<rparr>) ch, Inr ()))"

definition replay_decision_chain :: "audit_chain \<Rightarrow> nat \<Rightarrow> (seccore_error, decision_step list) result" where
  "replay_decision_chain ch i =
     (if length (blocks ch) \<le> i then Inl (AuditError ''out of range'') else Inr (decision_chain (blocks ch ! i)))"

definition notify_audit_logged :: "string \<Rightarrow> audit_status \<Rightarrow> audit_chain \<Rightarrow> audit_chain" where
  "notify_audit_logged h st ch =
     (case event_bus ch of None \<Rightarrow> ch | Some es \<Rightarrow> ch\<lparr>event_bus := Some (es @ [(h, status_name st)])\<rparr>)"

definition update_status ::
  "hash \<Rightarrow> audit_chain \<Rightarrow> nat \<Rightarrow> audit_status \<Rightarrow> execution_result option \<Rightarrow> audit_chain \<times> (seccore_error, unit) result" where
  "update_status H ch i st res =
     (if blocks ch = [] then (ch, Inl (AuditError ''empty chain''))
      else if i \<noteq> length (blocks ch) - 1 then (ch, Inl (AuditError ''not the tail block''))
      else (let ch1 = rewrite_tail H i
                  (\<lambda>b. b\<lparr>status := st, result_hash := (case res of Some r \<Rightarrow> hash_result H r | None \<Rightarrow> result_hash b)\<rparr>) ch
            in (notify_audit_logged (current_hash ch1) st ch1, Inr ())))"

definition audit_append ::
  "hash \<Rightarrow> audit_chain \<Rightarrow> command_spec \<Rightarrow> execution_result \<Rightarrow> int \<Rightarrow> audit_chain \<times> (seccore_error, unit) result" where
  "audit_append H ch cmd res now =
     (case append_intent H ch cmd now of
        (ch1, Inl e) \<Rightarrow> (ch1, Inl e)
      | (ch1, Inr i) \<Rightarrow> update_status H ch1 i Executed (Some res))"

fun verify_blocks :: "hash \<Rightarrow> nat \<Rightarrow> string \<Rightarrow> audit_block list \<Rightarrow> string option" where
  "verify_blocks H i prev [] = Some prev"
| "verify_blocks H i prev (b # bs) =
     (if index b \<noteq> i then None
      else if prev_hash b \<noteq> prev then None
      else if merkle_root b \<noteq> root_of H b then None
      else verify_blocks H (i + 1) (merkle_root b) bs)"

definition verify :: "hash \<Rightarrow> audit_chain \<Rightarrow> bool" where
  "verify H ch =
     (case verify_blocks H 0 GENESIS (blocks ch) of
        None \<Rightarrow> False
      | Some prev \<Rightarrow> current_hash ch = prev)"

section \<open>The builder of decision chains\<close>

fun show_nat :: "nat \<Rightarrow> string" where
  "show_nat n = (if n < 10 then [char_of (48 + n)] else show_nat (n div 10) @ [char_of (48 + n mod 10)])"

definition show_int :: "int \<Rightarrow> string" where
  "show_int i = (if i < 0 then ''-'' @ show_nat (nat (- i)) else show_nat (nat i))"

type_synonym chain_builder = "decision_step list"

definition add_step :: "decision_step_type \<Rightarrow> int \<Rightarrow> string \<Rightarrow> string \<Rightarrow> chain_builder \<Rightarrow> chain_builder" where
  "add_step ty now h out b = b @ [\<lparr>step_type = ty, step_timestamp = now, step_hash = h, outcome = out\<rparr>]"

definition add_proposal :: "hash \<Rightarrow> command_spec \<Rightarrow> int \<Rightarrow> chain_builder \<Rightarrow> chain_builder" where
  "add_proposal H spec now b = add_step Proposal now (hash_command H spec) (''risk_score='' @ show_nat (risk_score spec)) b"

definition add_debate :: "hash \<Rightarrow> bool \<Rightarrow> int \<Rightarrow> chain_builder \<Rightarrow> chain_builder" where
  "add_debate H approved now b =
     add_step Debate now (hash_simple_string H (''debate:'' @ (if approved then ''true'' else ''false'')))
       (if approved then ''approved'' else ''rejected'') b"

definition add_confession :: "hash \<Rightarrow> string \<Rightarrow> int \<Rightarrow> chain_builder \<Rightarrow> chain_builder" where
  "add_confession H intent now b = add_step Confession now (hash_simple_string H intent) intent b"

definition add_execution :: "hash \<Rightarrow> int \<Rightarrow> chain_builder \<Rightarrow> chain_builder" where
  "add_execution H now b = add_step Execution now (hash_simple_string H ''execution_started'') ''execution_started'' b"

definition add_result :: "hash \<Rightarrow> int \<Rightarrow> int \<Rightarrow> chain_builder \<Rightarrow> chain_builder" where
  "add_result H code now b =
     add_step ResultStep now (hash_simple_string H (''exit_code:'' @ show_int code)) (''exit_code='' @ show_int code) b"

definition add_rejected_result :: "hash \<Rightarrow> string \<Rightarrow> int \<Rightarrow> chain_builder \<Rightarrow> chain_builder" where
  "add_rejected_result H reason now b =
     add_step ResultStep now (hash_simple_string H (''rejected:'' @ reason)) (''rejected:'' @ reason) b"

definition build :: "chain_builder \<Rightarrow> chain_builder \<times> decision_step list" where
  "build b = ([], b)"

section \<open>The operations keep the chain verified\<close>

datatype audit_op =
    AIntent command_spec "decision_step list" int
  | AExtend nat "decision_step list"
  | AUpdate nat audit_status "execution_result option"
  | AAppend command_spec execution_result int

fun audit_op_step :: "hash \<Rightarrow> audit_chain \<Rightarrow> audit_op \<Rightarrow> audit_chain" where
  "audit_op_step H ch (AIntent cmd steps now) = fst (append_intent_with_chain H ch cmd steps now)"
| "audit_op_step H ch (AExtend i steps) = fst (extend_decision_chain H ch i steps)"
| "audit_op_step H ch (AUpdate i st res) = fst (update_status H ch i st res)"
| "audit_op_step H ch (AAppend cmd res now) = fst (audit_append H ch cmd res now)"

inductive audit_step :: "hash \<Rightarrow> audit_chain \<Rightarrow> audit_chain \<Rightarrow> bool" for H where
  step_audit: "audit_step H ch (audit_op_step H ch x)"

inductive_cases audit_stepE [elim!]: "audit_step H ch ch'"

definition audit_init :: "audit_chain \<Rightarrow> bool" where
  "audit_init ch \<longleftrightarrow> ch = audit_new \<or> ch = with_event_bus audit_new"

lemma verify_blocks_append:
  "verify_blocks H i prev (xs @ ys) =
     (case verify_blocks H i prev xs of None \<Rightarrow> None | Some p \<Rightarrow> verify_blocks H (i + length xs) p ys)"
  by (induction xs arbitrary: i prev) (simp_all add: add.commute add.left_commute split: option.splits)

lemma root_of_root [simp]: "root_of H (b\<lparr>merkle_root := r\<rparr>) = root_of H b"
  by (simp add: root_of_def)

lemma verify_notify [simp]: "verify H (notify_audit_logged h st ch) = verify H ch"
  "blocks (notify_audit_logged h st ch) = blocks ch"
  by (auto simp: notify_audit_logged_def verify_def split: option.splits)

lemma verify_intent: "verify H ch \<Longrightarrow> verify H (fst (append_intent_with_chain H ch cmd steps now))"
  by (auto simp: verify_def append_intent_with_chain_def Let_def verify_blocks_append root_of_def split: option.splits)

text \<open>Any rewriting of the tail that keeps its index and its link to the block before keeps the chain verified.\<close>

lemma verify_rewrite_tail:
  assumes "verify H ch" "blocks ch \<noteq> []" "i = length (blocks ch) - 1" "\<And>b. index (f b) = index b \<and> prev_hash (f b) = prev_hash b"
  shows "verify H (rewrite_tail H i f ch)"
proof -
  obtain bs b where b: "blocks ch = bs @ [b]" using assms(2) by (metis append_butlast_last_id)
  then have "(blocks ch)[i := x] = bs @ [x]" "blocks ch ! i = b" for x
    using assms(3) by (simp_all add: list_update_append nth_append)
  with assms(1,4) b show ?thesis
    by (auto simp: verify_def rewrite_tail_def Let_def verify_blocks_append split: option.splits if_splits)
qed

lemma verify_extend: "verify H ch \<Longrightarrow> verify H (fst (extend_decision_chain H ch i steps))"
  by (simp add: extend_decision_chain_def verify_rewrite_tail)

lemma verify_update: "verify H ch \<Longrightarrow> verify H (fst (update_status H ch i st res))"
  by (simp add: update_status_def Let_def verify_rewrite_tail)

lemma verify_op: "verify H ch \<Longrightarrow> verify H (audit_op_step H ch x)"
proof (cases x)
  case (AAppend cmd res now)
  assume v: "verify H ch"
  obtain ch1 i where "append_intent H ch cmd now = (ch1, Inr i)" "verify H ch1"
    using verify_intent [OF v, of cmd "[]" now] by (simp add: append_intent_def append_intent_with_chain_def Let_def)
  then show ?thesis using AAppend verify_update [of H ch1] by (simp add: audit_append_def)
qed (simp_all add: verify_intent verify_extend verify_update)

interpretation audit_system: invariant_system audit_init "audit_step H" "verify H" for H
proof
  show "verify H ch" if "audit_init ch" for ch
    using that by (auto simp: audit_init_def audit_new_def with_event_bus_def verify_def)
qed (auto intro: verify_op)

lemma run_audit_steps: "(audit_step H)\<^sup>*\<^sup>* ch (foldl (audit_op_step H) ch xs)"
  by (induction xs arbitrary: ch) (auto intro: converse_rtranclp_into_rtranclp step_audit)

section \<open>Only the tail block changes\<close>

lemma rewrite_tail_prefix:
  "i = length (blocks ch) - 1 \<Longrightarrow> n < length (blocks ch) \<Longrightarrow>
   take n (blocks (rewrite_tail H i f ch)) = take n (blocks ch) \<and> length (blocks (rewrite_tail H i f ch)) = length (blocks ch)"
  by (simp add: rewrite_tail_def Let_def)

lemma op_keeps_history:
  assumes "n < length (blocks ch)"
  shows "take n (blocks (audit_op_step H ch x)) = take n (blocks ch) \<and> length (blocks ch) \<le> length (blocks (audit_op_step H ch x))"
proof (cases x)
  case (AUpdate i st res)
  with assms show ?thesis by (simp add: update_status_def Let_def rewrite_tail_prefix)
next
  case (AExtend i steps)
  with assms show ?thesis by (simp add: extend_decision_chain_def rewrite_tail_prefix)
next
  case (AAppend cmd res now)
  with assms show ?thesis
    by (auto simp: audit_append_def append_intent_def append_intent_with_chain_def update_status_def Let_def
        rewrite_tail_def)
qed (use assms in \<open>simp add: append_intent_with_chain_def Let_def\<close>)

lemma run_keeps_history:
  "n < length (blocks ch) \<Longrightarrow>
   take n (blocks (foldl (audit_op_step H) ch xs)) = take n (blocks ch) \<and> length (blocks ch) \<le> length (blocks (foldl (audit_op_step H) ch xs))"
proof (induction xs arbitrary: ch)
  case (Cons x xs)
  have "n < length (blocks (audit_op_step H ch x))" using op_keeps_history [OF Cons.prems] by (metis less_le_trans Cons.prems)
  from Cons.IH [OF this] op_keeps_history [OF Cons.prems, of H x] show ?case by simp
qed simp

section \<open>What the digests determine\<close>

lemma le_bytes_inj: "v < 256 ^ n \<Longrightarrow> w < 256 ^ n \<Longrightarrow> le_bytes n v = le_bytes n w \<longleftrightarrow> v = w"
  using from_le_le_bytes by metis

definition i64_range :: "int \<Rightarrow> bool" where
  "i64_range v \<longleftrightarrow> - (2 ^ 63) \<le> v \<and> v < 2 ^ 63"

lemma le_int_inj:
  assumes "i64_range v" "i64_range w"
  shows "le_int 8 v = le_int 8 w \<longleftrightarrow> v = w"
proof -
  have "nat (v mod 256 ^ 8) < 256 ^ 8" for v :: int by (simp add: nat_less_iff)
  then have "le_int 8 v = le_int 8 w \<longleftrightarrow> v mod 256 ^ 8 = w mod 256 ^ 8"
    by (simp add: le_int_def le_bytes_inj eq_nat_nat_iff)
  also have "\<dots> \<longleftrightarrow> v = w"
  proof
    assume "v mod 256 ^ 8 = w mod 256 ^ 8"
    then have "256 ^ 8 dvd v - w" by (simp add: mod_eq_dvd_iff)
    moreover have "\<bar>v - w\<bar> < 256 ^ 8" using assms by (simp add: i64_range_def abs_less_iff)
    ultimately show "v = w" using dvd_imp_le_int [of "v - w"] by (metis abs_ge_self abs_of_nonneg eq_iff_diff_eq_0 not_less zero_le_numeral zero_le_power)
  qed simp
  finally show ?thesis .
qed

lemma length_le_int [simp]: "length (le_int n v) = n"
  by (simp add: le_int_def)

lemma code_inj: "status_code a = status_code b \<longleftrightarrow> a = b" "step_code x = step_code y \<longleftrightarrow> x = y"
  by (cases a; cases b; simp) (cases x; cases y; simp)

definition step_shaped :: "decision_step \<Rightarrow> bool" where
  "step_shaped s \<longleftrightarrow> i64_range (step_timestamp s) \<and> length (step_hash s) = 64 \<and> CHR 0x00 \<notin> set (outcome s)"

definition block_shaped :: "audit_block \<Rightarrow> bool" where
  "block_shaped b \<longleftrightarrow>
     index b < 2 ^ 64 \<and> i64_range (timestamp b) \<and> length (command_hash b) = 64 \<and> (\<forall>s \<in> set (decision_chain b). step_shaped s)"

lemma zero_in_str_bytes: "0 \<in> set (str_bytes s) \<longleftrightarrow> CHR 0x00 \<in> set s"
proof -
  have "(of_nat (of_char c) :: byte) = 0 \<longleftrightarrow> c = CHR 0x00" for c
  proof
    assume "(of_nat (of_char c) :: byte) = 0"
    then have "unat (of_nat (of_char c) :: byte) = 0" by simp
    then have "(of_char c :: nat) = of_char CHR 0x00" by (simp add: unat_of_nat)
    then show "c = CHR 0x00" by (rule of_char_eq_iff [THEN iffD1])
  qed simp
  then show ?thesis by (auto simp: str_bytes_def image_iff)
qed

lemma zero_terminated:
  "0 \<notin> set xs \<Longrightarrow> 0 \<notin> set ys \<Longrightarrow> xs @ (0 :: byte) # as = ys @ 0 # bs \<Longrightarrow> xs = ys \<and> as = bs"
proof (induction xs arbitrary: ys)
  case Nil
  then show ?case by (cases ys) auto
next
  case (Cons x xs)
  then show ?case by (cases ys) auto
qed

lemma steps_inj:
  "\<forall>s \<in> set xs. step_shaped s \<Longrightarrow> \<forall>s \<in> set ys. step_shaped s \<Longrightarrow>
   concat (map step_bytes xs) = concat (map step_bytes ys) \<Longrightarrow> xs = ys"
proof (induction xs arbitrary: ys)
  case Nil
  then show ?case by (cases ys) (auto simp: step_bytes_def)
next
  case (Cons x xs)
  then obtain y ys' where ys: "ys = y # ys'" by (cases ys) (auto simp: step_bytes_def)
  have sh: "step_shaped x" "step_shaped y" using Cons.prems ys by simp_all
  have eq: "step_code (step_type x) = step_code (step_type y)" "le_int 8 (step_timestamp x) = le_int 8 (step_timestamp y)"
    "str_bytes (step_hash x) = str_bytes (step_hash y)"
    "str_bytes (outcome x) @ 0 # concat (map step_bytes xs) = str_bytes (outcome y) @ 0 # concat (map step_bytes ys')"
    using Cons.prems(3) sh by (simp_all add: ys step_bytes_def [of x] step_bytes_def [of y] step_shaped_def)
  have "str_bytes (outcome x) = str_bytes (outcome y) \<and> concat (map step_bytes xs) = concat (map step_bytes ys')"
    using eq(4) sh by (intro zero_terminated) (simp_all add: zero_in_str_bytes step_shaped_def)
  with eq(1-3) sh Cons.IH [of ys'] Cons.prems ys have "x = y" "xs = ys'"
    by (auto simp: code_inj le_int_inj step_shaped_def inj_str_bytes intro: decision_step.equality)
  then show ?case by (simp add: ys)
qed

text \<open>The byte strings that verifying a block, and a chain, passes to the hash function.\<close>

definition block_inputs :: "hash \<Rightarrow> audit_block \<Rightarrow> bytes list" where
  "block_inputs H b =
     [concat (map step_bytes (decision_chain b)),
      block_bytes (index b) (timestamp b) (command_hash b) (result_hash b) (prev_hash b) (status b)
        (hash_decision_chain H (decision_chain b))]"

definition chain_inputs :: "hash \<Rightarrow> audit_block list \<Rightarrow> bytes list" where
  "chain_inputs H bs = concat (map (block_inputs H) bs)"

lemma block_inj:
  assumes c: "\<not> collides H (block_inputs H a) (block_inputs H b)" and d: "digest64 H" and sh: "block_shaped a" "block_shaped b"
    and p: "length (prev_hash a) = 64" "length (prev_hash b) = 64"
    and r: "root_of H a = root_of H b" "merkle_root a = merkle_root b"
  shows "a = b"
proof -
  let ?da = "hash_decision_chain H (decision_chain a)" and ?db = "hash_decision_chain H (decision_chain b)"
  have len: "length ?da = 64" "length ?db = 64" using d by (simp_all add: hash_decision_chain_def digest64_def)
  have eq: "block_bytes (index a) (timestamp a) (command_hash a) (result_hash a) (prev_hash a) (status a) ?da =
      block_bytes (index b) (timestamp b) (command_hash b) (result_hash b) (prev_hash b) (status b) ?db"
    using r(1) hash_inj [OF c] by (simp add: root_of_def compute_block_hash_def block_inputs_def)
  from arg_cong [OF eq, of length] have "length (result_hash a) = length (result_hash b)"
    using sh p len by (simp add: block_bytes_def block_shaped_def)
  with eq sh p len have f: "le_bytes 8 (index a) = le_bytes 8 (index b)" "le_int 8 (timestamp a) = le_int 8 (timestamp b)"
    "command_hash a = command_hash b" "result_hash a = result_hash b" "prev_hash a = prev_hash b" "status a = status b" "?da = ?db"
    by (simp_all add: block_bytes_def block_shaped_def inj_str_bytes code_inj)
  have "concat (map step_bytes (decision_chain a)) = concat (map step_bytes (decision_chain b))"
    using f(7) hash_inj [OF c] by (simp add: hash_decision_chain_def block_inputs_def)
  then have "decision_chain a = decision_chain b" using sh steps_inj by (simp add: block_shaped_def)
  moreover have "index a = index b" "timestamp a = timestamp b"
    using f(1,2) sh le_bytes_inj [of "index a" 8 "index b"] by (simp_all add: block_shaped_def le_int_inj)
  ultimately show ?thesis using f r(2) by (intro audit_block.equality) simp_all
qed

lemma verify_blocks_snoc:
  assumes "verify_blocks H 0 g (xs @ [x]) = Some p"
  shows "verify_blocks H 0 g xs = Some (prev_hash x)" "index x = length xs" "merkle_root x = p" "root_of H x = p"
  using assms by (auto simp: verify_blocks_append split: option.splits if_splits)

lemma verify_blocks_digest:
  "digest64 H \<Longrightarrow> length g = 64 \<Longrightarrow> verify_blocks H i g xs = Some p \<Longrightarrow> length p = 64"
  by (induction xs arbitrary: i g) (auto simp: root_of_def compute_block_hash_def digest64_def split: if_splits)

lemma verified_blocks_inj:
  assumes d: "digest64 H"
  shows "\<not> collides H (chain_inputs H xs) (chain_inputs H ys) \<Longrightarrow> verify_blocks H 0 GENESIS xs = Some p \<Longrightarrow> verify_blocks H 0 GENESIS ys = Some p \<Longrightarrow> length xs = length ys \<Longrightarrow>
    \<forall>b \<in> set xs \<union> set ys. block_shaped b \<Longrightarrow> xs = ys"
proof (induction xs arbitrary: ys p rule: rev_induct)
  case (snoc x xs)
  then obtain ys' y where ys: "ys = ys' @ [y]" by (metis append_butlast_last_id length_0_conv snoc_eq_iff_butlast)
  note x = verify_blocks_snoc [OF snoc.prems(2)]
  note y = verify_blocks_snoc [OF snoc.prems(3) [unfolded ys]]
  have c: "\<not> collides H (block_inputs H x) (block_inputs H y)" "\<not> collides H (chain_inputs H xs) (chain_inputs H ys')"
    using snoc.prems(1) by (auto simp: ys chain_inputs_def collides_def)
  have g: "length GENESIS = 64" by (simp add: GENESIS_def)
  have "x = y"
    using snoc.prems(5) x y verify_blocks_digest [OF d g x(1)] verify_blocks_digest [OF d g y(1)]
    by (intro block_inj [OF c(1) d]) (simp_all add: ys)
  moreover have "xs = ys'"
    using snoc.prems(4,5) x(1) y(1) \<open>x = y\<close> by (intro snoc.IH [OF c(2)]) (simp_all add: ys)
  ultimately show ?case by (simp add: ys)
qed simp

lemma verify_blocks_update:
  assumes "index b' = index b" "prev_hash b' = prev_hash b" "merkle_root b' = merkle_root b" "root_of H b' = root_of H b"
  shows "j < length bs \<Longrightarrow> bs ! j = b \<Longrightarrow> verify_blocks H i g (bs[j := b']) = verify_blocks H i g bs"
proof (induction bs arbitrary: i g j)
  case (Cons x bs)
  then show ?case using assms by (cases j) auto
qed simp

section \<open>Properties\<close>

text \<open>
  Whatever sequence of intents, completions, extensions and appends a chain receives, it always
  verifies, and the log is append-only: every block but the last one of a moment is unchanged for
  ever after.
\<close>

theorem audit_chain_always_verifies:
  assumes "audit_init ch" "ch1 = foldl (audit_op_step H) ch xs" "ch2 = foldl (audit_op_step H) ch1 ys"
  shows "verify H ch2 \<and> (\<forall>n < length (blocks ch1). take n (blocks ch2) = take n (blocks ch1))
         \<and> length (blocks ch1) \<le> length (blocks ch2)"
proof -
  have "verify H ch2"
    using audit_system.inv_reachable [OF assms(1) run_audit_steps [of H ch "xs @ ys"]] assms(2,3) by simp
  moreover have "length (blocks ch1) \<le> length (blocks ch2)"
    using run_keeps_history [of 0 ch1 H ys] assms(3) by (cases "blocks ch1") simp_all
  ultimately show ?thesis using run_keeps_history [of _ ch1 H ys] assms(3) by blast
qed

definition demo_spec :: command_spec where
  "demo_spec = \<lparr>program = ''echo'', allowed_args = [''hi''], env_whitelist = [], spec_risk_level = LowRisk, risk_score = 10\<rparr>"

theorem audit_chain_always_verifies_witness:
  "verify prefix_hash (foldl (audit_op_step prefix_hash) audit_new [AIntent demo_spec [] 5, AUpdate 0 Failed None, AIntent demo_spec [] 6])"
  using audit_chain_always_verifies [of audit_new _ prefix_hash "[AIntent demo_spec [] 5]" _ "[AUpdate 0 Failed None, AIntent demo_spec [] 6]"]
  by (simp add: audit_init_def)

text \<open>
  C14: tamper evidence. When two different non-empty chains both verify and end in the same hash, two
  different byte strings with one digest stand among those that verifying the two chains hashes,
  provided their blocks have the shape the code produces: a 64-digit command hash, 64-digit step
  hashes, outcomes without a NUL byte, and integers in range. So somebody who knows the genuine tail
  hash can only be shown another history together with a collision of SHA-256.
\<close>

theorem audit_tail_binds_history:
  assumes "digest64 H" "verify H ch" "verify H ch2" "current_hash ch = current_hash ch2"
    "blocks ch \<noteq> []" "blocks ch2 \<noteq> []" "\<forall>b \<in> set (blocks ch) \<union> set (blocks ch2). block_shaped b"
    "blocks ch \<noteq> blocks ch2"
  shows "\<exists>a \<in> set (chain_inputs H (blocks ch)). \<exists>b \<in> set (chain_inputs H (blocks ch2)). a \<noteq> b \<and> H a = H b"
proof (rule ccontr)
  assume "\<not> ?thesis"
  then have c: "\<not> collides H (chain_inputs H (blocks ch)) (chain_inputs H (blocks ch2))" by (simp add: collides_def)
  have v: "verify_blocks H 0 GENESIS (blocks ch) = Some (current_hash ch)"
    "verify_blocks H 0 GENESIS (blocks ch2) = Some (current_hash ch)"
    using assms(2-4) by (auto simp: verify_def split: option.splits)
  obtain xs x ys y where b: "blocks ch = xs @ [x]" "blocks ch2 = ys @ [y]"
    using assms(5,6) by (metis append_butlast_last_id)
  note x = verify_blocks_snoc [OF v(1) [unfolded b]] and y = verify_blocks_snoc [OF v(2) [unfolded b]]
  have g: "length GENESIS = 64" by (simp add: GENESIS_def)
  have "\<not> collides H (block_inputs H x) (block_inputs H y)"
    using c by (auto simp: b chain_inputs_def collides_def)
  then have "x = y"
    using assms(7) x y verify_blocks_digest [OF assms(1) g x(1)] verify_blocks_digest [OF assms(1) g y(1)]
    by (intro block_inj [OF _ assms(1)]) (simp_all add: b)
  then have "length (blocks ch) = length (blocks ch2)" using x(2) y(2) by (simp add: b)
  from verified_blocks_inj [OF assms(1) c v this assms(7)] assms(8) show False by simp
qed

theorem audit_tail_binds_history_witness:
  "let ch = fst (append_intent prefix_hash audit_new demo_spec 5); ch2 = fst (update_status prefix_hash ch 0 Executed None)
   in \<exists>a \<in> set (chain_inputs prefix_hash (blocks ch)). \<exists>b \<in> set (chain_inputs prefix_hash (blocks ch2)).
        a \<noteq> b \<and> prefix_hash a = prefix_hash b"
proof -
  define ch where "ch = fst (append_intent prefix_hash audit_new demo_spec 5)"
  define ch2 where "ch2 = fst (update_status prefix_hash ch 0 Executed None)"
  have h: "length (hash_command prefix_hash demo_spec) = 64" using prefix_hash_digest64 by (simp add: hash_command_def digest64_def)
  have v: "verify prefix_hash ch" "verify prefix_hash ch2"
    using verify_intent [of prefix_hash audit_new demo_spec "[]" 5] verify_update
    by (simp_all add: ch_def ch2_def append_intent_def) (simp_all add: verify_def audit_new_def)
  have "prefix_hash (block_bytes 0 5 (hash_command prefix_hash demo_spec) r g st d) =
      prefix_hash (block_bytes 0 5 (hash_command prefix_hash demo_spec) r' g' st' d')" for r g st d r' g' st' d'
    by (simp add: prefix_hash_def block_bytes_def h)
  then have "current_hash ch = current_hash ch2"
    by (simp add: ch_def ch2_def append_intent_def append_intent_with_chain_def update_status_def rewrite_tail_def
        notify_audit_logged_def audit_new_def Let_def root_of_def compute_block_hash_def)
  with v have "\<exists>a \<in> set (chain_inputs prefix_hash (blocks ch)). \<exists>b \<in> set (chain_inputs prefix_hash (blocks ch2)).
      a \<noteq> b \<and> prefix_hash a = prefix_hash b"
    by (rule audit_tail_binds_history [OF prefix_hash_digest64])
       (simp_all add: ch_def ch2_def append_intent_def append_intent_with_chain_def update_status_def rewrite_tail_def
        notify_audit_logged_def audit_new_def Let_def block_shaped_def i64_range_def h)
  then show ?thesis by (simp add: ch_def ch2_def Let_def)
qed

text \<open>Two adjacent digest fields with a part of the first moved to the second.\<close>

definition shift_fields :: "nat \<Rightarrow> audit_block \<Rightarrow> audit_block" where
  "shift_fields k b = b\<lparr>command_hash := take k (command_hash b), result_hash := drop k (command_hash b) @ result_hash b\<rparr>"

text \<open>
  The shape matters, because verification does not check it. Moving any tail of a block's command
  hash to the front of its result hash, in any block of any chain, never changes the verdict: the two
  fields are hashed without a separator or a length.
\<close>

theorem field_shift_is_undetected:
  assumes "i < length (blocks ch)"
  shows "verify H (ch\<lparr>blocks := (blocks ch)[i := shift_fields k (blocks ch ! i)]\<rparr>) = verify H ch"
proof -
  let ?b = "blocks ch ! i"
  have "str_bytes (take k (command_hash ?b)) @ str_bytes (drop k (command_hash ?b)) = str_bytes (command_hash ?b)"
    by (simp flip: str_bytes_simps(4))
  then have "root_of H (shift_fields k ?b) = root_of H ?b"
    by (simp add: root_of_def compute_block_hash_def block_bytes_def shift_fields_def flip: append_assoc)
  then show ?thesis
    using verify_blocks_update [of "shift_fields k ?b" ?b H i "blocks ch" 0 GENESIS] assms
    by (simp add: verify_def shift_fields_def split: option.splits)
qed

theorem field_shift_is_undetected_witness:
  "let ch = fst (append_intent prefix_hash audit_new demo_spec 5); t = shift_fields 0 (blocks ch ! 0)
   in verify prefix_hash (ch\<lparr>blocks := [t]\<rparr>) \<and> command_hash t = []"
proof -
  let ?ch = "fst (append_intent prefix_hash audit_new demo_spec 5)"
  have "verify prefix_hash ?ch"
    using verify_intent [of prefix_hash audit_new demo_spec "[]" 5] by (simp add: append_intent_def) (simp add: verify_def audit_new_def)
  moreover have "0 < length (blocks ?ch)" "length (blocks ?ch) = 1"
    by (simp_all add: append_intent_def append_intent_with_chain_def audit_new_def Let_def)
  moreover have "(blocks ?ch)[0 := t] = [t]" for t using calculation(3) by (cases "blocks ?ch") auto
  ultimately show ?thesis
    using field_shift_is_undetected [of 0 ?ch prefix_hash 0] by (simp add: Let_def shift_fields_def)
qed

text \<open>
  The command and result digests identify different executions for every hash function. An
  argument of the form \<open>K=V\<close> and an environment variable \<open>K\<close> with value \<open>V\<close> give one command hash, and output
  moved from the standard output to the standard error gives one result hash.
\<close>

theorem digests_confuse_executions:
  "hash_command H (c\<lparr>allowed_args := args @ [k @ ''='' @ v], env_whitelist := env\<rparr>) =
     hash_command H (c\<lparr>allowed_args := args, env_whitelist := (k, v) # env\<rparr>) \<and>
   hash_result H (r\<lparr>stdout := out @ moved, stderr := err\<rparr>) = hash_result H (r\<lparr>stdout := out, stderr := moved @ err\<rparr>)"
  by (simp add: hash_command_def hash_result_def)

end
