(* ===== verification/Exec_Policy.thy ===== *)
theory Exec_Policy
  imports Prelude
begin

text \<open>
  The command policy of \<^verbatim>\<open>seccore/src/execpolicy.rs\<close>: the rule engine with its glob matcher, the six
  permission modes, the decision statistics and the single-use elevation token. The Unicode tables
  behind \<^verbatim>\<open>to_lowercase\<close> enter as the function \<open>lc\<close>; a token reads the clock as the argument \<open>now\<close>.
\<close>

section \<open>Rules\<close>

datatype policy_action = Allow | Ask | Deny

fun permits :: "policy_action \<Rightarrow> bool" where
  "permits Allow = True"
| "permits Ask = True"
| "permits Deny = False"

record decision_stats =
  allow_count :: u64
  ask_count :: u64
  deny_count :: u64

definition stats_default :: decision_stats where
  "stats_default = \<lparr>allow_count = 0, ask_count = 0, deny_count = 0\<rparr>"

fun stats_record :: "policy_action \<Rightarrow> decision_stats \<Rightarrow> decision_stats" where
  "stats_record Allow s = s\<lparr>allow_count := allow_count s + 1\<rparr>"
| "stats_record Ask s = s\<lparr>ask_count := ask_count s + 1\<rparr>"
| "stats_record Deny s = s\<lparr>deny_count := deny_count s + 1\<rparr>"

definition stats_total :: "decision_stats \<Rightarrow> u64" where
  "stats_total s = allow_count s + ask_count s + deny_count s"

text \<open>
  The table of \<^verbatim>\<open>glob_match\<close>, one row per pattern character: \<open>dp_cells\<close> fills a row from the row above and the
  cell to the left, and cell \<open>0\<close> is the separate loop of the code.
\<close>

fun dp_cells :: "char \<Rightarrow> string \<Rightarrow> bool list \<Rightarrow> bool \<Rightarrow> bool list" where
  "dp_cells c (x # t) (diag # up # prev) left =
     (let v = (if c = CHR ''*'' then up \<or> left else if c = x then diag else False)
      in v # dp_cells c t (up # prev) v)"
| "dp_cells c t prev left = []"

definition dp_row :: "string \<Rightarrow> bool list \<Rightarrow> char \<Rightarrow> bool list" where
  "dp_row t prev c = (let z = (c = CHR ''*'' \<and> hd prev) in z # dp_cells c t prev z)"

definition glob_match :: "string \<Rightarrow> string \<Rightarrow> bool" where
  "glob_match p t = last (foldl (dp_row t) (True # replicate (length t) False) p)"

record rule_pattern =
  pat_program :: string
  args_glob :: string

definition rule_pattern_new :: "(string \<Rightarrow> string) \<Rightarrow> string \<Rightarrow> string \<Rightarrow> rule_pattern" where
  "rule_pattern_new lc prog glob = \<lparr>pat_program = lc prog, args_glob = glob\<rparr>"

fun join_args :: "string list \<Rightarrow> string" where
  "join_args [] = []"
| "join_args [a] = a"
| "join_args (a # b # as) = a @ '' '' @ join_args (b # as)"

definition ends_with :: "string \<Rightarrow> string \<Rightarrow> bool" where
  "ends_with s suf = (length suf \<le> length s \<and> drop (length s - length suf) s = suf)"

definition pattern_matches :: "(string \<Rightarrow> string) \<Rightarrow> rule_pattern \<Rightarrow> string \<Rightarrow> string list \<Rightarrow> bool" where
  "pattern_matches lc pat prog args =
     (if lc prog \<noteq> pat_program pat then False
      else (let joined = join_args args
            in if joined = [] \<and> ends_with (args_glob pat) '' *'' then True
               else glob_match (args_glob pat) joined))"

record exec_policy_rule =
  pattern :: rule_pattern
  rule_action :: policy_action

record exec_policy =
  rules :: "exec_policy_rule list"
  default_action :: policy_action
  stats :: decision_stats

definition exec_policy_new :: exec_policy where
  "exec_policy_new = \<lparr>rules = [], default_action = Deny, stats = stats_default\<rparr>"

definition add_rule :: "exec_policy \<Rightarrow> exec_policy_rule \<Rightarrow> exec_policy" where
  "add_rule pol r = pol\<lparr>rules := rules pol @ [r]\<rparr>"

fun first_match :: "(string \<Rightarrow> string) \<Rightarrow> exec_policy_rule list \<Rightarrow> policy_action \<Rightarrow> string \<Rightarrow> string list \<Rightarrow> policy_action" where
  "first_match lc [] d prog args = d"
| "first_match lc (r # rs) d prog args =
     (if pattern_matches lc (pattern r) prog args then rule_action r else first_match lc rs d prog args)"

definition evaluate_uncounted :: "(string \<Rightarrow> string) \<Rightarrow> exec_policy \<Rightarrow> string \<Rightarrow> string list \<Rightarrow> policy_action" where
  "evaluate_uncounted lc pol prog args = first_match lc (rules pol) (default_action pol) prog args"

definition record_decision :: "policy_action \<Rightarrow> exec_policy \<Rightarrow> exec_policy" where
  "record_decision a pol = pol\<lparr>stats := stats_record a (stats pol)\<rparr>"

definition evaluate :: "(string \<Rightarrow> string) \<Rightarrow> exec_policy \<Rightarrow> string \<Rightarrow> string list \<Rightarrow> exec_policy \<times> policy_action" where
  "evaluate lc pol prog args =
     (let a = evaluate_uncounted lc pol prog args in (record_decision a pol, a))"

definition has_matching_rule :: "(string \<Rightarrow> string) \<Rightarrow> exec_policy \<Rightarrow> string \<Rightarrow> string list \<Rightarrow> bool" where
  "has_matching_rule lc pol prog args = list_ex (\<lambda>r. pattern_matches lc (pattern r) prog args) (rules pol)"

section \<open>Modes\<close>

record scope_spec =
  writable_patterns :: "rule_pattern list"
  preapproved :: "rule_pattern list"
  isolated :: bool

datatype mode_policy = Plan | AcceptEdits | DefaultMode | DontAsk | Auto | BypassPermissions

datatype permission_mode = PmPlan | PmAcceptEdits | PmDefault | PmDontAsk | PmAuto | PmBypassPermissions

fun from_mode :: "permission_mode \<Rightarrow> mode_policy" where
  "from_mode PmPlan = Plan"
| "from_mode PmAcceptEdits = AcceptEdits"
| "from_mode PmDefault = DefaultMode"
| "from_mode PmDontAsk = DontAsk"
| "from_mode PmAuto = Auto"
| "from_mode PmBypassPermissions = BypassPermissions"

definition READONLY_PROGRAMS :: "string list" where
  "READONLY_PROGRAMS =
     [''ls'', ''cat'', ''pwd'', ''whoami'', ''date'', ''head'', ''tail'', ''wc'', ''grep'', ''find'']"

definition is_readonly_program :: "(string \<Rightarrow> string) \<Rightarrow> string \<Rightarrow> bool" where
  "is_readonly_program lc prog = (lc prog \<in> set READONLY_PROGRAMS)"

fun mode_evaluate ::
  "(string \<Rightarrow> string) \<Rightarrow> mode_policy \<Rightarrow> exec_policy \<Rightarrow> scope_spec \<Rightarrow> string \<Rightarrow> string list \<Rightarrow> bool \<Rightarrow> exec_policy \<times> policy_action" where
  "mode_evaluate lc Plan pol spec prog args is_container =
     (pol, if is_readonly_program lc prog then Allow else Deny)"
| "mode_evaluate lc AcceptEdits pol spec prog args is_container =
     (if list_ex (\<lambda>p. pattern_matches lc p prog args) (writable_patterns spec) then (pol, Allow)
      else evaluate lc pol prog args)"
| "mode_evaluate lc DefaultMode pol spec prog args is_container =
     (let (pol', a) = evaluate lc pol prog args
      in (pol', case a of
                  Ask \<Rightarrow> Ask
                | Deny \<Rightarrow> if has_matching_rule lc pol' prog args then Deny else Allow
                | Allow \<Rightarrow> Allow))"
| "mode_evaluate lc DontAsk pol spec prog args is_container =
     (pol, if list_ex (\<lambda>p. pattern_matches lc p prog args) (preapproved spec) then Allow else Deny)"
| "mode_evaluate lc Auto pol spec prog args is_container = (record_decision Deny pol, Deny)"
| "mode_evaluate lc BypassPermissions pol spec prog args is_container =
     (if isolated spec \<and> is_container then (pol, Allow) else evaluate lc pol prog args)"

section \<open>The single-use token\<close>

record single_use_token =
  token_id :: string
  expiry :: nat
  used :: bool

definition token_new :: "string \<Rightarrow> nat \<Rightarrow> nat \<Rightarrow> single_use_token" where
  "token_new tid ttl_ms now = \<lparr>token_id = tid, expiry = now + ttl_ms, used = False\<rparr>"

definition consume :: "single_use_token \<Rightarrow> nat \<Rightarrow> single_use_token \<times> bool" where
  "consume tok now =
     (if expiry tok \<le> now then (tok, False)
      else (tok\<lparr>used := True\<rparr>, \<not> used tok))"

definition is_valid :: "single_use_token \<Rightarrow> nat \<Rightarrow> bool" where
  "is_valid tok now = (\<not> used tok \<and> now < expiry tok)"

fun consume_all :: "single_use_token \<Rightarrow> nat list \<Rightarrow> bool list" where
  "consume_all tok [] = []"
| "consume_all tok (now # ts) = (let (tok', ok) = consume tok now in ok # consume_all tok' ts)"

section \<open>What a glob means\<close>

text \<open>The text splits into one piece per pattern character: anything for a star, the character itself otherwise.\<close>

definition glob_spec :: "string \<Rightarrow> string \<Rightarrow> bool" where
  "glob_spec p t \<longleftrightarrow> (\<exists>us. list_all2 (\<lambda>c u. c = CHR ''*'' \<or> u = [c]) p us \<and> concat us = t)"

lemma glob_spec_Nil: "glob_spec [] t \<longleftrightarrow> t = []"
  by (auto simp: glob_spec_def)

lemma glob_spec_snoc: "glob_spec (p @ [c]) t \<longleftrightarrow> (\<exists>t' u. glob_spec p t' \<and> t = t' @ u \<and> (c = CHR ''*'' \<or> u = [c]))"
proof
  assume "glob_spec (p @ [c]) t"
  then obtain us where us: "list_all2 (\<lambda>c u. c = CHR ''*'' \<or> u = [c]) (p @ [c]) us" "concat us = t"
    by (auto simp: glob_spec_def)
  then obtain us' u where "us = us' @ [u]" "list_all2 (\<lambda>c u. c = CHR ''*'' \<or> u = [c]) p us'" "c = CHR ''*'' \<or> u = [c]"
    by (auto simp: list_all2_append1 list_all2_Cons1)
  with us(2) show "\<exists>t' u. glob_spec p t' \<and> t = t' @ u \<and> (c = CHR ''*'' \<or> u = [c])" by (auto simp: glob_spec_def)
next
  assume "\<exists>t' u. glob_spec p t' \<and> t = t' @ u \<and> (c = CHR ''*'' \<or> u = [c])"
  then obtain us u where "list_all2 (\<lambda>c u. c = CHR ''*'' \<or> u = [c]) p us" "t = concat us @ u" "c = CHR ''*'' \<or> u = [c]"
    by (auto simp: glob_spec_def)
  then show "glob_spec (p @ [c]) t"
    unfolding glob_spec_def by (intro exI [of _ "us @ [u]"]) (simp add: list_all2_appendI)
qed

lemma glob_spec_zero: "glob_spec (p @ [c]) [] \<longleftrightarrow> c = CHR ''*'' \<and> glob_spec p []"
  by (auto simp: glob_spec_snoc)

lemma glob_spec_cell:
  assumes "j < length t"
  shows "glob_spec (p @ [c]) (take (Suc j) t) \<longleftrightarrow>
    (if c = CHR ''*'' then glob_spec p (take (Suc j) t) \<or> glob_spec (p @ [c]) (take j t)
     else if c = t ! j then glob_spec p (take j t) else False)"
proof (cases "c = CHR ''*''")
  case True
  have "(\<exists>t' u. glob_spec p t' \<and> take (Suc j) t = t' @ u) \<longleftrightarrow>
      glob_spec p (take (Suc j) t) \<or> (\<exists>t' u. glob_spec p t' \<and> take j t = t' @ u)" (is "?L \<longleftrightarrow> ?R")
  proof
    assume ?L
    then obtain t' u where l: "glob_spec p t'" "take (Suc j) t = t' @ u" by blast
    show ?R
    proof (cases u rule: rev_cases)
      case (snoc v x)
      then have "take j t = t' @ v" using l(2) assms by (simp add: take_Suc_conv_app_nth)
      then show ?thesis using l(1) by blast
    qed (use l in auto)
  next
    assume ?R
    then show ?L using assms by (metis append_assoc append_Nil2 take_Suc_conv_app_nth)
  qed
  then show ?thesis using True by (simp add: glob_spec_snoc)
next
  case False
  then show ?thesis using assms by (auto simp: glob_spec_snoc take_Suc_conv_app_nth)
qed

lemma dp_cells_spec:
  "\<forall>j < length t. g (k + Suc j) = (if c = CHR ''*'' then f (k + Suc j) \<or> g (k + j) else if c = t ! j then f (k + j) else False) \<Longrightarrow>
   dp_cells c t (map f [k..<Suc (k + length t)]) (g k) = map g [Suc k..<Suc (k + length t)]"
proof (induction t arbitrary: k)
  case (Cons x t)
  have up: "[k..<Suc (k + length (x # t))] = k # Suc k # [Suc (Suc k)..<Suc (Suc k + length t)]"
    "[Suc k..<Suc (k + length (x # t))] = Suc k # [Suc (Suc k)..<Suc (Suc k + length t)]"
    "[Suc k..<Suc (Suc k + length t)] = Suc k # [Suc (Suc k)..<Suc (Suc k + length t)]"
    by (simp_all add: upt_conv_Cons del: upt_Suc)
  have g: "g (Suc k) = (if c = CHR ''*'' then f (Suc k) \<or> g k else if c = x then f k else False)"
    using Cons.prems by (metis add_0_right add_Suc_right length_Cons nth_Cons_0 zero_less_Suc)
  have "\<forall>j < length t. g (Suc k + Suc j) =
      (if c = CHR ''*'' then f (Suc k + Suc j) \<or> g (Suc k + j) else if c = t ! j then f (Suc k + j) else False)"
  proof (intro allI impI)
    fix j assume "j < length t"
    with Cons.prems [rule_format, of "Suc j"] show "g (Suc k + Suc j) =
      (if c = CHR ''*'' then f (Suc k + Suc j) \<or> g (Suc k + j) else if c = t ! j then f (Suc k + j) else False)" by simp
  qed
  from Cons.IH [OF this] g show ?case unfolding up by (simp add: Let_def)
qed simp

lemma glob_rows:
  "foldl (dp_row t) (True # replicate (length t) False) p = map (\<lambda>j. glob_spec p (take j t)) [0..<Suc (length t)]"
proof (induction p rule: rev_induct)
  case Nil
  have "map (\<lambda>j. take j t = []) [0..<Suc (length t)] = True # map (\<lambda>j. False) [0..<length t]"
    by (rule nth_equalityI) (auto simp: nth_Cons split: nat.splits simp del: upt_Suc)
  then show ?case by (simp add: glob_spec_Nil map_replicate_const del: upt_Suc)
next
  case (snoc c p)
  let ?f = "\<lambda>j. glob_spec p (take j t)" and ?g = "\<lambda>j. glob_spec (p @ [c]) (take j t)"
  have "dp_cells c t (map ?f [0..<Suc (0 + length t)]) (?g 0) = map ?g [Suc 0..<Suc (0 + length t)]"
    by (rule dp_cells_spec) (simp add: glob_spec_cell)
  moreover have "(c = CHR ''*'' \<and> hd (map ?f [0..<Suc (length t)])) = ?g 0"
    by (simp add: glob_spec_zero upt_conv_Cons del: upt_Suc)
  ultimately show ?case
    using snoc by (simp add: dp_row_def Let_def upt_conv_Cons [of 0] del: upt_Suc)
qed

section \<open>Tokens and rules\<close>

lemma consume_used: "used tok \<Longrightarrow> True \<notin> set (consume_all tok ts)"
proof (induction ts arbitrary: tok)
  case (Cons now ts)
  then show ?case by (auto simp: consume_def Let_def split: if_splits)
qed simp

lemma length_consume_all [simp]: "length (consume_all tok ts) = length ts"
  by (induction ts arbitrary: tok) (auto simp: Let_def split: prod.splits)

lemma first_match_iff:
  "first_match lc rs d prog args =
     (case List.find (\<lambda>r. pattern_matches lc (pattern r) prog args) rs of None \<Rightarrow> d | Some r \<Rightarrow> rule_action r)"
  by (induction rs) auto

lemma first_match_none:
  "\<not> list_ex (\<lambda>r. pattern_matches lc (pattern r) prog args) rs \<Longrightarrow> first_match lc rs d prog args = d"
  by (induction rs) auto

lemma rules_recorded [simp]: "rules (record_decision a pol) = rules pol"
  by (simp add: record_decision_def)

lemma stats_total_record: "stats_total (stats_record a s) = stats_total s + 1"
  by (cases a) (simp_all add: stats_total_def)

section \<open>Properties\<close>

text \<open>
  C38: the table-based matcher decides the glob language: it accepts a text exactly when the text can be
  cut into one piece per pattern character, with anything in the place of a star and the character
  itself elsewhere.
\<close>

theorem glob_match_correct:
  "glob_match p t \<longleftrightarrow> (\<exists>us. list_all2 (\<lambda>c u. c = CHR ''*'' \<or> u = [c]) p us \<and> concat us = t)"
  by (simp add: glob_match_def glob_rows glob_spec_def [symmetric] last_map)

text \<open>
  What the modes let through when nothing was declared. For a zero-trust policy in which no rule, no
  writable pattern and no pre-approved pattern matches the command, it passes exactly in the default
  mode, in plan mode for a program on the read-only list, and in bypass mode inside an isolated
  container; a bypass request outside a container is denied, which is not what the default mode does.
\<close>

theorem undeclared_commands:
  assumes "default_action pol = Deny" "\<not> has_matching_rule lc pol prog args"
    "\<not> list_ex (\<lambda>p. pattern_matches lc p prog args) (writable_patterns spec @ preapproved spec)"
  shows "permits (snd (mode_evaluate lc mode pol spec prog args is_container)) \<longleftrightarrow>
    mode = DefaultMode \<or> mode = Plan \<and> is_readonly_program lc prog \<or>
    mode = BypassPermissions \<and> isolated spec \<and> is_container"
proof -
  have "snd (evaluate lc pol prog args) = Deny"
    using assms(1,2) by (simp add: evaluate_def Let_def evaluate_uncounted_def has_matching_rule_def first_match_none)
  moreover have "has_matching_rule lc (fst (evaluate lc pol prog args)) prog args = has_matching_rule lc pol prog args"
    by (simp add: evaluate_def Let_def has_matching_rule_def)
  ultimately show ?thesis
    using assms(2,3) by (cases mode; cases "evaluate lc pol prog args") auto
qed

theorem undeclared_commands_witness:
  "permits (snd (mode_evaluate id DefaultMode exec_policy_new \<lparr>writable_patterns = [], preapproved = [], isolated = False\<rparr> ''rm'' [''-rf''] True)) \<and>
   \<not> permits (snd (mode_evaluate id BypassPermissions exec_policy_new \<lparr>writable_patterns = [], preapproved = [], isolated = False\<rparr> ''rm'' [''-rf''] True))"
proof -
  let ?spec = "\<lparr>writable_patterns = [], preapproved = [], isolated = False\<rparr>"
  have "default_action exec_policy_new = Deny" "\<not> has_matching_rule id exec_policy_new ''rm'' [''-rf'']"
    "\<not> list_ex (\<lambda>p. pattern_matches id p ''rm'' [''-rf'']) (writable_patterns ?spec @ preapproved ?spec)"
    by (simp_all add: exec_policy_new_def has_matching_rule_def)
  note u = undeclared_commands [OF this]
  show ?thesis unfolding u by simp
qed

text \<open>
  The rule engine answers with the action of the first rule that matches, in the order in which the
  rules were added, and with the default action when none does, and it counts that answer once.
\<close>

theorem evaluate_first_match:
  "evaluate lc pol prog args =
     (let a = (case List.find (\<lambda>r. pattern_matches lc (pattern r) prog args) (rules pol) of
                 None \<Rightarrow> default_action pol | Some r \<Rightarrow> rule_action r)
      in (pol\<lparr>stats := stats_record a (stats pol)\<rparr>, a)) \<and>
   stats_total (stats (fst (evaluate lc pol prog args))) = stats_total (stats pol) + 1"
  by (simp add: evaluate_def evaluate_uncounted_def record_decision_def first_match_iff Let_def stats_total_record)

text \<open>
  Not every decision leaves a trace. Plan and pre-approved-only decisions, writable-pattern approvals
  and bypass approvals leave the statistics as they were, while the default mode counts a denial for
  an undeclared command that it allows.
\<close>

theorem decisions_without_trace:
  "fst (mode_evaluate lc Plan pol spec prog args k) = pol \<and>
   fst (mode_evaluate lc DontAsk pol spec prog args k) = pol \<and>
   (list_ex (\<lambda>p. pattern_matches lc p prog args) (writable_patterns spec) \<longrightarrow>
      mode_evaluate lc AcceptEdits pol spec prog args k = (pol, Allow)) \<and>
   (isolated spec \<longrightarrow> mode_evaluate lc BypassPermissions pol spec prog args True = (pol, Allow)) \<and>
   (default_action pol = Deny \<and> \<not> has_matching_rule lc pol prog args \<longrightarrow>
      mode_evaluate lc DefaultMode pol spec prog args k = (record_decision Deny pol, Allow))"
  by (simp add: evaluate_def evaluate_uncounted_def Let_def has_matching_rule_def first_match_none)

theorem decisions_without_trace_witness:
  "let r = mode_evaluate id DefaultMode exec_policy_new \<lparr>writable_patterns = [], preapproved = [], isolated = True\<rparr> ''rm'' [] True
   in snd r = Allow \<and> deny_count (stats (fst r)) = 1 \<and> allow_count (stats (fst r)) = 0"
  using decisions_without_trace [of id exec_policy_new "\<lparr>writable_patterns = [], preapproved = [], isolated = True\<rparr>" "''rm''" "[]" True]
  by (simp add: exec_policy_new_def has_matching_rule_def record_decision_def stats_default_def)

text \<open>
  An elevation token works once. In any sequence of attempts on a fresh token the successful ones are
  exactly the first attempt made before the expiry; everything before and after it fails.
\<close>

theorem token_consumed_once:
  "consume_all (token_new tid ttl now0) ts =
     map (\<lambda>i. ts ! i < now0 + ttl \<and> (\<forall>j < i. now0 + ttl \<le> ts ! j)) [0..<length ts]"
proof -
  have "used tok = False \<Longrightarrow> consume_all tok ts = map (\<lambda>i. ts ! i < expiry tok \<and> (\<forall>j < i. expiry tok \<le> ts ! j)) [0..<length ts]" for tok
  proof (induction ts arbitrary: tok)
    case (Cons t ts)
    have up: "[0..<length (t # ts)] = 0 # map Suc [0..<length ts]"
      by (simp add: map_Suc_upt upt_conv_Cons del: upt_Suc)
    show ?case
    proof (cases "expiry tok \<le> t")
      case True
      then show ?thesis unfolding up using Cons by (simp add: consume_def All_less_Suc2 not_less)
    next
      case False
      have "consume_all (tok\<lparr>used := True\<rparr>) ts = replicate (length ts) False"
        using consume_used [of "tok\<lparr>used := True\<rparr>" ts]
        by (intro replicate_eqI) auto
      then show ?thesis unfolding up using False Cons.prems
        by (auto simp: consume_def All_less_Suc2 intro!: nth_equalityI dest: spec [of _ 0])
    qed
  qed simp
  from this [of "token_new tid ttl now0"] show ?thesis by (simp add: token_new_def)
qed

theorem token_consumed_once_witness:
  "consume_all (token_new ''t'' 10 5) [20, 7, 8] = [False, True, False]"
  unfolding token_consumed_once by (simp add: upt_rec All_less_Suc2 numeral_eq_Suc)

end
