(* ===== verification/Causal.thy ===== *)
theory Causal
  imports Prelude "HOL-Library.List_Lexorder" "HOL-Library.Char_ord" "HOL-Library.Multiset"
begin

text \<open>
  Vector clocks and the causal buffer of \<^verbatim>\<open>event-bus/src/causal.rs\<close>. A clock is a \<^verbatim>\<open>BTreeMap\<close> from node names to
  counters, here the list of its entries in key order; equality of clocks is equality of these lists,
  as it is equality of the maps in the code. A counter is a \<^verbatim>\<open>u64\<close> and its increment wraps, as the release
  profile of the workspace compiles it.
\<close>

section \<open>Vector clocks\<close>

type_synonym vector_clock = "(string \<times> u64) list"

fun btree_insert :: "string \<Rightarrow> u64 \<Rightarrow> vector_clock \<Rightarrow> vector_clock" where
  "btree_insert k v [] = [(k, v)]"
| "btree_insert k v ((k', v') # c) =
     (if k < k' then (k, v) # (k', v') # c
      else if k = k' then (k, v) # c
      else (k', v') # btree_insert k v c)"

definition clock_new :: vector_clock where
  "clock_new = []"

definition with_nodes :: "string list \<Rightarrow> vector_clock" where
  "with_nodes nodes = foldl (\<lambda>c n. btree_insert n 0 c) [] nodes"

definition get :: "vector_clock \<Rightarrow> string \<Rightarrow> u64" where
  "get c n = map_default 0 (map_of c) n"

definition increment :: "vector_clock \<Rightarrow> string \<Rightarrow> vector_clock \<times> u64" where
  "increment c n = (let v = get c n + 1 in (btree_insert n v c, v))"

definition merge_entry :: "vector_clock \<Rightarrow> string \<times> u64 \<Rightarrow> vector_clock" where
  "merge_entry c e =
     (let (n, other_count) = e; self_count = get c n
      in btree_insert n (if self_count < other_count then other_count else self_count) c)"

definition merge :: "vector_clock \<Rightarrow> vector_clock \<Rightarrow> vector_clock" where
  "merge c d = foldl merge_entry c d"

definition receive :: "vector_clock \<Rightarrow> vector_clock \<Rightarrow> string \<Rightarrow> vector_clock" where
  "receive c d self_node = fst (increment (merge c d) self_node)"

definition has_events :: "vector_clock \<Rightarrow> bool" where
  "has_events c = list_ex (\<lambda>(n, v). 0 < v) c"

definition node_count :: "vector_clock \<Rightarrow> nat" where
  "node_count c = length c"

definition total_events :: "vector_clock \<Rightarrow> u64" where
  "total_events c = sum_list (map snd c)"

definition happens_before :: "vector_clock \<Rightarrow> vector_clock \<Rightarrow> bool" where
  "happens_before c d =
     (if \<not> list_all (\<lambda>(n, v). v \<le> get d n) c then False
      else list_ex (\<lambda>(n, v). v < get d n) c \<or> list_ex (\<lambda>(n, v). 0 < v \<and> get c n < v) d)"

definition concurrent_with :: "vector_clock \<Rightarrow> vector_clock \<Rightarrow> bool" where
  "concurrent_with c d = (\<not> happens_before c d \<and> \<not> happens_before d c \<and> c \<noteq> d)"

datatype causal_relation = Before | After | Concurrent | Equal

definition compare :: "vector_clock \<Rightarrow> vector_clock \<Rightarrow> causal_relation" where
  "compare c d =
     (if c = d then Equal
      else if happens_before c d then Before
      else if happens_before d c then After
      else Concurrent)"

datatype ordering = OrdEqual | OrdLess | OrdGreater

definition partial_cmp :: "vector_clock \<Rightarrow> vector_clock \<Rightarrow> ordering option" where
  "partial_cmp c d =
     (case compare c d of
        Equal \<Rightarrow> Some OrdEqual
      | Before \<Rightarrow> Some OrdLess
      | After \<Rightarrow> Some OrdGreater
      | Concurrent \<Rightarrow> None)"

section \<open>The causal buffer\<close>

datatype causal_buffer_error = BufferFull nat

record 'e pending_event =
  event :: 'e
  event_clock :: vector_clock

record 'e causal_buffer =
  pending :: "'e pending_event list"
  capacity :: nat
  dropped_count :: nat

definition DEFAULT_CAUSAL_BUFFER_CAPACITY :: nat where
  "DEFAULT_CAUSAL_BUFFER_CAPACITY = 1024"

definition with_capacity :: "nat \<Rightarrow> 'e causal_buffer" where
  "with_capacity cap = \<lparr>pending = [], capacity = cap, dropped_count = 0\<rparr>"

definition push :: "'e causal_buffer \<Rightarrow> 'e \<Rightarrow> vector_clock \<Rightarrow> 'e causal_buffer \<times> (causal_buffer_error, unit) result" where
  "push b e c =
     (if capacity b \<le> length (pending b)
      then (b\<lparr>dropped_count := dropped_count b + 1\<rparr>, Inl (BufferFull (capacity b)))
      else (b\<lparr>pending := pending b @ [\<lparr>event = e, event_clock = c\<rparr>]\<rparr>, Inr ()))"

definition is_satisfied :: "vector_clock \<Rightarrow> vector_clock \<Rightarrow> bool" where
  "is_satisfied ec local_clock = (happens_before ec local_clock \<or> ec = local_clock)"

definition try_deliver :: "'e causal_buffer \<Rightarrow> vector_clock \<Rightarrow> 'e causal_buffer \<times> 'e pending_event list" where
  "try_deliver b local_clock =
     (let (delivered, retained) = partition (\<lambda>pe. is_satisfied (event_clock pe) local_clock) (pending b)
      in (b\<lparr>pending := retained\<rparr>, delivered))"

definition ready_count :: "'e causal_buffer \<Rightarrow> vector_clock \<Rightarrow> nat" where
  "ready_count b local_clock = length (filter (\<lambda>pe. is_satisfied (event_clock pe) local_clock) (pending b))"

definition clear :: "'e causal_buffer \<Rightarrow> 'e causal_buffer" where
  "clear b = b\<lparr>pending := []\<rparr>"

section \<open>Clocks as counter functions\<close>

definition clock_ok :: "vector_clock \<Rightarrow> bool" where
  "clock_ok c \<longleftrightarrow> sorted_wrt (<) (map fst c)"

lemma u64_top: "(x :: u64) \<le> - 1"
  using unsigned_less [of x, where ?'a = nat] by (simp add: word_le_nat_alt unat_u64_max)

lemma u64_below_top: "(x :: u64) \<noteq> - 1 \<Longrightarrow> x < x + 1"
proof -
  assume x: "x \<noteq> - 1"
  have "1 + x \<noteq> 0" using x by (metis add_eq_0_iff)
  then show "x < x + 1" by (simp add: word_less_nat_alt unatSuc add.commute)
qed

lemma map_of_btree_insert: "map_of (btree_insert k v c) = (map_of c)(k \<mapsto> v)"
  by (induction c) auto

lemma get_btree_insert [simp]: "get (btree_insert k v c) n = (if n = k then v else get c n)"
  by (simp add: get_def map_of_btree_insert)

lemma keys_btree_insert: "fst ` set (btree_insert k v c) = insert k (fst ` set c)"
  using arg_cong [OF map_of_btree_insert [of k v c], of dom] by (simp add: dom_map_of_conv_image_fst)

lemma ok_btree_insert [simp]: "clock_ok c \<Longrightarrow> clock_ok (btree_insert k v c)"
proof (induction c)
  case (Cons e c)
  obtain k' v' where e: "e = (k', v')" by force
  have tl: "\<forall>x \<in> fst ` set c. k' < x" "clock_ok c" using Cons.prems by (auto simp: clock_ok_def e)
  show ?case
  proof (cases "k < k' \<or> k = k'")
    case True
    then show ?thesis using Cons.prems tl by (force simp: clock_ok_def e)
  next
    case False
    then have "\<forall>x \<in> fst ` set (btree_insert k v c). k' < x" using tl(1) by (auto simp: keys_btree_insert)
    then show ?thesis using Cons.IH [OF tl(2)] False by (auto simp: clock_ok_def e)
  qed
qed (simp add: clock_ok_def)

lemma clock_ok_new [simp]: "clock_ok clock_new"
  by (simp add: clock_ok_def clock_new_def)

lemma get_new [simp]: "get clock_new n = 0"
  by (simp add: get_def clock_new_def)

lemma clock_ok_increment [simp]: "clock_ok c \<Longrightarrow> clock_ok (fst (increment c n))"
  by (simp add: increment_def Let_def)

lemma merge_get: "clock_ok c \<Longrightarrow> clock_ok (merge c d) \<and> (clock_ok d \<longrightarrow> get (merge c d) n = max (get c n) (get d n))"
proof (induction d arbitrary: c)
  case Nil
  then show ?case by (simp add: merge_def get_def)
next
  case (Cons e d)
  obtain k v where e: "e = (k, v)" by force
  let ?c = "merge_entry c e"
  have ok: "clock_ok ?c" using Cons.prems by (simp add: merge_entry_def e Let_def)
  have g: "get ?c n = (if n = k then max (get c k) v else get c n)"
    by (auto simp: merge_entry_def e Let_def max_def)
  have "k \<notin> fst ` set d" if "clock_ok (e # d)" using that by (auto simp: clock_ok_def e)
  then have "get d k = 0" if "clock_ok (e # d)" using that by (simp add: get_def map_default_def map_of_eq_None_iff [THEN iffD2])
  then show ?case
    using Cons.IH [OF ok] g by (auto simp: merge_def e clock_ok_def get_def map_default_def)
qed

lemma clock_ok_merge [simp]: "clock_ok c \<Longrightarrow> clock_ok (merge c d)"
  using merge_get by blast

lemma get_merge [simp]: "clock_ok c \<Longrightarrow> clock_ok d \<Longrightarrow> get (merge c d) n = max (get c n) (get d n)"
  using merge_get by blast

lemma get_increment [simp]: "get (fst (increment c k)) n = (if n = k then get c k + 1 else get c n)"
  by (simp add: increment_def Let_def)

lemma get_entry: "clock_ok c \<Longrightarrow> (n, v) \<in> set c \<Longrightarrow> get c n = v"
proof -
  assume ok: "clock_ok c" and e: "(n, v) \<in> set c"
  have "distinct (map fst c)" using ok strict_sorted_iff by (auto simp: clock_ok_def)
  then show ?thesis using e by (simp add: get_def map_default_def)
qed

lemma get_nonzero_entry: "0 < get c n \<Longrightarrow> (n, get c n) \<in> set c"
  by (auto simp: get_def map_default_def split: option.splits dest: map_of_SomeD)

lemma happens_before_iff:
  assumes "clock_ok c" "clock_ok d"
  shows "happens_before c d \<longleftrightarrow> (\<forall>n. get c n \<le> get d n) \<and> (\<exists>n. get c n < get d n)"
proof -
  have le: "list_all (\<lambda>(n, v). v \<le> get d n) c \<longleftrightarrow> (\<forall>n. get c n \<le> get d n)"
  proof
    assume all: "list_all (\<lambda>(n, v). v \<le> get d n) c"
    show "\<forall>n. get c n \<le> get d n"
    proof
      fix n
      show "get c n \<le> get d n"
        using all get_nonzero_entry [of c n] by (cases "0 < get c n") (auto simp: list_all_iff word_gt_0)
    qed
  qed (use assms(1) get_entry in \<open>fastforce simp: list_all_iff\<close>)
  have "list_ex (\<lambda>(n, v). v < get d n) c \<or> list_ex (\<lambda>(n, v). 0 < v \<and> get c n < v) d \<longleftrightarrow> (\<exists>n. get c n < get d n)"
  proof
    assume "\<exists>n. get c n < get d n"
    then obtain n where n: "get c n < get d n" by blast
    then have "(n, get d n) \<in> set d" using get_nonzero_entry [of d n] le_less_trans [OF word_zero_le n] by blast
    with n show "list_ex (\<lambda>(n, v). v < get d n) c \<or> list_ex (\<lambda>(n, v). 0 < v \<and> get c n < v) d"
      unfolding list_ex_iff
      using le_less_trans [OF word_zero_le n] by (intro disjI2 bexI [of _ "(n, get d n)"]) auto
  qed (use assms get_entry in \<open>fastforce simp: list_ex_iff\<close>)
  with le show ?thesis by (simp add: happens_before_def)
qed

lemma satisfied_le: "clock_ok c \<Longrightarrow> clock_ok d \<Longrightarrow> is_satisfied c d \<Longrightarrow> get c n \<le> get d n"
  by (auto simp: is_satisfied_def happens_before_iff)

section \<open>Runs of a receiving node\<close>

text \<open>
  A node that advances its clock only by what it delivers: after each attempt it receives the clock of
  every delivered event under its own name.
\<close>

definition deliver_round :: "string \<Rightarrow> 'e causal_buffer \<times> vector_clock \<Rightarrow> 'e causal_buffer \<times> vector_clock" where
  "deliver_round self bl =
     (let (b, delivered) = try_deliver (fst bl) (snd bl)
      in (b, foldl (\<lambda>c pe. receive c (event_clock pe) self) (snd bl) delivered))"

definition buffer_ok :: "'e causal_buffer \<Rightarrow> bool" where
  "buffer_ok b \<longleftrightarrow> length (pending b) \<le> capacity b \<and> (\<forall>pe \<in> set (pending b). clock_ok (event_clock pe))"

lemma receive_ok [simp]: "clock_ok c \<Longrightarrow> clock_ok (receive c d self)"
  by (simp add: receive_def)

lemma get_receive: "clock_ok c \<Longrightarrow> clock_ok d \<Longrightarrow> get (receive c d self) n = max (get c n) (get d n) + (if n = self then 1 else 0)"
  by (simp add: receive_def)

lemma foldl_receive:
  assumes "clock_ok c" "\<forall>pe \<in> set pes. clock_ok (event_clock pe) \<and> (\<forall>n. get (event_clock pe) n \<le> get c0 n)"
    "\<forall>n. n \<noteq> self \<longrightarrow> get c n = get c0 n"
  shows "clock_ok (foldl (\<lambda>c pe. receive c (event_clock pe) self) c pes) \<and>
    (n \<noteq> self \<longrightarrow> get (foldl (\<lambda>c pe. receive c (event_clock pe) self) c pes) n = get c0 n)"
  using assms
proof (induction pes arbitrary: c)
  case (Cons pe pes)
  have "\<forall>n. n \<noteq> self \<longrightarrow> get (receive c (event_clock pe) self) n = get c0 n"
    using Cons.prems by (auto simp: get_receive intro!: max_absorb1)
  with Cons.IH [of "receive c (event_clock pe) self"] Cons.prems show ?case by simp
qed simp

lemma round_keeps:
  assumes "buffer_ok b" "clock_ok l" "deliver_round self (b, l) = (b', l')" "pe \<in> set (pending b)"
    "n \<noteq> self" "get l n < get (event_clock pe) n"
  shows "buffer_ok b' \<and> clock_ok l' \<and> pe \<in> set (pending b') \<and> get l' n = get l n"
proof -
  let ?sat = "\<lambda>pe. is_satisfied (event_clock pe) l"
  have b': "pending b' = filter (Not \<circ> ?sat) (pending b)" "capacity b' = capacity b"
    and l': "l' = foldl (\<lambda>c pe. receive c (event_clock pe) self) l (filter ?sat (pending b))"
    using assms(3) by (auto simp: deliver_round_def try_deliver_def Let_def)
  have "\<not> ?sat pe"
    using satisfied_le [of "event_clock pe" l n] assms(1,2,4,6) by (auto simp: buffer_ok_def)
  moreover have le: "\<forall>pe \<in> set (filter ?sat (pending b)). clock_ok (event_clock pe) \<and> (\<forall>n. get (event_clock pe) n \<le> get l n)"
    using assms(1,2) satisfied_le by (auto simp: buffer_ok_def)
  moreover have "clock_ok l' \<and> (n \<noteq> self \<longrightarrow> get l' n = get l n)"
    unfolding l' by (rule foldl_receive [OF assms(2) le]) simp
  moreover have "length (pending b') \<le> capacity b'"
    unfolding b' using assms(1) by (intro order_trans [OF length_filter_le]) (simp add: buffer_ok_def)
  ultimately show ?thesis using assms(1,4,5) by (auto simp: b' buffer_ok_def)
qed

section \<open>Properties\<close>

text \<open>
  C39: the happened-before test is the vector order. On clocks it holds exactly when no counter decreases
  and one grows, with missing nodes read as zero; it is therefore irreflexive, transitive and
  asymmetric.
\<close>

theorem happens_before_is_vector_order:
  assumes "clock_ok a" "clock_ok b" "clock_ok c"
  shows "(happens_before a b \<longleftrightarrow> (\<forall>n. get a n \<le> get b n) \<and> (\<exists>n. get a n < get b n)) \<and>
    \<not> happens_before a a \<and> (happens_before a b \<longrightarrow> \<not> happens_before b a) \<and>
    (happens_before a b \<and> happens_before b c \<longrightarrow> happens_before a c)"
  using assms by (auto simp: happens_before_iff dest: leD) (meson le_less_trans less_le_trans order_trans)+

theorem happens_before_is_vector_order_witness:
  "let a = fst (increment clock_new ''n1''); b = fst (increment a ''n2'') in happens_before a b \<and> \<not> happens_before b a"
proof -
  let ?a = "fst (increment clock_new ''n1'')"
  let ?b = "fst (increment ?a ''n2'')"
  have "happens_before ?a ?b" by (simp add: happens_before_iff)
  then show ?thesis
    using happens_before_is_vector_order [of ?a ?b ?a] by (simp add: Let_def)
qed

text \<open>
  The receive rule records causality. After receiving a message the clock is the pointwise maximum
  with the own counter one higher, and both the previous local clock and the clock of the message
  happened before it, unless one of them already holds the largest \<^verbatim>\<open>u64\<close> under the receiver's name:
  then the own counter wraps to zero and the order is lost.
\<close>

theorem receive_records_causality:
  assumes "clock_ok c" "clock_ok m"
  shows "get (receive c m self) n = max (get c n) (get m n) + (if n = self then 1 else 0) \<and>
    clock_ok (receive c m self) \<and>
    (happens_before c (receive c m self) \<and> happens_before m (receive c m self) \<longleftrightarrow>
       get c self \<noteq> - 1 \<and> get m self \<noteq> - 1) \<and>
    (get c self = - 1 \<or> get m self = - 1 \<longrightarrow> get (receive c m self) self = 0)"
proof -
  let ?r = "receive c m self"
  have g: "get ?r n = max (get c n) (get m n) + (if n = self then 1 else 0)" for n
    using assms by (simp add: get_receive)
  have ok: "clock_ok ?r" using assms(1) by simp
  have top: "max (get c self) (get m self) = - 1" if "get c self = - 1 \<or> get m self = - 1"
    using that u64_top by (auto simp: max_def intro: antisym)
  have below: "max (get c self) (get m self) < get ?r self" if "get c self \<noteq> - 1" "get m self \<noteq> - 1"
  proof -
    have "max (get c self) (get m self) \<noteq> - 1" using that by (simp add: max_def)
    from u64_below_top [OF this] show ?thesis by (simp add: g)
  qed
  have other: "get c n \<le> get ?r n" "get m n \<le> get ?r n" if "n \<noteq> self" for n using that by (simp_all add: g)
  have zero: "get ?r self = 0" if "get c self = - 1 \<or> get m self = - 1" using top [OF that] by (simp add: g)
  have "happens_before c ?r \<and> happens_before m ?r" if "get c self \<noteq> - 1" "get m self \<noteq> - 1"
  proof -
    have "get c self < get ?r self" "get m self < get ?r self"
      using below [OF that] by (auto intro: le_less_trans [OF max.cobounded1] le_less_trans [OF max.cobounded2])
    moreover from this have "get c n \<le> get ?r n \<and> get m n \<le> get ?r n" for n
      using other by (cases "n = self") auto
    ultimately show ?thesis
      unfolding happens_before_iff [OF assms(1) ok] happens_before_iff [OF assms(2) ok] by blast
  qed
  moreover have "\<not> (happens_before c ?r \<and> happens_before m ?r)" if "get c self = - 1 \<or> get m self = - 1"
  proof
    assume "happens_before c ?r \<and> happens_before m ?r"
    then have "get c self \<le> get ?r self" "get m self \<le> get ?r self"
      unfolding happens_before_iff [OF assms(1) ok] happens_before_iff [OF assms(2) ok] by blast+
    then show False using that unfolding zero [OF that] by auto
  qed
  ultimately show ?thesis using ok g zero by blast
qed

theorem receive_records_causality_witness:
  "happens_before (fst (increment clock_new ''a'')) (receive clock_new (fst (increment clock_new ''a'')) ''b'') \<and>
   \<not> happens_before [(''b'', - 1)] (receive clock_new [(''b'', - 1)] ''b'')"
proof
  show "happens_before (fst (increment clock_new ''a'')) (receive clock_new (fst (increment clock_new ''a'')) ''b'')"
    using receive_records_causality [of clock_new "fst (increment clock_new ''a'')" "''b''"] by simp
  have ok: "clock_ok [(''b'', - 1)]" and top: "get [(''b'', - 1)] ''b'' = - 1" by (simp_all add: clock_ok_def get_def map_default_def)
  have "get (receive clock_new [(''b'', - 1)] ''b'') ''b'' = 0"
    using receive_records_causality [OF clock_ok_new ok, of "''b''" "''b''"] top by simp
  then show "\<not> happens_before [(''b'', - 1)] (receive clock_new [(''b'', - 1)] ''b'')"
    unfolding happens_before_iff [OF ok receive_ok [OF clock_ok_new]] using top by (auto dest!: spec [of _ "''b''"])
qed

text \<open>
  The buffer neither loses nor invents events and stays bounded. A push either stores the event or
  counts it as dropped; a delivery splits the content, in order, into the events whose clock is at
  most the local clock and the rest, and \<^verbatim>\<open>ready_count\<close> predicts its size.
\<close>

theorem buffer_accounts_for_events:
  assumes "buffer_ok b" "clock_ok l" "clock_ok c"
  shows "(case push b e c of
            (b', Inr _) \<Rightarrow> pending b' = pending b @ [\<lparr>event = e, event_clock = c\<rparr>] \<and> dropped_count b' = dropped_count b \<and> buffer_ok b'
          | (b', Inl _) \<Rightarrow> pending b' = pending b \<and> dropped_count b' = dropped_count b + 1 \<and> length (pending b) = capacity b) \<and>
    (let (b', ds) = try_deliver b l
     in mset ds + mset (pending b') = mset (pending b) \<and> length ds = ready_count b l \<and> buffer_ok b' \<and>
        (\<forall>pe \<in> set ds. \<forall>n. get (event_clock pe) n \<le> get l n))"
proof (intro conjI)
  show "case push b e c of
            (b', Inr _) \<Rightarrow> pending b' = pending b @ [\<lparr>event = e, event_clock = c\<rparr>] \<and> dropped_count b' = dropped_count b \<and> buffer_ok b'
          | (b', Inl _) \<Rightarrow> pending b' = pending b \<and> dropped_count b' = dropped_count b + 1 \<and> length (pending b) = capacity b"
    using assms(1,3) by (auto simp: push_def buffer_ok_def)
  have "length (filter P (pending b)) \<le> capacity b" for P
    using assms(1) order_trans [OF length_filter_le [of P "pending b"]] by (simp add: buffer_ok_def)
  then show "let (b', ds) = try_deliver b l
     in mset ds + mset (pending b') = mset (pending b) \<and> length ds = ready_count b l \<and> buffer_ok b' \<and>
        (\<forall>pe \<in> set ds. \<forall>n. get (event_clock pe) n \<le> get l n)"
    using assms satisfied_le by (auto simp: try_deliver_def ready_count_def buffer_ok_def comp_def)
qed

theorem buffer_accounts_for_events_witness:
  "let (b', ds) = try_deliver (fst (push (with_capacity 2) (7 :: nat) clock_new)) clock_new
   in mset ds + mset (pending b') = {#\<lparr>event = 7, event_clock = clock_new\<rparr>#}"
proof -
  let ?b = "fst (push (with_capacity 2) (7 :: nat) clock_new)"
  have b: "?b = \<lparr>pending = [\<lparr>event = 7, event_clock = clock_new\<rparr>], capacity = 2, dropped_count = 0\<rparr>"
    by (simp add: push_def with_capacity_def)
  have "buffer_ok ?b" unfolding b by (simp add: buffer_ok_def)
  from buffer_accounts_for_events [OF this clock_ok_new clock_ok_new] show ?thesis by (auto simp: b split: prod.splits)
qed

text \<open>
  The buffer cannot drive delivery by itself. An event is only delivered once the local clock already
  covers the event itself, so a node whose clock advances by receiving what it delivers never
  delivers an event that carries news from another node, however many rounds it makes.
\<close>

theorem news_is_never_delivered:
  assumes "buffer_ok b" "clock_ok l" "pe \<in> set (pending b)" "n \<noteq> self" "get l n < get (event_clock pe) n"
  shows "pe \<in> set (pending (fst ((deliver_round self ^^ k) (b, l))))"
proof -
  have "buffer_ok (fst ((deliver_round self ^^ k) (b, l))) \<and> clock_ok (snd ((deliver_round self ^^ k) (b, l))) \<and>
      pe \<in> set (pending (fst ((deliver_round self ^^ k) (b, l)))) \<and> get (snd ((deliver_round self ^^ k) (b, l))) n = get l n"
  proof (induction k)
    case (Suc k)
    obtain b' l' where bl: "(deliver_round self ^^ k) (b, l) = (b', l')" by force
    obtain b2 l2 where r: "deliver_round self (b', l') = (b2, l2)" by force
    from round_keeps [OF _ _ r, of pe n] Suc assms(4,5) show ?case by (simp add: bl r)
  qed (use assms in simp)
  then show ?thesis by blast
qed

theorem news_is_never_delivered_witness:
  "let m = fst (increment clock_new ''a''); b = fst (push (with_capacity 4) (7 :: nat) m)
   in pending (fst ((deliver_round ''b'' ^^ 100) (b, clock_new))) \<noteq> []"
proof -
  let ?m = "fst (increment clock_new ''a'')"
  let ?b = "fst (push (with_capacity 4) (7 :: nat) ?m)"
  have b: "?b = \<lparr>pending = [\<lparr>event = 7, event_clock = ?m\<rparr>], capacity = 4, dropped_count = 0\<rparr>"
    by (simp add: push_def with_capacity_def)
  have "\<lparr>event = 7, event_clock = ?m\<rparr> \<in> set (pending (fst ((deliver_round ''b'' ^^ 100) (?b, clock_new))))"
    unfolding b by (rule news_is_never_delivered [where n = "''a''"]) (simp_all add: buffer_ok_def)
  then show ?thesis by (auto simp: Let_def)
qed

text \<open>
  A registered node that has not acted yet is told apart from an absent one. Two clocks that agree on
  every counter but not on their entries are reported as concurrent, and an event carrying the one
  is not deliverable at the other, although every dependency is met.
\<close>

theorem zero_entries_look_concurrent:
  assumes "clock_ok c" "clock_ok d" "\<forall>n. get c n = get d n" "c \<noteq> d"
  shows "compare c d = Concurrent \<and> partial_cmp c d = None \<and> \<not> is_satisfied c d"
  using assms by (simp add: compare_def partial_cmp_def is_satisfied_def happens_before_iff)

theorem zero_entries_look_concurrent_witness: "compare clock_new (with_nodes [''a'']) = Concurrent"
proof -
  have "\<forall>n. get clock_new n = get (with_nodes [''a'']) n" "clock_ok (with_nodes [''a''])" "clock_new \<noteq> with_nodes [''a'']"
    by (simp_all add: get_def clock_new_def with_nodes_def clock_ok_def map_default_def)
  from zero_entries_look_concurrent [OF clock_ok_new this(2,1,3)] show ?thesis by simp
qed

end
