(* ===== verification/Quest_Dag.thy ===== *)
theory Quest_Dag
  imports Prelude "HOL-Library.List_Lexorder" "HOL-Library.Char_ord" "HOL-Library.Multiset"
begin

text \<open>
  The task-graph check of \<^verbatim>\<open>quest-engine/src/dag.rs\<close>: Kahn's algorithm over in-degrees and a reverse
  adjacency index, with the queue loop run on fuel. A string is its UTF-8 bytes, so that the order on
  lists is the order \<^verbatim>\<open>sort_unstable\<close> uses on \<^verbatim>\<open>&str\<close>. A hash set or map is read only through
  membership, lookup and the sorted list of its keys, so its iteration order does not show; the event
  bus error that \<^verbatim>\<open>QuestError\<close> wraps is carried as its rendered message.
\<close>

section \<open>The algorithm\<close>

datatype task_status = TaskPending | TaskRunning | TaskCompleted | TaskFailed | TaskCancelled | TaskPaused

record task =
  task_id :: string
  description :: string
  status :: task_status
  dependencies :: "string list"

datatype quest_error =
    CyclicDependency
  | TaskNotFound string
  | QuestNotFound string
  | InvalidStatus string
  | DecompositionFailed string
  | EventBusError string
  | SerializationError string
  | CheckpointCorrupted
  | CheckpointSaveFailed string
  | CheckpointNotFound string
  | WalError string
  | TtgOverrideRejected string string string string
  | TrajectoryExportFailed string

type_synonym degrees = "string \<rightharpoonup> nat"
type_synonym index = "string \<rightharpoonup> string list"

fun find_dangling :: "string list \<Rightarrow> task list \<Rightarrow> (string \<times> string) option" where
  "find_dangling ids [] = None"
| "find_dangling ids (t # ts) =
     (case List.find (\<lambda>d. d \<notin> set ids) (dependencies t) of
        Some d \<Rightarrow> Some (task_id t, d)
      | None \<Rightarrow> find_dangling ids ts)"

definition init_degrees :: "task list \<Rightarrow> degrees" where
  "init_degrees ts = foldl (\<lambda>m t. m(task_id t \<mapsto> map_default 0 m (task_id t))) Map.empty ts"

definition add_edge :: "string \<Rightarrow> degrees \<times> index \<Rightarrow> string \<Rightarrow> degrees \<times> index" where
  "add_edge tid g dep =
     ((fst g)(tid \<mapsto> map_default 0 (fst g) tid + 1), (snd g)(dep \<mapsto> map_default [] (snd g) dep @ [tid]))"

definition build_graph :: "task list \<Rightarrow> degrees \<times> index" where
  "build_graph ts = foldl (\<lambda>g t. foldl (add_edge (task_id t)) g (dependencies t)) (init_degrees ts, Map.empty) ts"

fun release :: "degrees \<Rightarrow> string list \<Rightarrow> string list \<Rightarrow> degrees \<times> string list" where
  "release deg [] ready = (deg, ready)"
| "release deg (d # ds) ready =
     (case deg d of
        None \<Rightarrow> release deg ds ready
      | Some v \<Rightarrow> release (deg(d \<mapsto> v - 1)) ds (if v - 1 = 0 then ready @ [d] else ready))"

fun kahn_loop :: "nat \<Rightarrow> index \<Rightarrow> degrees \<Rightarrow> string list \<Rightarrow> string list \<Rightarrow> string list option" where
  "kahn_loop 0 dep deg queue order = None"
| "kahn_loop (Suc n) dep deg [] order = Some order"
| "kahn_loop (Suc n) dep deg (i # queue) order =
     (let (deg', ready) = release deg (map_default [] dep i) []
      in kahn_loop n dep deg' (queue @ sort ready) (order @ [i]))"

definition initial_queue :: "task list \<Rightarrow> degrees \<Rightarrow> string list" where
  "initial_queue ts deg = sort (filter (\<lambda>i. deg i = Some 0) (remdups (map task_id ts)))"

definition dangling_message :: "string \<Rightarrow> string \<Rightarrow> string" where
  "dangling_message t d = ''dangling dependency: task '' @ t @ '' depends on non-existent '' @ d"

definition kahn_core :: "task list \<Rightarrow> (quest_error, string list) result option" where
  "kahn_core ts =
     (case find_dangling (map task_id ts) ts of
        Some (t, d) \<Rightarrow> Some (Inl (DecompositionFailed (dangling_message t d)))
      | None \<Rightarrow>
          (let (deg, dep) = build_graph ts
           in case kahn_loop (length ts + 1) dep deg (initial_queue ts deg) [] of
                None \<Rightarrow> None
              | Some order \<Rightarrow>
                  if length order < length ts then Some (Inl CyclicDependency) else Some (Inr order)))"

definition validate_dag :: "task list \<Rightarrow> (quest_error, unit) result option" where
  "validate_dag ts = map_option (\<lambda>r. case r of Inl e \<Rightarrow> Inl e | Inr _ \<Rightarrow> Inr ()) (kahn_core ts)"

definition topological_order :: "task list \<Rightarrow> (quest_error, string list) result option" where
  "topological_order ts = kahn_core ts"

section \<open>The dependency relation\<close>

definition ids :: "task list \<Rightarrow> string set" where
  "ids ts = set (map task_id ts)"

text \<open>All dependencies declared under an identifier, with multiplicity.\<close>

definition deps_of :: "task list \<Rightarrow> string \<Rightarrow> string list" where
  "deps_of ts i = concat (map dependencies (filter (\<lambda>t. task_id t = i) ts))"

definition no_dangling :: "task list \<Rightarrow> bool" where
  "no_dangling ts \<longleftrightarrow> (\<forall>t \<in> set ts. set (dependencies t) \<subseteq> ids ts)"

definition dep_rel :: "task list \<Rightarrow> (string \<times> string) set" where
  "dep_rel ts = {(d, i). i \<in> ids ts \<and> d \<in> set (deps_of ts i)}"

lemma find_dangling_None: "find_dangling is ts = None \<longleftrightarrow> (\<forall>t \<in> set ts. set (dependencies t) \<subseteq> set is)"
proof (induction ts)
  case (Cons t ts)
  then show ?case
  proof (cases "List.find (\<lambda>d. d \<notin> set is) (dependencies t)")
    case (Some d)
    then have "d \<in> set (dependencies t)" "d \<notin> set is" by (auto simp: find_Some_iff)
    with Some show ?thesis by auto
  next
    case None
    then have "set (dependencies t) \<subseteq> set is" by (auto simp: find_None_iff)
    with None Cons show ?thesis by simp
  qed
qed simp

lemma find_dangling_Some:
  "find_dangling is ts = Some (i, d) \<Longrightarrow> \<exists>t \<in> set ts. task_id t = i \<and> d \<in> set (dependencies t) \<and> d \<notin> set is"
proof (induction ts)
  case (Cons t ts)
  show ?case
  proof (cases "List.find (\<lambda>d. d \<notin> set is) (dependencies t)")
    case (Some e)
    then have "e \<in> set (dependencies t)" "e \<notin> set is" by (auto simp: find_Some_iff)
    with Some Cons.prems show ?thesis by auto
  next
    case None
    with Cons show ?thesis by auto
  qed
qed simp

lemma deps_of_snoc: "deps_of (ts @ [t]) i = deps_of ts i @ (if task_id t = i then dependencies t else [])"
  by (simp add: deps_of_def)

lemma deps_of_ids: "no_dangling ts \<Longrightarrow> set (deps_of ts i) \<subseteq> ids ts"
  by (auto simp: no_dangling_def deps_of_def)

lemma init_degrees_eq: "init_degrees ts i = (if i \<in> ids ts then Some 0 else None)"
  by (induction ts rule: rev_induct) (auto simp: init_degrees_def ids_def map_default_def)

text \<open>The graph that has been built: degrees count declared dependencies, the index is their converse.\<close>

definition graph_of :: "string set \<Rightarrow> (string \<Rightarrow> string list) \<Rightarrow> degrees \<times> index \<Rightarrow> bool" where
  "graph_of I dp g \<longleftrightarrow>
     (\<forall>i \<in> I. fst g i = Some (length (dp i))) \<and>
     (\<forall>d i. count_list (map_default [] (snd g) d) i = count_list (dp i) d) \<and>
     (\<forall>d. set (map_default [] (snd g) d) \<subseteq> I)"

lemma add_edges:
  "graph_of I dp g \<Longrightarrow> tid \<in> I \<Longrightarrow> graph_of I (dp(tid := dp tid @ ds)) (foldl (add_edge tid) g ds)"
proof (induction ds arbitrary: dp g)
  case (Cons d ds)
  have "graph_of I (dp(tid := dp tid @ [d])) (add_edge tid g d)"
    using Cons.prems by (simp add: graph_of_def add_edge_def map_default_def [of 0])
  from Cons.IH [OF this Cons.prems(2)] show ?case
    unfolding fun_upd_upd fun_upd_same append_assoc foldl_Cons append_Cons append_Nil .
qed simp

lemma build_graph_correct: "graph_of (ids ts) (deps_of ts) (build_graph ts)"
proof -
  have "set (map task_id us) \<subseteq> I \<Longrightarrow> graph_of I dp g \<Longrightarrow>
      graph_of I (\<lambda>i. dp i @ deps_of us i) (foldl (\<lambda>g t. foldl (add_edge (task_id t)) g (dependencies t)) g us)" for us I dp g
  proof (induction us rule: rev_induct)
    case Nil
    then show ?case by (simp add: deps_of_def)
  next
    case (snoc t us)
    have "graph_of I ((\<lambda>i. dp i @ deps_of us i)(task_id t := (dp (task_id t) @ deps_of us (task_id t)) @ dependencies t))
        (foldl (add_edge (task_id t)) (foldl (\<lambda>g t. foldl (add_edge (task_id t)) g (dependencies t)) g us) (dependencies t))"
      using snoc by (intro add_edges) simp_all
    moreover have "(\<lambda>i. dp i @ deps_of us i)(task_id t := (dp (task_id t) @ deps_of us (task_id t)) @ dependencies t) =
        (\<lambda>i. dp i @ deps_of (us @ [t]) i)"
      by (auto simp: deps_of_snoc fun_eq_iff)
    ultimately show ?case by simp
  qed
  from this [of ts "ids ts" "\<lambda>i. []" "(init_degrees ts, Map.empty)"] show ?thesis
    by (simp add: build_graph_def graph_of_def init_degrees_eq ids_def)
qed

section \<open>One round of the loop\<close>

lemma release_correct:
  assumes "\<forall>i \<in> I. \<exists>v. deg i = Some v \<and> count_list ds i \<le> v" "set ds \<subseteq> I" "release deg ds ready = (deg', ready')"
  shows "(\<forall>i \<in> I. deg' i = Some (the (deg i) - count_list ds i)) \<and>
    (\<exists>new. ready' = ready @ new \<and> distinct new \<and> set new = {i \<in> set ds. the (deg i) = count_list ds i})"
  using assms
proof (induction ds arbitrary: deg ready)
  case Nil
  then show ?case by force
next
  case (Cons d ds)
  obtain v where v: "deg d = Some v" "count_list (d # ds) d \<le> v" using Cons.prems(1,2) by auto
  let ?deg = "deg(d \<mapsto> v - 1)" and ?ready = "if v - 1 = 0 then ready @ [d] else ready"
  have r: "\<forall>i \<in> I. \<exists>w. ?deg i = Some w \<and> count_list ds i \<le> w" using Cons.prems(1) v by fastforce
  have "set ds \<subseteq> I" "release ?deg ds ?ready = (deg', ready')" using Cons.prems(2,3) v by simp_all
  then obtain new where IH: "\<forall>i \<in> I. deg' i = Some (the (?deg i) - count_list ds i)" "ready' = ?ready @ new"
    "distinct new" "set new = {i \<in> set ds. the (?deg i) = count_list ds i}"
    using Cons.IH [OF r] by blast
  have a: "\<forall>i \<in> I. deg' i = Some (the (deg i) - count_list (d # ds) i)" using IH(1) v by auto
  have zero: "v - 1 = 0 \<longleftrightarrow> v = 1" "v - 1 = 0 \<Longrightarrow> d \<notin> set ds"
    using v(2) count_list_0_iff [of ds d] by auto
  let ?new = "(if v - 1 = 0 then [d] else []) @ new"
  have "ready' = ready @ ?new" using IH(2) by simp
  moreover have "distinct ?new" using IH(3,4) zero by auto
  moreover have "set ?new = {i \<in> set (d # ds). the (deg i) = count_list (d # ds) i}"
  proof (rule set_eqI)
    fix i
    show "i \<in> set ?new \<longleftrightarrow> i \<in> {i \<in> set (d # ds). the (deg i) = count_list (d # ds) i}"
    proof (cases "i = d")
      case True
      have "d \<in> set new \<longleftrightarrow> d \<in> set ds \<and> v - 1 = count_list ds d" using IH(4) by simp
      moreover have "v = Suc (count_list ds d) \<longleftrightarrow> v - 1 = count_list ds d" using v(2) by auto
      moreover have "d \<in> set ds \<longleftrightarrow> count_list ds d \<noteq> 0" by (simp add: count_list_0_iff)
      ultimately have "d \<in> set ?new \<longleftrightarrow> v = Suc (count_list ds d)" using v(2) by auto
      with True v(1) show ?thesis by simp
    next
      case False
      with IH(4) show ?thesis by simp
    qed
  qed
  ultimately show ?case using a by blast
qed

section \<open>The loop\<close>

text \<open>The dependencies of an identifier that the order does not yet hold.\<close>

definition open_deps :: "task list \<Rightarrow> string list \<Rightarrow> string \<Rightarrow> string list" where
  "open_deps ts order i = filter (\<lambda>d. d \<notin> set order) (deps_of ts i)"

definition deps_first :: "task list \<Rightarrow> string list \<Rightarrow> bool" where
  "deps_first ts order \<longleftrightarrow> (\<forall>xs i ys. order = xs @ i # ys \<longrightarrow> set (deps_of ts i) \<subseteq> set xs)"

definition kahn_inv :: "task list \<Rightarrow> degrees \<Rightarrow> string list \<Rightarrow> string list \<Rightarrow> bool" where
  "kahn_inv ts deg queue order \<longleftrightarrow>
     distinct (order @ queue) \<and> set (order @ queue) \<subseteq> ids ts \<and> deps_first ts order \<and>
     (\<forall>i \<in> ids ts. deg i = Some (length (open_deps ts order i))) \<and>
     (\<forall>i \<in> ids ts. i \<in> set (order @ queue) \<longleftrightarrow> open_deps ts order i = [])"

lemma open_deps_count:
  "i \<notin> set order \<Longrightarrow> length (open_deps ts order j) = length (open_deps ts (order @ [i]) j) + count_list (deps_of ts j) i"
proof -
  assume "i \<notin> set order"
  then have "length (filter (\<lambda>d. d \<notin> set order) ds) = length (filter (\<lambda>d. d \<notin> set (order @ [i])) ds) + count_list ds i" for ds
    by (induction ds) auto
  then show ?thesis by (simp add: open_deps_def)
qed

lemma deps_first_snoc: "deps_first ts order \<Longrightarrow> set (deps_of ts i) \<subseteq> set order \<Longrightarrow> deps_first ts (order @ [i])"
  unfolding deps_first_def by (metis append_eq_append_conv2 append_eq_Cons_conv append_is_Nil_conv append_self_conv append_self_conv2 butlast_snoc butlast_append list.distinct(1) self_append_conv last_snoc)

lemma open_deps_Nil: "open_deps ts order i = [] \<longleftrightarrow> set (deps_of ts i) \<subseteq> set order"
  by (auto simp: open_deps_def filter_empty_conv)

lemma kahn_step:
  assumes inv: "kahn_inv ts deg (i # queue) order" and g: "graph_of (ids ts) (deps_of ts) (deg0, dep)"
    and r: "release deg (map_default [] dep i) [] = (deg', ready)"
  shows "kahn_inv ts deg' (queue @ sort ready) (order @ [i])"
proof -
  let ?ds = "map_default [] dep i"
  have i: "i \<notin> set order" "i \<notin> set queue" "i \<in> ids ts" "set (deps_of ts i) \<subseteq> set order"
    using inv by (auto simp: kahn_inv_def open_deps_Nil)
  have cnt: "count_list ?ds j = count_list (deps_of ts j) i" for j using g by (simp add: graph_of_def)
  have deg: "\<forall>j \<in> ids ts. deg j = Some (length (open_deps ts order j))" using inv by (simp add: kahn_inv_def)
  have split: "length (open_deps ts order j) = length (open_deps ts (order @ [i]) j) + count_list ?ds j" for j
    using open_deps_count [OF i(1)] cnt by simp
  have "\<forall>j \<in> ids ts. \<exists>v. deg j = Some v \<and> count_list ?ds j \<le> v" using deg split by simp
  moreover have sub: "set ?ds \<subseteq> ids ts" using g by (simp add: graph_of_def)
  ultimately have rel: "\<forall>j \<in> ids ts. deg' j = Some (the (deg j) - count_list ?ds j)" "distinct ready"
      "set ready = {j \<in> set ?ds. the (deg j) = count_list ?ds j}"
    using release_correct [OF _ _ r] by auto
  have deg': "\<forall>j \<in> ids ts. deg' j = Some (length (open_deps ts (order @ [i]) j))" using rel(1) deg split by simp
  have ready: "j \<in> set ready \<longleftrightarrow> i \<in> set (deps_of ts j) \<and> open_deps ts (order @ [i]) j = []" if "j \<in> ids ts" for j
    using rel(3) deg that split [of j] cnt [of j] count_list_0_iff [of ?ds j] count_list_0_iff [of "deps_of ts j" i] by auto
  have mem: "\<forall>j \<in> ids ts. j \<in> set (order @ i # queue) \<longleftrightarrow> set (deps_of ts j) \<subseteq> set order"
    using inv by (simp add: kahn_inv_def open_deps_Nil)
  have rsub: "set ready \<subseteq> ids ts" using rel(3) sub by auto
  have new: "set ready \<inter> set (order @ i # queue) = {}"
  proof (rule ccontr)
    assume "set ready \<inter> set (order @ i # queue) \<noteq> {}"
    then obtain j where j: "j \<in> set ready" "j \<in> set (order @ i # queue)" by blast
    then have "i \<in> set (deps_of ts j)" "set (deps_of ts j) \<subseteq> set order" using ready mem rsub by blast+
    with i(1) show False by blast
  qed
  have "\<forall>j \<in> ids ts. j \<in> set ((order @ [i]) @ queue @ sort ready) \<longleftrightarrow> open_deps ts (order @ [i]) j = []"
    using ready mem by (auto simp: open_deps_Nil)
  moreover have "distinct ((order @ [i]) @ queue @ sort ready)" "set ((order @ [i]) @ queue @ sort ready) \<subseteq> ids ts"
    using inv new rsub rel(2) by (auto simp: kahn_inv_def)
  moreover have "deps_first ts (order @ [i])" using inv i(4) deps_first_snoc by (simp add: kahn_inv_def)
  ultimately show ?thesis using deg' by (simp add: kahn_inv_def)
qed

lemma finite_ids [simp]: "finite (ids ts)"
  by (simp add: ids_def)

lemma kahn_loop_runs:
  assumes "kahn_inv ts deg queue order" "graph_of (ids ts) (deps_of ts) (deg0, dep)" "card (ids ts) < n + length order"
  shows "\<exists>order' deg'. kahn_loop n dep deg queue order = Some order' \<and> kahn_inv ts deg' [] order'"
  using assms
proof (induction n dep deg queue order rule: kahn_loop.induct)
  case (1 dep deg queue order)
  then have "distinct order" "set order \<subseteq> ids ts" by (auto simp: kahn_inv_def)
  then have "length order \<le> card (ids ts)" by (metis card_mono distinct_card finite_ids)
  with 1 show ?case by simp
next
  case (3 n dep deg i queue order)
  obtain deg' ready where r: "release deg (map_default [] dep i) [] = (deg', ready)" by fastforce
  show ?case
    using 3(1) [OF r [symmetric] refl kahn_step [OF 3(2,3) r] 3(3)] 3(4) r by simp
qed auto

text \<open>With every dependency declared, the loop stops within its fuel in a state with an empty queue.\<close>

lemma kahn_core_runs:
  assumes "no_dangling ts"
  obtains order deg where "kahn_inv ts deg [] order"
    "kahn_core ts = Some (if length order < length ts then Inl CyclicDependency else Inr order)"
proof -
  obtain deg dep where b: "build_graph ts = (deg, dep)" by fastforce
  have g: "graph_of (ids ts) (deps_of ts) (deg, dep)" using build_graph_correct [of ts] b by simp
  then have deg: "\<forall>i \<in> ids ts. deg i = Some (length (deps_of ts i))" by (simp add: graph_of_def)
  have q: "set (initial_queue ts deg) = {i \<in> ids ts. deg i = Some 0}" "distinct (initial_queue ts deg)"
    by (auto simp: initial_queue_def ids_def)
  have inv: "kahn_inv ts deg (initial_queue ts deg) []"
    unfolding kahn_inv_def using q deg by (auto simp: open_deps_def deps_first_def)
  have card: "card (ids ts) < (length ts + 1) + length []"
    using card_length [of "map task_id ts"] by (simp add: ids_def)
  from assms have "find_dangling (map task_id ts) ts = None"
    by (simp add: find_dangling_None no_dangling_def ids_def)
  with that b kahn_loop_runs [OF inv g card] show thesis by (auto simp: kahn_core_def)
qed

lemma kahn_core_dangling:
  assumes "\<not> no_dangling ts"
  shows "\<exists>t \<in> set ts. \<exists>d \<in> set (dependencies t). d \<notin> ids ts \<and>
    kahn_core ts = Some (Inl (DecompositionFailed (dangling_message (task_id t) d)))"
proof -
  have "find_dangling (map task_id ts) ts \<noteq> None"
    using assms find_dangling_None [of "map task_id ts" ts] by (simp add: no_dangling_def ids_def)
  then obtain i d where f: "find_dangling (map task_id ts) ts = Some (i, d)" by auto
  obtain t where "t \<in> set ts" "task_id t = i" "d \<in> set (dependencies t)" "d \<notin> ids ts"
    using find_dangling_Some [OF f] by (auto simp: ids_def)
  moreover have "kahn_core ts = Some (Inl (DecompositionFailed (dangling_message i d)))" by (simp add: kahn_core_def f)
  ultimately show ?thesis by blast
qed

lemma order_complete:
  assumes inv: "kahn_inv ts deg [] order" and len: "length ts \<le> length order"
  shows "distinct (map task_id ts)" "mset order = mset (map task_id ts)"
proof -
  have o: "distinct order" "set order \<subseteq> set (map task_id ts)" using inv by (auto simp: kahn_inv_def ids_def)
  have "length order = card (set order)" using o(1) by (simp add: distinct_card)
  also have "\<dots> \<le> card (set (map task_id ts))" by (rule card_mono) (simp_all add: o(2) del: set_map)
  finally have c: "length order \<le> card (set (map task_id ts))" .
  have "card (set (map task_id ts)) \<le> length ts" using card_length [of "map task_id ts"] by simp
  with c len have e: "card (set (map task_id ts)) = length (map task_id ts)" by simp
  then show d: "distinct (map task_id ts)" by (rule card_distinct)
  have "set order = set (map task_id ts)"
  proof (rule card_subset_eq)
    show "card (set order) = card (set (map task_id ts))" using c len e distinct_card [OF o(1)] by simp
  qed (use o(2) in simp_all)
  with o(1) d show "mset order = mset (map task_id ts)" using set_eq_iff_mset_eq_distinct by blast
qed

lemma deps_first_acyclic:
  assumes "distinct order" "ids ts \<subseteq> set order" "deps_first ts order"
  shows "acyclic (dep_rel ts)"
proof -
  let ?pos = "\<lambda>x. length (takeWhile (\<lambda>y. y \<noteq> x) order)"
  have "?pos d < ?pos i" if "(d, i) \<in> dep_rel ts" for d i
  proof -
    have "i \<in> ids ts" "d \<in> set (deps_of ts i)" using that by (auto simp: dep_rel_def)
    then obtain xs ys where o: "order = xs @ i # ys" using assms(2) by (meson split_list subsetD)
    then have "d \<in> set xs" using assms(3) \<open>d \<in> set (deps_of ts i)\<close> unfolding deps_first_def by blast
    then obtain us vs where u: "xs = us @ d # vs" "d \<notin> set us" using split_list_first by metis
    have "i \<notin> set xs" using assms(1) o by simp
    then have "?pos i = length xs" by (auto simp: o takeWhile_append takeWhile_eq_all_conv)
    moreover have "?pos d = length us" using u by (auto simp: o takeWhile_append takeWhile_eq_all_conv)
    ultimately show ?thesis using u(1) by simp
  qed
  then have "dep_rel ts \<subseteq> measure ?pos" by auto
  then show ?thesis using wf_measure wf_subset wf_acyclic by blast
qed

lemma acyclic_completes:
  assumes inv: "kahn_inv ts deg [] order" and nd: "no_dangling ts" and ac: "acyclic (dep_rel ts)"
  shows "ids ts \<subseteq> set order"
proof -
  have "dep_rel ts \<subseteq> ids ts \<times> ids ts" using deps_of_ids [OF nd] by (auto simp: dep_rel_def)
  then have wf: "wf (dep_rel ts)" using ac finite_acyclic_wf finite_subset by (metis finite_SigmaI finite_ids)
  have "i \<in> ids ts \<longrightarrow> i \<in> set order" for i
  proof (induction i rule: wf_induct_rule [OF wf])
    case (1 i)
    show ?case
    proof
      assume i: "i \<in> ids ts"
      then have "set (deps_of ts i) \<subseteq> set order" using 1 deps_of_ids [OF nd, of i] by (auto simp: dep_rel_def)
      with i inv show "i \<in> set order" by (simp add: kahn_inv_def open_deps_Nil)
    qed
  qed
  then show ?thesis by blast
qed

lemma accepted_iff_acyclic:
  assumes inv: "kahn_inv ts deg [] order" and nd: "no_dangling ts"
  shows "length ts \<le> length order \<longleftrightarrow> distinct (map task_id ts) \<and> acyclic (dep_rel ts)"
proof
  have o: "distinct order" "deps_first ts order" using inv by (auto simp: kahn_inv_def)
  {
    assume "length ts \<le> length order"
    note c = order_complete [OF inv this]
    have "ids ts \<subseteq> set order" using mset_eq_setD [OF c(2)] by (simp add: ids_def)
    with c(1) deps_first_acyclic o show "distinct (map task_id ts) \<and> acyclic (dep_rel ts)" by blast
  next
    assume d: "distinct (map task_id ts) \<and> acyclic (dep_rel ts)"
    then have "ids ts \<subseteq> set order" using acyclic_completes inv nd by blast
    then have "card (ids ts) \<le> length order" using card_mono [of "set order"] distinct_card [OF o(1)] by simp
    with d show "length ts \<le> length order" using distinct_card [of "map task_id ts"] by (simp add: ids_def)
  }
qed

section \<open>What the check decides\<close>

text \<open>
  C36: an order that \<^verbatim>\<open>topological_order\<close> returns holds every task identifier exactly once, and
  each identifier stands after every dependency that any task declares under it.
\<close>

theorem topological_order_correct:
  assumes "topological_order ts = Some (Inr order)"
  shows "mset order = mset (map task_id ts) \<and>
    (\<forall>xs i ys. order = xs @ i # ys \<longrightarrow> (\<forall>t \<in> set ts. task_id t = i \<longrightarrow> set (dependencies t) \<subseteq> set xs))"
proof (rule conjI)
  have nd: "no_dangling ts" using assms kahn_core_dangling [of ts] by (auto simp: topological_order_def)
  obtain order' deg where k: "kahn_inv ts deg [] order'"
    "kahn_core ts = Some (if length order' < length ts then Inl CyclicDependency else Inr order')"
    using kahn_core_runs [OF nd] by blast
  with assms have inv: "kahn_inv ts deg [] order" and len: "length ts \<le> length order"
    by (auto simp: topological_order_def split: if_splits)
  show "mset order = mset (map task_id ts)" using order_complete [OF inv len] by blast
  show "\<forall>xs i ys. order = xs @ i # ys \<longrightarrow> (\<forall>t \<in> set ts. task_id t = i \<longrightarrow> set (dependencies t) \<subseteq> set xs)"
  proof (intro allI ballI impI)
    fix xs i ys t
    assume "order = xs @ i # ys" "t \<in> set ts" "task_id t = i"
    then have "set (deps_of ts i) \<subseteq> set xs" using inv unfolding kahn_inv_def deps_first_def by blast
    moreover have "set (dependencies t) \<subseteq> set (deps_of ts i)" using \<open>t \<in> set ts\<close> \<open>task_id t = i\<close> by (auto simp: deps_of_def)
    ultimately show "set (dependencies t) \<subseteq> set xs" by blast
  qed
qed

lemma validate_accepts:
  assumes "no_dangling ts" "distinct (map task_id ts)" "acyclic (dep_rel ts)"
  shows "validate_dag ts = Some (Inr ())"
proof -
  obtain order deg where inv: "kahn_inv ts deg [] order"
    and k: "kahn_core ts = Some (if length order < length ts then Inl CyclicDependency else Inr order)"
    using kahn_core_runs [OF assms(1)] by blast
  have "length ts \<le> length order" using accepted_iff_acyclic [OF inv assms(1)] assms(2,3) by blast
  then show ?thesis using k by (simp add: validate_dag_def)
qed

definition build_then_test :: "task list" where
  "build_then_test =
     [\<lparr>task_id = ''test'', description = ''run the tests'', status = TaskPending, dependencies = [''build'']\<rparr>,
      \<lparr>task_id = ''build'', description = ''compile'', status = TaskPending, dependencies = []\<rparr>]"

lemma build_then_test_graph:
  "build_graph build_then_test =
     ([''test'' \<mapsto> 1, ''build'' \<mapsto> 0], [''build'' \<mapsto> [''test'']])"
  by (simp add: build_graph_def build_then_test_def init_degrees_def add_edge_def fun_upd_twist)

theorem topological_order_correct_witness:
  "topological_order build_then_test = Some (Inr [''build'', ''test'']) \<and>
   mset [''build'', ''test''] = mset (map task_id build_then_test)"
proof -
  have q: "initial_queue build_then_test [''test'' \<mapsto> 1, ''build'' \<mapsto> 0] = [''build'']"
    by (simp add: initial_queue_def build_then_test_def)
  have "topological_order build_then_test = Some (Inr [''build'', ''test''])"
    unfolding topological_order_def kahn_core_def build_then_test_graph prod.case Let_def q
    by (simp add: build_then_test_def map_default_def numeral_2_eq_2)
  with topological_order_correct [OF this] show ?thesis by blast
qed

text \<open>
  C37: the check always decides, within the fuel of one round per task and one more: it accepts
  exactly the task lists in which identifiers are unique, every dependency is declared and the
  dependency relation is acyclic; a missing dependency is always reported by the names of a task and
  of a dependency of it that no task declares, and everything else, a repeated identifier included, is reported as a cycle.
\<close>

theorem validate_dag_decides:
  "(validate_dag ts = Some (Inr ()) \<longleftrightarrow> no_dangling ts \<and> distinct (map task_id ts) \<and> acyclic (dep_rel ts)) \<and>
   (validate_dag ts = Some (Inl CyclicDependency) \<longleftrightarrow> no_dangling ts \<and> \<not> (distinct (map task_id ts) \<and> acyclic (dep_rel ts))) \<and>
   ((\<exists>t \<in> set ts. \<exists>d \<in> set (dependencies t). d \<notin> ids ts \<and>
       validate_dag ts = Some (Inl (DecompositionFailed (dangling_message (task_id t) d)))) \<longleftrightarrow> \<not> no_dangling ts)"
proof (cases "no_dangling ts")
  case True
  obtain order deg where inv: "kahn_inv ts deg [] order"
    and k: "kahn_core ts = Some (if length order < length ts then Inl CyclicDependency else Inr order)"
    using kahn_core_runs [OF True] by blast
  show ?thesis
    using accepted_iff_acyclic [OF inv True] True by (auto simp: validate_dag_def k)
next
  case False
  obtain t d where "t \<in> set ts" "d \<in> set (dependencies t)" "d \<notin> ids ts"
    "kahn_core ts = Some (Inl (DecompositionFailed (dangling_message (task_id t) d)))"
    using kahn_core_dangling [OF False] by blast
  then show ?thesis using False by (auto simp: validate_dag_def)
qed

end
