(* ===== verification/Sse.thy ===== *)
theory Sse
  imports Prelude "HOL-Library.Multiset"
begin

text \<open>
  The stream normaliser of the model gateway, \<^verbatim>\<open>mca-gateway/src/sse.rs\<close>: the incremental parser that
  cuts the bytes of a response into frames, and the three dialects that turn a frame into stream
  events. The JSON library is the record \<open>json_api\<close> over its own type of values, and the functions of the
  standard library that depend on Unicode tables are the record \<open>text_lib\<close>; nothing is assumed of either
  where no theorem says so.
\<close>

section \<open>Types\<close>

datatype finish_reason = FinishStop | FinishMaxTokens | FinishToolUse | FinishContentFilter | FinishOther

datatype protocol_dialect = OpenAiChat | AnthropicMessages | OpenAiResponses

record usage_report =
  input_tokens :: u64
  output_tokens :: u64
  cache_hit_tokens :: u64
  thinking_tokens :: "u64 option"

datatype stream_event =
    TextDelta string
  | ThinkingDelta string
  | ToolCallStart u32 string string
  | ToolCallDelta u32 string
  | ToolCallEnd u32
  | Usage usage_report
  | Done finish_reason
  | Unknown string

record sse_frame =
  frame_event :: "string option"
  frame_data :: string

record 'v json_api =
  from_str :: "string \<Rightarrow> 'v option"
  get_key :: "'v \<Rightarrow> string \<Rightarrow> 'v option"
  pointer :: "'v \<Rightarrow> string \<Rightarrow> 'v option"
  as_str :: "'v \<Rightarrow> string option"
  as_u64 :: "'v \<Rightarrow> u64 option"
  as_array :: "'v \<Rightarrow> 'v list option"
  is_null :: "'v \<Rightarrow> bool"

record text_lib =
  from_utf8_lossy :: "bytes \<Rightarrow> string"
  trim_start :: "string \<Rightarrow> string"
  trim :: "string \<Rightarrow> string"

section \<open>Frames\<close>

abbreviation LF :: byte where "LF \<equiv> 10"
abbreviation CR :: byte where "CR \<equiv> 13"

text \<open>Where the content of the first frame ends, and where the frame behind it begins.\<close>

fun boundary_from :: "nat \<Rightarrow> bytes \<Rightarrow> (nat \<times> nat) option" where
  "boundary_from i [] = None"
| "boundary_from i (b # bs) =
     (if b = LF \<and> take 1 bs = [LF] then Some (i, i + 2)
      else if b = LF \<and> take 2 bs = [CR, LF] then Some (i, i + 3)
      else boundary_from (i + 1) bs)"

definition find_frame_boundary :: "bytes \<Rightarrow> (nat \<times> nat) option" where
  "find_frame_boundary buf = boundary_from 0 buf"

definition strip_suffix_cr :: "string \<Rightarrow> string" where
  "strip_suffix_cr s = (if s \<noteq> [] \<and> last s = CHR 0x0D then butlast s else s)"

definition strip_prefix :: "string \<Rightarrow> string \<Rightarrow> string option" where
  "strip_prefix p s = (if take (length p) s = p then Some (drop (length p) s) else None)"

text \<open>\<^verbatim>\<open>str::lines\<close>: a line ends with a line feed, which may have one carriage return in front of it.\<close>

function lines_of :: "string \<Rightarrow> string list" where
  "lines_of s =
     (if s = [] then []
      else (case dropWhile (\<lambda>c. c \<noteq> CHR 0x0A) s of
              [] \<Rightarrow> [s]
            | _ # rest \<Rightarrow> strip_suffix_cr (takeWhile (\<lambda>c. c \<noteq> CHR 0x0A) s) # lines_of rest))"
  by pat_completeness auto

termination lines_of
proof (relation "measure length", simp)
  fix s :: string and x rest
  assume "s \<noteq> []" "dropWhile (\<lambda>c. c \<noteq> CHR 0x0A) s = x # rest"
  then show "(rest, s) \<in> measure length"
    using length_dropWhile_le [of "\<lambda>c. c \<noteq> CHR 0x0A" s] by simp
qed

declare lines_of.simps [simp del]

text \<open>The loop of \<^verbatim>\<open>parse_frame\<close> over the lines.\<close>

fun parse_lines :: "text_lib \<Rightarrow> string list \<Rightarrow> string option \<Rightarrow> string list \<Rightarrow> string option \<times> string list" where
  "parse_lines lib [] ev data = (ev, data)"
| "parse_lines lib (l # ls) ev data =
     (let l = strip_suffix_cr l
      in case strip_prefix ''event:'' l of
           Some rest \<Rightarrow> parse_lines lib ls (Some (trim_start lib rest)) data
         | None \<Rightarrow>
             (case strip_prefix ''data:'' l of
                Some rest \<Rightarrow>
                  parse_lines lib ls ev (data @ [case strip_prefix '' '' rest of Some r \<Rightarrow> r | None \<Rightarrow> rest])
              | None \<Rightarrow> parse_lines lib ls ev data))"

fun join_lines :: "string list \<Rightarrow> string" where
  "join_lines [] = []"
| "join_lines [l] = l"
| "join_lines (l # ls) = l @ CHR 0x0A # join_lines ls"

definition parse_frame :: "text_lib \<Rightarrow> bytes \<Rightarrow> sse_frame option" where
  "parse_frame lib bs =
     (case parse_lines lib (lines_of (from_utf8_lossy lib bs)) None [] of
        (ev, data) \<Rightarrow>
          if ev = None \<and> data = [] then None else Some \<lparr>frame_event = ev, frame_data = join_lines data\<rparr>)"

record sse_parser =
  buf :: bytes

definition parser_new :: sse_parser where
  "parser_new = \<lparr>buf = []\<rparr>"

lemma boundary_bounds: "boundary_from i bs = Some (s, e) \<Longrightarrow> i \<le> s \<and> s < e \<and> e \<le> i + length bs"
  by (induction bs arbitrary: i) (fastforce simp: take_Cons split: if_splits nat.splits dest: arg_cong [where f = length])+

text \<open>The loop of \<^verbatim>\<open>feed\<close>: the frames, and the bytes that stay in the buffer.\<close>

function cut_frames :: "text_lib \<Rightarrow> bytes \<Rightarrow> sse_frame list \<times> bytes" where
  "cut_frames lib b =
     (case find_frame_boundary b of
        None \<Rightarrow> ([], b)
      | Some (s, e) \<Rightarrow>
          (case cut_frames lib (drop e b) of
             (frames, rest) \<Rightarrow>
               ((case parse_frame lib (take s b) of None \<Rightarrow> frames | Some f \<Rightarrow> f # frames), rest)))"
  by pat_completeness auto

termination cut_frames
  by (relation "measure (\<lambda>(lib, b). length b)") (auto simp: find_frame_boundary_def dest: boundary_bounds)

declare cut_frames.simps [simp del]

definition parser_feed :: "text_lib \<Rightarrow> sse_parser \<Rightarrow> bytes \<Rightarrow> sse_parser \<times> sse_frame list" where
  "parser_feed lib p chunk = (case cut_frames lib (buf p @ chunk) of (frames, rest) \<Rightarrow> (p\<lparr>buf := rest\<rparr>, frames))"

definition pending_bytes :: "sse_parser \<Rightarrow> nat" where
  "pending_bytes p = length (buf p)"

section \<open>Dialects\<close>

record stream_normalizer =
  norm_parser :: sse_parser
  dialect :: protocol_dialect
  tool_block_indices :: "u32 list"

definition normalizer_new :: "protocol_dialect \<Rightarrow> stream_normalizer" where
  "normalizer_new d = \<lparr>norm_parser = parser_new, dialect = d, tool_block_indices = []\<rparr>"

fun position :: "'a \<Rightarrow> 'a list \<Rightarrow> nat option" where
  "position x [] = None"
| "position x (y # ys) = (if y = x then Some 0 else map_option Suc (position x ys))"

definition swap_remove :: "'a list \<Rightarrow> nat \<Rightarrow> 'a list" where
  "swap_remove xs i = butlast (xs[i := last xs])"

definition and_then :: "'a option \<Rightarrow> ('a \<Rightarrow> 'b option) \<Rightarrow> 'b option" where
  "and_then = Option.bind"

definition str_field :: "'v json_api \<Rightarrow> 'v option \<Rightarrow> string \<Rightarrow> string" where
  "str_field api container key =
     (case and_then (and_then container (\<lambda>c. get_key api c key)) (as_str api) of Some s \<Rightarrow> s | None \<Rightarrow> [])"

definition u64_field :: "'v json_api \<Rightarrow> 'v \<Rightarrow> string \<Rightarrow> u64" where
  "u64_field api v key = (case and_then (get_key api v key) (as_u64 api) of Some n \<Rightarrow> n | None \<Rightarrow> 0)"

definition index_field :: "'v json_api \<Rightarrow> 'v \<Rightarrow> string \<Rightarrow> u32" where
  "index_field api v key = ucast (u64_field api v key)"

definition has_type :: "'v json_api \<Rightarrow> 'v option \<Rightarrow> string \<Rightarrow> bool" where
  "has_type api v t \<longleftrightarrow> and_then (and_then v (\<lambda>b. get_key api b ''type'')) (as_str api) = Some t"

definition openai_usage :: "'v json_api \<Rightarrow> 'v \<Rightarrow> usage_report" where
  "openai_usage api u =
     \<lparr>input_tokens = u64_field api u ''prompt_tokens'', output_tokens = u64_field api u ''completion_tokens'',
      cache_hit_tokens = u64_field api u ''prompt_cache_hit_tokens'',
      thinking_tokens = and_then (pointer api u ''/completion_tokens_details/reasoning_tokens'') (as_u64 api)\<rparr>"

definition anthropic_usage :: "'v json_api \<Rightarrow> 'v \<Rightarrow> usage_report" where
  "anthropic_usage api u =
     \<lparr>input_tokens = u64_field api u ''input_tokens'', output_tokens = u64_field api u ''output_tokens'',
      cache_hit_tokens = u64_field api u ''cache_read_input_tokens'', thinking_tokens = None\<rparr>"

definition responses_usage :: "'v json_api \<Rightarrow> 'v \<Rightarrow> usage_report" where
  "responses_usage api u =
     \<lparr>input_tokens = u64_field api u ''input_tokens'', output_tokens = u64_field api u ''output_tokens'',
      cache_hit_tokens =
        (case and_then (pointer api u ''/input_tokens_details/cached_tokens'') (as_u64 api) of Some n \<Rightarrow> n | None \<Rightarrow> 0),
      thinking_tokens = and_then (pointer api u ''/output_tokens_details/reasoning_tokens'') (as_u64 api)\<rparr>"

definition map_openai_finish :: "string \<Rightarrow> finish_reason" where
  "map_openai_finish raw =
     (if raw = ''stop'' then FinishStop else if raw = ''length'' then FinishMaxTokens
      else if raw = ''tool_calls'' then FinishToolUse else if raw = ''content_filter'' then FinishContentFilter
      else FinishOther)"

definition map_anthropic_stop :: "string \<Rightarrow> finish_reason" where
  "map_anthropic_stop raw =
     (if raw = ''end_turn'' \<or> raw = ''stop_sequence'' then FinishStop else if raw = ''max_tokens'' then FinishMaxTokens
      else if raw = ''tool_use'' then FinishToolUse else if raw = ''refusal'' then FinishContentFilter
      else FinishOther)"

text \<open>A frame whose data is not JSON is kept as text unless it is empty.\<close>

definition unparsed :: "sse_frame \<Rightarrow> stream_event list" where
  "unparsed f = (if frame_data f = [] then [] else [Unknown (frame_data f)])"

text \<open>A stop frame closes the block of its index if that is an open tool block.\<close>

definition close_block :: "u32 \<Rightarrow> u32 list \<Rightarrow> u32 list \<times> stream_event list" where
  "close_block i opn =
     (case position i opn of None \<Rightarrow> (opn, []) | Some p \<Rightarrow> (swap_remove opn p, [ToolCallEnd i]))"

definition normalize_anthropic_frame ::
  "'v json_api \<Rightarrow> sse_frame \<Rightarrow> u32 list \<Rightarrow> u32 list \<times> stream_event list" where
  "normalize_anthropic_frame api f opn =
     (case from_str api (frame_data f) of
        None \<Rightarrow> (opn, unparsed f)
      | Some root \<Rightarrow>
          (let ev = (case frame_event f of Some e \<Rightarrow> e | None \<Rightarrow> []); index = index_field api root ''index''
           in if ev = ''content_block_start'' then
                (let block = get_key api root ''content_block''
                 in if has_type api block ''tool_use''
                    then (opn @ [index], [ToolCallStart index (str_field api block ''id'') (str_field api block ''name'')])
                    else (opn, []))
              else if ev = ''content_block_delta'' then
                (let delta = get_key api root ''delta''
                 in (opn,
                     if has_type api delta ''text_delta'' then [TextDelta (str_field api delta ''text'')]
                     else if has_type api delta ''thinking_delta'' then [ThinkingDelta (str_field api delta ''thinking'')]
                     else if has_type api delta ''input_json_delta'' then [ToolCallDelta index (str_field api delta ''partial_json'')]
                     else if has_type api delta ''signature_delta'' then []
                     else [Unknown (frame_data f)]))
              else if ev = ''content_block_stop'' then close_block index opn
              else if ev = ''message_delta'' then
                (opn,
                 case and_then (pointer api root ''/delta/stop_reason'') (as_str api) of
                   None \<Rightarrow> []
                 | Some reason \<Rightarrow>
                     (case get_key api root ''usage'' of None \<Rightarrow> [] | Some u \<Rightarrow> [Usage (anthropic_usage api u)]) @
                     [Done (map_anthropic_stop reason)])
              else if ev = ''message_start'' then
                (opn, case pointer api root ''/message/usage'' of None \<Rightarrow> [] | Some u \<Rightarrow> [Usage (anthropic_usage api u)])
              else if ev = ''ping'' \<or> ev = ''message_stop'' then (opn, [])
              else (opn, [Unknown (frame_data f)])))"

definition responses_lifecycle :: "string list" where
  "responses_lifecycle =
     [''response.created'', ''response.in_progress'', ''response.output_text.done'', ''response.content_part.added'',
      ''response.content_part.done'', ''response.reasoning_summary_text.done'', ''response.function_call_arguments.done'']"

definition normalize_responses_frame ::
  "'v json_api \<Rightarrow> sse_frame \<Rightarrow> u32 list \<Rightarrow> u32 list \<times> stream_event list" where
  "normalize_responses_frame api f opn =
     (case from_str api (frame_data f) of
        None \<Rightarrow> (opn, unparsed f)
      | Some root \<Rightarrow>
          (let ev = (case frame_event f of Some e \<Rightarrow> e | None \<Rightarrow> []); index = index_field api root ''output_index''
           in if ev = ''response.output_text.delta'' then (opn, [TextDelta (str_field api (Some root) ''delta'')])
              else if ev = ''response.reasoning_summary_text.delta'' \<or> ev = ''response.reasoning_text.delta'' then
                (opn, [ThinkingDelta (str_field api (Some root) ''delta'')])
              else if ev = ''response.output_item.added'' then
                (let item = get_key api root ''item''
                 in if has_type api item ''function_call''
                    then (opn @ [index], [ToolCallStart index (str_field api item ''call_id'') (str_field api item ''name'')])
                    else (opn, []))
              else if ev = ''response.function_call_arguments.delta'' then
                (opn, [ToolCallDelta index (str_field api (Some root) ''delta'')])
              else if ev = ''response.output_item.done'' then close_block index opn
              else if ev = ''response.completed'' \<or> ev = ''response.incomplete'' then
                (opn,
                 (case pointer api root ''/response/usage'' of None \<Rightarrow> [] | Some u \<Rightarrow> [Usage (responses_usage api u)]) @
                 [Done (if (case and_then (pointer api root ''/response/output'') (as_array api) of
                              None \<Rightarrow> False
                            | Some xs \<Rightarrow> list_ex (\<lambda>x. has_type api (Some x) ''function_call'') xs)
                        then FinishToolUse
                        else if frame_event f = Some ''response.incomplete'' then FinishMaxTokens
                        else FinishStop)])
              else if ev \<in> set responses_lifecycle then (opn, [])
              else (opn, [Unknown (frame_data f)])))"

definition normalize_openai_tool_delta :: "'v json_api \<Rightarrow> 'v \<Rightarrow> stream_event list" where
  "normalize_openai_tool_delta api call =
     (let index = index_field api call ''index'';
          fn = get_key api call ''function'';
          name = str_field api fn ''name''
      in (if name = [] then [] else [ToolCallStart index (str_field api (Some call) ''id'') name]) @
         (case and_then (and_then fn (\<lambda>g. get_key api g ''arguments'')) (as_str api) of
            None \<Rightarrow> []
          | Some args \<Rightarrow> if args = [] then [] else [ToolCallDelta index args]))"

definition nonempty_text :: "'v json_api \<Rightarrow> 'v \<Rightarrow> string \<Rightarrow> (string \<Rightarrow> stream_event) \<Rightarrow> stream_event list" where
  "nonempty_text api delta key mk =
     (case and_then (get_key api delta key) (as_str api) of
        None \<Rightarrow> [] | Some t \<Rightarrow> if t = [] then [] else [mk t])"

definition normalize_openai_frame :: "text_lib \<Rightarrow> 'v json_api \<Rightarrow> sse_frame \<Rightarrow> stream_event list" where
  "normalize_openai_frame lib api f =
     (if trim lib (frame_data f) = ''[DONE]'' then []
      else (case from_str api (frame_data f) of
        None \<Rightarrow> unparsed f
      | Some root \<Rightarrow>
          (case get_key api root ''usage'' of
             None \<Rightarrow> []
           | Some u \<Rightarrow> if is_null api u then [] else [Usage (openai_usage api u)]) @
          (case pointer api root ''/choices/0'' of
             None \<Rightarrow> if get_key api root ''usage'' = None then [Unknown (frame_data f)] else []
           | Some choice \<Rightarrow>
               (case get_key api choice ''delta'' of
                  None \<Rightarrow> []
                | Some delta \<Rightarrow>
                    nonempty_text api delta ''reasoning_content'' ThinkingDelta @
                    nonempty_text api delta ''content'' TextDelta @
                    (case and_then (get_key api delta ''tool_calls'') (as_array api) of
                       None \<Rightarrow> []
                     | Some calls \<Rightarrow> concat (map (normalize_openai_tool_delta api) calls))) @
               (case and_then (get_key api choice ''finish_reason'') (as_str api) of
                  None \<Rightarrow> []
                | Some reason \<Rightarrow> [Done (map_openai_finish reason)]))))"

definition normalize_frame ::
  "text_lib \<Rightarrow> 'v json_api \<Rightarrow> protocol_dialect \<Rightarrow> sse_frame \<Rightarrow> u32 list \<Rightarrow> u32 list \<times> stream_event list" where
  "normalize_frame lib api d f opn =
     (case d of
        OpenAiChat \<Rightarrow> (opn, normalize_openai_frame lib api f)
      | AnthropicMessages \<Rightarrow> normalize_anthropic_frame api f opn
      | OpenAiResponses \<Rightarrow> normalize_responses_frame api f opn)"

fun normalize_frames ::
  "text_lib \<Rightarrow> 'v json_api \<Rightarrow> protocol_dialect \<Rightarrow> sse_frame list \<Rightarrow> u32 list \<Rightarrow> u32 list \<times> stream_event list" where
  "normalize_frames lib api d [] opn = (opn, [])"
| "normalize_frames lib api d (f # fs) opn =
     (case normalize_frame lib api d f opn of
        (opn1, evs1) \<Rightarrow> (case normalize_frames lib api d fs opn1 of (opn2, evs2) \<Rightarrow> (opn2, evs1 @ evs2)))"

definition normalizer_feed ::
  "text_lib \<Rightarrow> 'v json_api \<Rightarrow> stream_normalizer \<Rightarrow> bytes \<Rightarrow> stream_normalizer \<times> stream_event list" where
  "normalizer_feed lib api n chunk =
     (case parser_feed lib (norm_parser n) chunk of
        (p, frames) \<Rightarrow>
          (case normalize_frames lib api (dialect n) frames (tool_block_indices n) of
             (opn, evs) \<Rightarrow> (n\<lparr>norm_parser := p, tool_block_indices := opn\<rparr>, evs)))"

end
