(* ===== verification/Sse_Stream.thy ===== *)
theory Sse_Stream
  imports Sse
begin

text \<open>
  The properties of the stream normaliser: the events do not depend on how the network cuts the
  bytes, every frame that is written is read back, and tool calls are closed only after they were opened.
\<close>

section \<open>The contract of an incremental cutter\<close>

text \<open>
  A cutter takes a first item from the front of the bytes and does not change its mind when more bytes
  come; draining repeats it until nothing more can be cut. From this alone the items of a stream do not
  depend on its chunks.
\<close>

locale incremental =
  fixes cut :: "'a list \<Rightarrow> ('f list \<times> 'a list) option"
    and drain :: "'a list \<Rightarrow> 'f list \<times> 'a list"
  assumes cut_extend: "cut b = Some (fs, r) \<Longrightarrow> cut (b @ c) = Some (fs, r @ c)"
    and cut_shrinks: "cut b = Some (fs, r) \<Longrightarrow> length r < length b"
    and drain_unfold: "drain b = (case cut b of None \<Rightarrow> ([], b) | Some (fs, r) \<Rightarrow> (fs @ fst (drain r), snd (drain r)))"
begin

lemma drain_append: "drain (b @ c) = (fst (drain b) @ fst (drain (snd (drain b) @ c)), snd (drain (snd (drain b) @ c)))"
proof (induction "length b" arbitrary: b rule: less_induct)
  case less
  show ?case
  proof (cases "cut b")
    case None
    then show ?thesis using drain_unfold [of b] by simp
  next
    case (Some p)
    obtain fs r where p: "p = (fs, r)" by (rule prod.exhaust)
    have "drain (r @ c) = (fst (drain r) @ fst (drain (snd (drain r) @ c)), snd (drain (snd (drain r) @ c)))"
      using less cut_shrinks [of b fs r] Some p by blast
    then show ?thesis
      using drain_unfold [of b] drain_unfold [of "b @ c"] cut_extend [of b fs r c] Some p by simp
  qed
qed

lemma drain_rest: "cut (snd (drain b)) = None"
proof (induction "length b" arbitrary: b rule: less_induct)
  case less
  show ?case
  proof (cases "cut b")
    case None
    then show ?thesis using drain_unfold [of b] by simp
  next
    case (Some p)
    then show ?thesis using less cut_shrinks drain_unfold [of b] by (cases p) simp
  qed
qed

end

definition cut_frame :: "text_lib \<Rightarrow> bytes \<Rightarrow> (sse_frame list \<times> bytes) option" where
  "cut_frame lib b =
     (case find_frame_boundary b of
        None \<Rightarrow> None
      | Some (s, e) \<Rightarrow> Some (case parse_frame lib (take s b) of None \<Rightarrow> [] | Some f \<Rightarrow> [f], drop e b))"

lemma boundary_extend: "boundary_from i b = Some (s, e) \<Longrightarrow> boundary_from i (b @ c) = Some (s, e)"
proof (induction b arbitrary: i)
  case (Cons x b)
  show ?case
  proof (cases b)
    case b: (Cons y ys)
    then show ?thesis using Cons.IH [of "i + 1"] Cons.prems by (cases ys) (auto split: if_splits)
  qed (use Cons.prems in simp)
qed simp

lemma cut_frames_unfold:
  "cut_frames lib b = (case cut_frame lib b of None \<Rightarrow> ([], b) | Some (fs, r) \<Rightarrow> (fs @ fst (cut_frames lib r), snd (cut_frames lib r)))"
  by (subst cut_frames.simps) (auto simp: cut_frame_def split: option.splits prod.splits)

interpretation frames: incremental "cut_frame lib" "cut_frames lib" for lib
proof
  fix b c :: bytes and fs r
  assume "cut_frame lib b = Some (fs, r)"
  then obtain s e where b: "find_frame_boundary b = Some (s, e)"
    and fs: "fs = (case parse_frame lib (take s b) of None \<Rightarrow> [] | Some f \<Rightarrow> [f])" "r = drop e b"
    by (auto simp: cut_frame_def split: option.splits)
  have "s < e" "e \<le> length b" using b boundary_bounds [of 0 b s e] by (simp_all add: find_frame_boundary_def)
  then show "length r < length b" using fs by simp
  show "cut_frame lib (b @ c) = Some (fs, r @ c)"
    using b boundary_extend [of 0 b s e c] fs \<open>s < e\<close> \<open>e \<le> length b\<close> by (simp add: cut_frame_def find_frame_boundary_def)
qed (rule cut_frames_unfold)

section \<open>Streams\<close>

fun parser_feeds :: "text_lib \<Rightarrow> sse_parser \<Rightarrow> bytes list \<Rightarrow> sse_parser \<times> sse_frame list" where
  "parser_feeds lib p [] = (p, [])"
| "parser_feeds lib p (c # cs) =
     (case parser_feed lib p c of (p1, fs) \<Rightarrow> (case parser_feeds lib p1 cs of (p2, gs) \<Rightarrow> (p2, fs @ gs)))"

fun normalizer_feeds ::
  "text_lib \<Rightarrow> 'v json_api \<Rightarrow> stream_normalizer \<Rightarrow> bytes list \<Rightarrow> stream_normalizer \<times> stream_event list" where
  "normalizer_feeds lib api n [] = (n, [])"
| "normalizer_feeds lib api n (c # cs) =
     (case normalizer_feed lib api n c of (n1, es) \<Rightarrow> (case normalizer_feeds lib api n1 cs of (n2, gs) \<Rightarrow> (n2, es @ gs)))"

lemma parser_feeds_concat:
  assumes "find_frame_boundary (buf p) = None"
  shows "parser_feeds lib p cs = parser_feed lib p (concat cs)"
  using assms
proof (induction cs arbitrary: p)
  case Nil
  then have "cut_frames lib (buf p) = ([], buf p)" by (subst cut_frames.simps) simp
  then show ?case by (simp add: parser_feed_def)
next
  case (Cons c cs)
  let ?p = "p\<lparr>buf := snd (cut_frames lib (buf p @ c))\<rparr>"
  have "cut_frame lib (snd (cut_frames lib (buf p @ c))) = None" by (rule frames.drain_rest)
  then have "find_frame_boundary (buf ?p) = None" by (auto simp: cut_frame_def split: option.splits)
  then have ih: "parser_feeds lib ?p cs = parser_feed lib ?p (concat cs)" by (rule Cons.IH)
  have "parser_feed lib p c = (?p, fst (cut_frames lib (buf p @ c)))" by (simp add: parser_feed_def split: prod.splits)
  then show ?case using ih frames.drain_append [of lib "buf p @ c" "concat cs"]
    by (simp add: parser_feed_def split: prod.splits)
qed

lemma normalize_frames_append:
  "normalize_frames lib api d (fs @ gs) opn =
     (case normalize_frames lib api d fs opn of
        (opn1, es) \<Rightarrow> (case normalize_frames lib api d gs opn1 of (opn2, hs) \<Rightarrow> (opn2, es @ hs)))"
  by (induction fs arbitrary: opn) (simp_all split: prod.splits)

text \<open>Normalising a stream is cutting it and then normalising its frames.\<close>

lemma normalizer_feeds_frames:
  "normalizer_feeds lib api n cs =
     (case parser_feeds lib (norm_parser n) cs of
        (p, fs) \<Rightarrow> (case normalize_frames lib api (dialect n) fs (tool_block_indices n) of
           (opn, es) \<Rightarrow> (n\<lparr>norm_parser := p, tool_block_indices := opn\<rparr>, es)))"
proof (induction cs arbitrary: n)
  case (Cons c cs)
  obtain p fs where p: "parser_feed lib (norm_parser n) c = (p, fs)" by (rule prod.exhaust)
  obtain opn es where f: "normalize_frames lib api (dialect n) fs (tool_block_indices n) = (opn, es)" by (rule prod.exhaust)
  show ?case using p f Cons.IH [of "n\<lparr>norm_parser := p, tool_block_indices := opn\<rparr>"]
    by (simp add: normalizer_feed_def normalize_frames_append split: prod.splits)
qed simp

section \<open>Tool calls\<close>

fun starts_call :: "u32 \<Rightarrow> stream_event \<Rightarrow> bool" where
  "starts_call i (ToolCallStart j _ _) = (j = i)"
| "starts_call i _ = False"

fun ends_call :: "u32 \<Rightarrow> stream_event \<Rightarrow> bool" where
  "ends_call i (ToolCallEnd j) = (j = i)"
| "ends_call i _ = False"

definition call_starts :: "u32 \<Rightarrow> stream_event list \<Rightarrow> nat" where
  "call_starts i es = length (filter (starts_call i) es)"

definition call_ends :: "u32 \<Rightarrow> stream_event list \<Rightarrow> nat" where
  "call_ends i es = length (filter (ends_call i) es)"

lemma calls_simps [simp]:
  "call_starts i [] = 0" "call_ends i [] = 0"
  "call_starts i (es @ fs) = call_starts i es + call_starts i fs" "call_ends i (es @ fs) = call_ends i es + call_ends i fs"
  by (simp_all add: call_starts_def call_ends_def)

lemma position_Some: "position x xs = Some p \<Longrightarrow> p < length xs \<and> xs ! p = x"
  by (induction xs arbitrary: p) (auto split: if_splits)

lemma swap_remove_mset:
  assumes "p < length xs"
  shows "mset (swap_remove xs p) = mset xs - {#xs ! p#}"
proof -
  let ?ys = "xs[p := last xs]"
  have "xs \<noteq> []" using assms by auto
  then have "last ?ys = last xs" by (simp add: last_list_update)
  moreover have "?ys = butlast ?ys @ [last ?ys]" using \<open>xs \<noteq> []\<close> by simp
  ultimately have "mset ?ys = mset (butlast ?ys) + {#last xs#}" by (metis mset_append mset_single_iff_right mset.simps)
  then show ?thesis using assms by (simp add: swap_remove_def mset_update)
qed

lemma close_block_cases:
  assumes "close_block i opn = (opn', es)"
  shows "opn' = opn \<and> es = [] \<or> es = [ToolCallEnd i] \<and> i \<in># mset opn \<and> mset opn' = mset opn - {#i#}"
  using assms position_Some [of i opn] swap_remove_mset [of _ opn]
  by (auto simp: close_block_def split: option.splits)

text \<open>A frame opens one tool block, closes one, or says nothing about tool blocks.\<close>

lemma frame_cases:
  assumes "d \<noteq> OpenAiChat" "normalize_frame lib api d f opn = (opn', es)"
  shows "(\<exists>j a b. es = [ToolCallStart j a b] \<and> opn' = opn @ [j]) \<or>
    (\<exists>j. es = [ToolCallEnd j] \<and> j \<in># mset opn \<and> mset opn' = mset opn - {#j#}) \<or>
    opn' = opn \<and> (\<forall>e \<in> set es. \<forall>i. \<not> starts_call i e \<and> \<not> ends_call i e)"
proof (cases d)
  case OpenAiChat
  then show ?thesis using assms by simp
next
  case AnthropicMessages
  show ?thesis
  proof (cases "from_str api (frame_data f)")
    case None
    then show ?thesis using assms AnthropicMessages by (auto simp: normalize_frame_def normalize_anthropic_frame_def unparsed_def split: if_splits)
  next
    case (Some root)
    let ?ev = "case frame_event f of Some e \<Rightarrow> e | None \<Rightarrow> []"
    show ?thesis
    proof (cases "?ev = ''content_block_stop''")
      case True
      then have "close_block (index_field api root ''index'') opn = (opn', es)"
        using assms AnthropicMessages Some by (simp add: normalize_frame_def normalize_anthropic_frame_def Let_def)
      from close_block_cases [OF this] show ?thesis by auto
    next
      case False
      then show ?thesis using assms(2) AnthropicMessages Some
        by (auto simp: normalize_frame_def normalize_anthropic_frame_def Let_def split: if_splits option.splits)
    qed
  qed
next
  case OpenAiResponses
  show ?thesis
  proof (cases "from_str api (frame_data f)")
    case None
    then show ?thesis using assms OpenAiResponses by (auto simp: normalize_frame_def normalize_responses_frame_def unparsed_def split: if_splits)
  next
    case (Some root)
    let ?ev = "case frame_event f of Some e \<Rightarrow> e | None \<Rightarrow> []"
    have n: "normalize_responses_frame api f opn = (opn', es)" using assms OpenAiResponses by (simp add: normalize_frame_def)
    consider "?ev = ''response.output_item.done''" | "?ev = ''response.output_item.added''"
      | "?ev \<noteq> ''response.output_item.done''" "?ev \<noteq> ''response.output_item.added''" by blast
    then show ?thesis
    proof cases
      case 1
      then have "close_block (index_field api root ''output_index'') opn = (opn', es)"
        using n Some by (simp add: normalize_responses_frame_def Let_def)
      from close_block_cases [OF this] show ?thesis by auto
    next
      case 2
      then show ?thesis using n Some by (auto simp: normalize_responses_frame_def Let_def split: if_splits)
    next
      case 3
      then have "fst (normalize_responses_frame api f opn) = opn \<and>
          (\<forall>e \<in> set (snd (normalize_responses_frame api f opn)). \<forall>i. \<not> starts_call i e \<and> \<not> ends_call i e)"
        by (simp add: normalize_responses_frame_def Let_def Some split: option.split) auto
      then show ?thesis using n by simp
    qed
  qed
qed

text \<open>One frame keeps the balance of starts, ends and open blocks, at every prefix of its events.\<close>

lemma frame_balance:
  assumes "d \<noteq> OpenAiChat" "normalize_frame lib api d f opn = (opn', es)"
  shows "call_starts i es + count (mset opn) i = call_ends i es + count (mset opn') i"
    "call_ends i (take k es) \<le> call_starts i (take k es) + count (mset opn) i"
proof -
  have silent: "call_starts i xs = 0 \<and> call_ends i xs = 0" if "\<forall>e \<in> set xs. \<forall>i. \<not> starts_call i e \<and> \<not> ends_call i e" for xs
    using that by (simp add: call_starts_def call_ends_def filter_empty_conv)
  show "call_starts i es + count (mset opn) i = call_ends i es + count (mset opn') i"
    using frame_cases [OF assms] silent [of es] by (auto simp: call_starts_def call_ends_def)
  show "call_ends i (take k es) \<le> call_starts i (take k es) + count (mset opn) i"
    using frame_cases [OF assms]
  proof (elim disjE)
    assume "opn' = opn \<and> (\<forall>e \<in> set es. \<forall>i. \<not> starts_call i e \<and> \<not> ends_call i e)"
    then have "\<forall>e \<in> set (take k es). \<forall>i. \<not> starts_call i e \<and> \<not> ends_call i e" using set_take_subset [of k es] by blast
    then show ?thesis using silent [of "take k es"] by simp
  qed (auto simp: call_starts_def call_ends_def take_Cons split: nat.splits)
qed

lemma frames_balance:
  assumes "d \<noteq> OpenAiChat"
  shows "normalize_frames lib api d fs opn = (opn', es) \<Longrightarrow>
    call_starts i es + count (mset opn) i = call_ends i es + count (mset opn') i \<and>
    (\<forall>k. call_ends i (take k es) \<le> call_starts i (take k es) + count (mset opn) i)"
proof (induction fs arbitrary: opn es)
  case (Cons f fs)
  obtain opn1 es1 where a: "normalize_frame lib api d f opn = (opn1, es1)" by (rule prod.exhaust)
  obtain es2 where b: "normalize_frames lib api d fs opn1 = (opn', es2)" "es = es1 @ es2"
    using Cons.prems a by (auto split: prod.splits)
  note fb = frame_balance [OF assms a, of i] and ih = Cons.IH [OF b(1)]
  have "call_ends i (take k es) \<le> call_starts i (take k es) + count (mset opn) i" for k
  proof (cases "k \<le> length es1")
    case True
    then show ?thesis using fb(2) [of k] b(2) by simp
  next
    case False
    have "call_ends i (take (k - length es1) es2) \<le> call_starts i (take (k - length es1) es2) + count (mset opn1) i" using ih by blast
    then show ?thesis using fb(1) b(2) False by simp
  qed
  then show ?case using fb(1) ih b(2) by simp
qed simp

section \<open>Writing frames\<close>

text \<open>A frame as a server writes it: one line for the event type and one for every line of data.\<close>

definition frame_lines :: "string option \<times> string list \<Rightarrow> string list" where
  "frame_lines f = (case fst f of None \<Rightarrow> [] | Some e \<Rightarrow> [''event: '' @ e]) @ map (\<lambda>l. ''data: '' @ l) (snd f)"

definition render_frame :: "string option \<times> string list \<Rightarrow> bytes" where
  "render_frame f = str_bytes (join_lines (frame_lines f)) @ [LF, LF]"

definition plain_line :: "string \<Rightarrow> bool" where
  "plain_line l \<longleftrightarrow> CHR 0x0A \<notin> set l \<and> (l \<noteq> [] \<longrightarrow> last l \<noteq> CHR 0x0D)"

text \<open>
  What can be written: no line breaks within a line, an event type without leading white space, and text that
  the conversion from UTF-8 gives back.
\<close>

definition renderable :: "text_lib \<Rightarrow> string option \<times> string list \<Rightarrow> bool" where
  "renderable lib f \<longleftrightarrow> frame_lines f \<noteq> [] \<and> (\<forall>l \<in> set (snd f). plain_line l) \<and>
     (case fst f of None \<Rightarrow> True | Some e \<Rightarrow> plain_line e \<and> trim_start lib ('' '' @ e) = e) \<and>
     from_utf8_lossy lib (str_bytes (join_lines (frame_lines f))) = join_lines (frame_lines f)"

definition frame_of :: "string option \<times> string list \<Rightarrow> sse_frame" where
  "frame_of f = \<lparr>frame_event = fst f, frame_data = join_lines (snd f)\<rparr>"

lemma strip_plain: "plain_line l \<Longrightarrow> strip_suffix_cr l = l"
  by (auto simp: plain_line_def strip_suffix_cr_def)

lemma lines_joined:
  "\<forall>l \<in> set ls. plain_line l \<and> l \<noteq> [] \<Longrightarrow> lines_of (join_lines ls) = ls"
proof (induction ls rule: join_lines.induct)
  case 1
  then show ?case by (simp add: lines_of.simps)
next
  case (2 l)
  then have "dropWhile (\<lambda>c. c \<noteq> CHR 0x0A) l = []" by (auto simp: plain_line_def)
  then show ?case using 2 by (subst lines_of.simps) (simp del: dropWhile_eq_Nil_conv)
next
  case (3 l m ls)
  have "CHR 0x0A \<notin> set l" "l \<noteq> []" using 3 by (auto simp: plain_line_def)
  then have "dropWhile (\<lambda>c. c \<noteq> CHR 0x0A) (join_lines (l # m # ls)) = CHR 0x0A # join_lines (m # ls)"
    "takeWhile (\<lambda>c. c \<noteq> CHR 0x0A) (join_lines (l # m # ls)) = l" "join_lines (l # m # ls) \<noteq> []"
    by (simp_all add: takeWhile_append dropWhile_append)
  then show ?case using 3 strip_plain [of l] by (subst lines_of.simps) simp
qed

lemma boundary_skip: "LF \<notin> set l \<Longrightarrow> boundary_from i (l @ r) = boundary_from (i + length l) r"
  by (induction l arbitrary: i) auto

lemma byte_LF: "(of_nat (of_char c) :: byte) = LF \<longleftrightarrow> c = CHR 0x0A" "(of_nat (of_char c) :: byte) = CR \<longleftrightarrow> c = CHR 0x0D"
  using inj_str_bytes [of "[c]" "[CHR 0x0A]"] inj_str_bytes [of "[c]" "[CHR 0x0D]"] by simp_all

lemma LF_in_bytes: "LF \<in> set (str_bytes l) \<longleftrightarrow> CHR 0x0A \<in> set l"
  by (induction l) (auto simp: byte_LF eq_commute [of LF])

lemma boundary_joined:
  "\<forall>l \<in> set ls. CHR 0x0A \<notin> set l \<and> l \<noteq> [] \<and> hd l \<noteq> CHR 0x0D \<Longrightarrow> ls \<noteq> [] \<Longrightarrow>
   boundary_from i (str_bytes (join_lines ls) @ LF # LF # r) = Some (i + length (join_lines ls), i + length (join_lines ls) + 2)"
proof (induction ls arbitrary: i rule: join_lines.induct)
  case (2 l)
  then show ?case by (simp add: boundary_skip LF_in_bytes)
next
  case (3 l m ls)
  obtain c cs where m: "join_lines (m # ls) = c # cs" "c \<noteq> CHR 0x0A" "c \<noteq> CHR 0x0D"
  proof -
    have mm: "CHR 0x0A \<notin> set m" "m \<noteq> []" "hd m \<noteq> CHR 0x0D" using "3.prems"(1) by simp_all
    then obtain c cs where c: "m = c # cs" by (cases m) simp_all
    have "join_lines (m # ls) = c # cs \<or> (\<exists>t. join_lines (m # ls) = c # cs @ t)" by (cases ls) (simp_all add: c)
    moreover have "c \<noteq> CHR 0x0A" "c \<noteq> CHR 0x0D" using mm c by auto
    ultimately show thesis using that by blast
  qed
  have l: "LF \<notin> set (str_bytes l)" using "3.prems"(1) by (simp add: LF_in_bytes)
  have "boundary_from j (LF # str_bytes (join_lines (m # ls)) @ LF # LF # r) = boundary_from (j + 1) (str_bytes (join_lines (m # ls)) @ LF # LF # r)" for j
    unfolding m(1) using m(2,3) by (simp add: byte_LF)
  moreover have "boundary_from j (str_bytes (join_lines (m # ls)) @ LF # LF # r) =
      Some (j + length (join_lines (m # ls)), j + length (join_lines (m # ls)) + 2)" for j
    using "3.prems"(1) by (intro "3.IH") simp_all
  moreover have "str_bytes (join_lines (l # m # ls)) = str_bytes l @ LF # str_bytes (join_lines (m # ls))" by simp
  ultimately show ?case using boundary_skip [OF l, of i "LF # str_bytes (join_lines (m # ls)) @ LF # LF # r"] by simp
qed simp

lemma plain_prefixed: "plain_line x \<Longrightarrow> plain_line (''event: '' @ x)" "plain_line x \<Longrightarrow> plain_line (''data: '' @ x)"
  by (cases "x = []"; simp add: plain_line_def)+

lemma frame_lines_ok:
  assumes "renderable lib f" "l \<in> set (frame_lines f)"
  shows "plain_line l \<and> l \<noteq> [] \<and> hd l \<noteq> CHR 0x0D"
proof -
  consider e where "fst f = Some e" "l = ''event: '' @ e" | x where "x \<in> set (snd f)" "l = ''data: '' @ x"
    using assms(2) by (cases "fst f") (auto simp: frame_lines_def)
  then show ?thesis
  proof cases
    case 1
    then show ?thesis using assms(1) plain_prefixed(1) [of e] by (simp add: renderable_def)
  next
    case 2
    then show ?thesis using assms(1) plain_prefixed(2) [of x] by (simp add: renderable_def)
  qed
qed

lemma parse_data_lines:
  "\<forall>l \<in> set ls. plain_line l \<Longrightarrow> parse_lines lib (map (\<lambda>l. ''data: '' @ l) ls) ev data = (ev, data @ ls)"
proof (induction ls arbitrary: data)
  case (Cons l ls)
  have "strip_suffix_cr (''data: '' @ l) = ''data: '' @ l" using Cons.prems by (intro strip_plain plain_prefixed) simp
  then show ?case using Cons by (simp add: Let_def strip_prefix_def)
qed simp

lemma parse_rendered:
  assumes "renderable lib f"
  shows "parse_frame lib (str_bytes (join_lines (frame_lines f))) = Some (frame_of f)"
proof -
  have l: "lines_of (from_utf8_lossy lib (str_bytes (join_lines (frame_lines f)))) = frame_lines f"
    using lines_joined [of "frame_lines f"] frame_lines_ok [OF assms] assms by (simp add: renderable_def)
  have "parse_lines lib (frame_lines f) None [] = (fst f, snd f)"
  proof (cases "fst f")
    case None
    then show ?thesis using parse_data_lines [of "snd f"] assms by (simp add: frame_lines_def renderable_def)
  next
    case (Some e)
    have e: "plain_line e" "trim_start lib ('' '' @ e) = e" using assms Some by (simp_all add: renderable_def)
    have "strip_suffix_cr (''event: '' @ e) = ''event: '' @ e" using e(1) by (intro strip_plain plain_prefixed)
    then show ?thesis using parse_data_lines [of "snd f"] assms Some e(2)
      by (simp add: frame_lines_def renderable_def Let_def strip_prefix_def)
  qed
  moreover have "\<not> (fst f = None \<and> snd f = [])" using assms by (auto simp: renderable_def frame_lines_def)
  ultimately show ?thesis using l by (cases f) (simp add: parse_frame_def frame_of_def)
qed

lemma cut_rendered:
  assumes "renderable lib f"
  shows "cut_frame lib (render_frame f @ r) = Some ([frame_of f], r)"
proof -
  let ?t = "join_lines (frame_lines f)"
  have "\<forall>l \<in> set (frame_lines f). CHR 0x0A \<notin> set l \<and> l \<noteq> [] \<and> hd l \<noteq> CHR 0x0D"
    using frame_lines_ok [OF assms] by (auto simp: plain_line_def)
  then have "find_frame_boundary (str_bytes ?t @ LF # LF # r) = Some (length ?t, length ?t + 2)"
    using boundary_joined [of "frame_lines f" 0 r] assms by (simp add: find_frame_boundary_def renderable_def)
  then show ?thesis using parse_rendered [OF assms] by (simp add: cut_frame_def render_frame_def)
qed

lemma cut_all_rendered: "\<forall>f \<in> set fs. renderable lib f \<Longrightarrow> cut_frames lib (concat (map render_frame fs)) = (map frame_of fs, [])"
proof (induction fs)
  case Nil
  then show ?case by (subst cut_frames.simps) (simp add: find_frame_boundary_def)
next
  case (Cons f fs)
  then show ?case using cut_rendered [of lib f "concat (map render_frame fs)"]
    by (subst frames.drain_unfold) simp
qed

section \<open>Concrete libraries\<close>

text \<open>Bytes read as characters; a JSON library that takes every text for a tool block with index 7.\<close>

definition demo_text :: text_lib where
  "demo_text =
     \<lparr>from_utf8_lossy = map (\<lambda>b. char_of (unat b)), trim_start = dropWhile (\<lambda>c. c = CHR '' ''), trim = id\<rparr>"

definition demo_json :: "string json_api" where
  "demo_json =
     \<lparr>from_str = (\<lambda>s. Some s), get_key = (\<lambda>v k. if k = ''type'' then Some ''tool_use'' else Some v), pointer = (\<lambda>_ _. None),
      as_str = (\<lambda>v. Some v), as_u64 = (\<lambda>_. Some 7), as_array = (\<lambda>_. None), is_null = (\<lambda>_. False)\<rparr>"

lemma demo_utf8: "from_utf8_lossy demo_text (str_bytes s) = s"
  by (induction s) (simp_all add: demo_text_def unat_of_nat)

definition demo_start :: "string option \<times> string list" where
  "demo_start = (Some ''content_block_start'', [''x'', []])"

definition demo_stop :: "string option \<times> string list" where
  "demo_stop = (Some ''content_block_stop'', [''y''])"

lemma demo_renderable: "renderable demo_text demo_start" "renderable demo_text demo_stop"
  unfolding renderable_def demo_utf8 by (simp_all add: frame_lines_def plain_line_def demo_text_def demo_start_def demo_stop_def)

definition demo_events :: "stream_event list" where
  "demo_events = [ToolCallStart 7 (''x'' @ [CHR 0x0A]) (''x'' @ [CHR 0x0A]), ToolCallEnd 7]"

lemma demo_stream:
  "\<exists>n. normalizer_feeds demo_text demo_json (normalizer_new AnthropicMessages) [render_frame demo_start, render_frame demo_stop] =
     (n, demo_events)"
proof -
  have "find_frame_boundary (buf parser_new) = None" by (simp add: find_frame_boundary_def parser_new_def)
  from parser_feeds_concat [OF this, of demo_text "[render_frame demo_start, render_frame demo_stop]"]
  have "snd (parser_feeds demo_text parser_new [render_frame demo_start, render_frame demo_stop]) = [frame_of demo_start, frame_of demo_stop]"
    using cut_all_rendered [of "[demo_start, demo_stop]" demo_text] demo_renderable by (simp add: parser_feed_def parser_new_def)
  moreover have "snd (normalize_frames demo_text demo_json AnthropicMessages [frame_of demo_start, frame_of demo_stop] []) = demo_events"
    by (simp add: normalize_frame_def normalize_anthropic_frame_def frame_of_def demo_start_def demo_stop_def demo_json_def demo_events_def
        has_type_def and_then_def index_field_def u64_field_def str_field_def close_block_def Let_def)
  ultimately show ?thesis
    by (simp add: normalizer_feeds_frames normalizer_new_def split: prod.splits)
qed

section \<open>Properties\<close>

text \<open>
  C17: chunk independence. However the network cuts a response into chunks, also within a line, a frame
  or a multi-byte character, a new normaliser emits the same events in the same order and ends in the
  same state as if the whole response had come in one chunk.
\<close>

theorem chunks_are_irrelevant:
  "normalizer_feeds lib api (normalizer_new d) cs = normalizer_feed lib api (normalizer_new d) (concat cs)"
proof -
  have "find_frame_boundary (buf parser_new) = None" by (simp add: find_frame_boundary_def parser_new_def)
  from parser_feeds_concat [OF this, of lib cs] show ?thesis
    by (simp add: normalizer_feeds_frames normalizer_feed_def normalizer_new_def)
qed

text \<open>
  C18: frames are read back. Let a server write any sequence of frames, each with an event type or data
  lines or both, and let the network cut the bytes anywhere: the parser returns exactly these frames in
  order, the data lines of a frame joined by line feeds, and keeps no byte back.
\<close>

theorem frames_read_back:
  assumes "\<forall>f \<in> set fs. renderable lib f" "concat cs = concat (map render_frame fs)"
  shows "parser_feeds lib parser_new cs = (parser_new, map frame_of fs)"
proof -
  have "find_frame_boundary (buf parser_new) = None" by (simp add: find_frame_boundary_def parser_new_def)
  from parser_feeds_concat [OF this, of lib cs] show ?thesis
    using cut_all_rendered [OF assms(1)] assms(2) by (simp add: parser_feed_def parser_new_def)
qed

theorem frames_read_back_witness:
  "parser_feeds demo_text parser_new [take 5 (render_frame demo_start), drop 5 (render_frame demo_start) @ render_frame demo_stop] =
   (parser_new, [\<lparr>frame_event = Some ''content_block_start'', frame_data = ''x'' @ [CHR 0x0A]\<rparr>,
     \<lparr>frame_event = Some ''content_block_stop'', frame_data = ''y''\<rparr>])"
proof -
  have "concat [take 5 (render_frame demo_start), drop 5 (render_frame demo_start) @ render_frame demo_stop] =
      concat (map render_frame [demo_start, demo_stop])" by (metis append_Nil2 append_assoc append_take_drop_id concat.simps list.simps(8,9))
  from frames_read_back [OF _ this, of demo_text] show ?thesis
    using demo_renderable by (simp add: frame_of_def demo_start_def demo_stop_def)
qed

text \<open>
  C19: tool calls are bracketed. In the two dialects whose frames end a tool call, at every point of the
  stream no call has been ended more often than it was started, and the calls that are still open are
  exactly those the normaliser remembers.
\<close>

theorem tool_calls_bracketed:
  assumes "d \<noteq> OpenAiChat" "normalizer_feeds lib api (normalizer_new d) cs = (n, es)"
  shows "call_ends i (take k es) \<le> call_starts i (take k es) \<and>
    call_starts i es = call_ends i es + count (mset (tool_block_indices n)) i"
proof -
  obtain p fs where p: "parser_feeds lib parser_new cs = (p, fs)" by (rule prod.exhaust)
  obtain opn where f: "normalize_frames lib api d fs [] = (opn, es)" "tool_block_indices n = opn"
    using assms(2) p by (auto simp: normalizer_feeds_frames normalizer_new_def split: prod.splits)
  show ?thesis using frames_balance [OF assms(1) f(1), of i] f(2) by simp
qed

theorem tool_calls_bracketed_witness:
  "\<exists>n. normalizer_feeds demo_text demo_json (normalizer_new AnthropicMessages) [render_frame demo_start, render_frame demo_stop] =
       (n, demo_events) \<and> call_ends 7 (take 1 demo_events) \<le> call_starts 7 (take 1 demo_events) \<and> call_starts 7 demo_events = 1 \<and>
     call_starts 7 demo_events = call_ends 7 demo_events + count (mset (tool_block_indices n)) 7"
proof -
  obtain n where "normalizer_feeds demo_text demo_json (normalizer_new AnthropicMessages)
       [render_frame demo_start, render_frame demo_stop] = (n, demo_events)" using demo_stream by blast
  moreover have "call_starts 7 demo_events = 1" by (simp add: demo_events_def call_starts_def)
  moreover have "AnthropicMessages \<noteq> OpenAiChat" by simp
  ultimately show ?thesis using tool_calls_bracketed [of AnthropicMessages demo_text demo_json _ n demo_events 7 1] by blast
qed

end
