(* ===== verification/Conversation.thy ===== *)
theory Conversation
  imports Prelude "HOL-Library.Sublist"
begin

text \<open>
  The token estimate of \<^verbatim>\<open>mca-gateway/src/token_estimate.rs\<close> and the trimming of a conversation to a token
  budget of \<^verbatim>\<open>conversation_trim.rs\<close>, over the messages of \<^verbatim>\<open>nexus-contracts/src/affinity.rs\<close>. Token counts
  are 32-bit words whose sums wrap. The budget itself and the calibration factors are floating-point
  numbers and are left out.
\<close>

section \<open>Messages\<close>

datatype message_role = RoleSystem | RoleUser | RoleAssistant | RoleTool

datatype content_block =
    TextBlock string
  | ThinkingBlock string "string option"
  | ToolUseBlock string string string
  | ToolResultBlock string string bool

record affinity_message =
  msg_role :: message_role
  blocks :: "content_block list"

text \<open>The widths of the characters of a string add up to its number of bytes.\<close>

definition estimate_text :: "string \<Rightarrow> u32" where
  "estimate_text text = of_nat (length text div 4)"

fun block_tokens :: "content_block \<Rightarrow> u32" where
  "block_tokens (TextBlock t) = estimate_text t"
| "block_tokens (ThinkingBlock t _) = estimate_text t"
| "block_tokens (ToolUseBlock _ _ input) = estimate_text input"
| "block_tokens (ToolResultBlock _ content _) = estimate_text content"

definition estimate_message :: "affinity_message \<Rightarrow> u32" where
  "estimate_message m = sum_list (map block_tokens (blocks m))"

definition estimate_messages :: "affinity_message list \<Rightarrow> u32" where
  "estimate_messages ms = sum_list (map estimate_message ms)"

section \<open>Trimming\<close>

fun role_weight :: "message_role \<Rightarrow> nat" where
  "role_weight RoleTool = 3"
| "role_weight RoleUser = 2"
| "role_weight RoleAssistant = 1"
| "role_weight RoleSystem = 1"

definition initial_keep :: "affinity_message list \<Rightarrow> bool list" where
  "initial_keep ms = (map (\<lambda>m. msg_role m = RoleTool) ms)[length ms - 1 := True]"

definition kept_messages :: "affinity_message list \<Rightarrow> bool list \<Rightarrow> affinity_message list" where
  "kept_messages ms keep = map fst (filter snd (zip ms keep))"

definition bucket_of :: "affinity_message list \<Rightarrow> bool list \<Rightarrow> nat \<Rightarrow> (nat \<times> u32) list" where
  "bucket_of ms keep weight =
     map (\<lambda>i. (i, estimate_message (ms ! i)))
       (filter (\<lambda>i. \<not> keep ! i \<and> role_weight (msg_role (ms ! i)) = weight) [0..<length ms])"

text \<open>How many of the given tokens, taken one after the other, fit into the rest of the budget.\<close>

fun count_fitting :: "u32 \<Rightarrow> u32 \<Rightarrow> u32 list \<Rightarrow> nat" where
  "count_fitting remaining acc [] = 0"
| "count_fitting remaining acc (t # ts) =
     (if remaining < acc + t then 0 else Suc (count_fitting remaining (acc + t) ts))"

text \<open>
  \<^verbatim>\<open>select_nth_unstable_by\<close> moves the entries with the \<open>k\<close> greatest indices to the front in an order that is
  not specified; the caller only marks them, so any order will do.
\<close>

definition select_recent :: "nat \<Rightarrow> (nat \<times> u32) list \<Rightarrow> (nat \<times> u32) list" where
  "select_recent k bucket = take k (rev (sort_key fst bucket))"

fun fill_buckets :: "affinity_message list \<Rightarrow> bool list \<Rightarrow> nat list \<Rightarrow> u32 \<Rightarrow> nat list" where
  "fill_buckets ms keep [] remaining = []"
| "fill_buckets ms keep (w # ws) remaining =
     (let bucket = bucket_of ms keep w; bucket_tokens = sum_list (map snd bucket)
      in if bucket = [] then fill_buckets ms keep ws remaining
         else if bucket_tokens \<le> remaining
         then map fst bucket @ fill_buckets ms keep ws (remaining - bucket_tokens)
         else map fst (select_recent (count_fitting remaining 0 (map snd (rev bucket))) bucket))"

definition trim_to_budget :: "affinity_message list \<Rightarrow> u32 \<Rightarrow> affinity_message list" where
  "trim_to_budget ms budget =
     (if ms = [] \<or> estimate_messages ms \<le> budget then ms
      else (let keep = initial_keep ms; keep_tokens = sum_list (map estimate_message (kept_messages ms keep))
            in if budget \<le> keep_tokens then kept_messages ms keep
               else kept_messages ms (foldl (\<lambda>ks i. ks[i := True]) keep (fill_buckets ms keep [2, 1] (budget - keep_tokens)))))"

text \<open>\<^verbatim>\<open>max_by_key\<close> returns the last of several greatest elements.\<close>

definition longest_compressible_message :: "affinity_message list \<Rightarrow> nat option" where
  "longest_compressible_message ms =
     foldl (\<lambda>best i. case best of
              None \<Rightarrow> Some i
            | Some b \<Rightarrow> if estimate_message (ms ! b) \<le> estimate_message (ms ! i) then Some i else Some b)
       None
       (filter (\<lambda>i. i \<noteq> length ms - 1 \<and> msg_role (ms ! i) \<noteq> RoleSystem \<and> msg_role (ms ! i) \<noteq> RoleTool) [0..<length ms])"

section \<open>Reference\<close>

definition tokens :: "affinity_message \<Rightarrow> nat" where
  "tokens m = unat (estimate_message m)"

definition total :: "affinity_message list \<Rightarrow> nat" where
  "total ms = sum_list (map tokens ms)"

text \<open>What is kept in any case.\<close>

definition mandatory :: "affinity_message list \<Rightarrow> nat set" where
  "mandatory ms = {i. i < length ms \<and> (msg_role (ms ! i) = RoleTool \<or> i = length ms - 1)}"

text \<open>The other messages by falling priority: users before assistants and system, recent before old.\<close>

definition candidates :: "affinity_message list \<Rightarrow> nat list" where
  "candidates ms =
     (let idxs = filter (\<lambda>i. i \<notin> mandatory ms) (rev [0..<length ms])
      in filter (\<lambda>i. msg_role (ms ! i) = RoleUser) idxs @ filter (\<lambda>i. msg_role (ms ! i) \<noteq> RoleUser) idxs)"

text \<open>The longest prefix that fits.\<close>

fun greedy :: "(nat \<Rightarrow> nat) \<Rightarrow> nat \<Rightarrow> nat list \<Rightarrow> nat list" where
  "greedy cost room [] = []"
| "greedy cost room (i # rest) = (if cost i \<le> room then i # greedy cost (room - cost i) rest else [])"

definition trim_spec :: "affinity_message list \<Rightarrow> nat \<Rightarrow> affinity_message list" where
  "trim_spec ms budget =
     (if total ms \<le> budget then ms
      else if budget \<le> total (nths ms (mandatory ms)) then nths ms (mandatory ms)
      else nths ms (mandatory ms \<union> set (greedy (\<lambda>i. tokens (ms ! i)) (budget - total (nths ms (mandatory ms))) (candidates ms))))"

section \<open>Sums of words\<close>

lemma sum_words:
  fixes xs :: "u32 list"
  shows "sum_list (map unat xs) < 2 ^ 32 \<Longrightarrow> unat (sum_list xs) = sum_list (map unat xs)"
proof (induction xs)
  case (Cons x xs)
  then have "unat (sum_list xs) = sum_list (map unat xs)" by simp
  then show ?case using Cons.prems unat_add_lem [of x "sum_list xs"] by simp
qed simp

lemma sum_of_filter_le: "sum_list (map f (filter P xs)) \<le> sum_list (map (f :: 'a \<Rightarrow> nat) xs)"
  by (induction xs) auto

section \<open>The trimming computes the reference\<close>

lemma kept_nths: "length keep = length ms \<Longrightarrow> kept_messages ms keep = nths ms {i. i < length keep \<and> keep ! i}"
proof (induction ms arbitrary: keep)
  case (Cons m ms)
  then obtain k ks where k: "keep = k # ks" "length ks = length ms" by (cases keep) auto
  then have "kept_messages ms ks = nths ms {i. i < length ks \<and> ks ! i}" by (intro Cons.IH)
  then show ?case using k by (simp add: kept_messages_def nths_Cons)
qed (simp add: kept_messages_def)

lemma total_kept_le: "length keep = length ms \<Longrightarrow> total (kept_messages ms keep) \<le> total ms"
proof -
  assume l: "length keep = length ms"
  have "total (kept_messages ms keep) = sum_list (map (\<lambda>p. tokens (fst p)) (filter snd (zip ms keep)))"
    by (simp add: total_def kept_messages_def comp_def)
  also have "\<dots> \<le> sum_list (map (\<lambda>p. tokens (fst p)) (zip ms keep))" by (rule sum_of_filter_le)
  also have "map (\<lambda>p. tokens (fst p)) (zip ms keep) = map tokens (map fst (zip ms keep))" by simp
  also have "\<dots> = map tokens ms" using l by (simp only: map_fst_zip)
  finally show ?thesis by (simp add: total_def)
qed

lemma estimate_total: "total ms < 2 ^ 32 \<Longrightarrow> unat (estimate_messages ms) = total ms"
  using sum_words [of "map estimate_message ms"] by (simp add: estimate_messages_def total_def tokens_def [abs_def] comp_def)

lemma initial_keep_nth: "i < length ms \<Longrightarrow> initial_keep ms ! i \<longleftrightarrow> i \<in> mandatory ms"
  by (cases "i = length ms - 1") (simp_all add: initial_keep_def mandatory_def)

lemma initial_keep_length [simp]: "length (initial_keep ms) = length ms"
  by (simp add: initial_keep_def)

lemma kept_mandatory: "kept_messages ms (initial_keep ms) = nths ms (mandatory ms)"
proof -
  have "{i. i < length (initial_keep ms) \<and> initial_keep ms ! i} = mandatory ms"
    using initial_keep_nth by (auto simp: mandatory_def)
  then show ?thesis using kept_nths [of "initial_keep ms" ms] by simp
qed

lemma marked: "j < length ks \<Longrightarrow> foldl (\<lambda>ks i. ks[i := True]) ks sel ! j \<longleftrightarrow> ks ! j \<or> j \<in> set sel"
proof (induction sel arbitrary: ks)
  case (Cons a sel)
  then show ?case by (cases "a = j") simp_all
qed simp

lemma marked_length [simp]: "length (foldl (\<lambda>ks i. ks[i := True]) ks sel) = length ks"
  by (induction sel arbitrary: ks) simp_all

lemma greedy_count:
  "(\<And>i. i \<in> set ys \<Longrightarrow> unat (est i) = cost i) \<Longrightarrow> unat acc + sum_list (map cost ys) < 2 ^ 32 \<Longrightarrow> unat acc \<le> unat rm \<Longrightarrow>
   greedy cost (unat rm - unat acc) ys = take (count_fitting rm acc (map est ys)) ys"
proof (induction ys arbitrary: acc)
  case (Cons y ys)
  have y: "unat (est y) = cost y" using Cons.prems(1) by simp
  have s: "unat (acc + est y) = unat acc + cost y" using Cons.prems(2) y unat_add_lem [of acc "est y"] by simp
  show ?case
  proof (cases "rm < acc + est y")
    case True
    then have "\<not> cost y \<le> unat rm - unat acc" using s Cons.prems(3) by (simp add: word_less_nat_alt)
    then show ?thesis using True by simp
  next
    case False
    then have le: "unat acc + cost y \<le> unat rm" using s by (simp add: word_less_nat_alt)
    then have "greedy cost (unat rm - unat (acc + est y)) ys = take (count_fitting rm (acc + est y) (map est ys)) ys"
      using Cons.prems s by (intro Cons.IH) simp_all
    then show ?thesis using False le s by simp
  qed
qed simp

lemma greedy_all: "sum_list (map cost xs) \<le> room \<Longrightarrow> greedy cost room (xs @ ys) = xs @ greedy cost (room - sum_list (map cost xs)) ys"
  by (induction xs arbitrary: room) simp_all

lemma greedy_some: "room < sum_list (map cost xs) \<Longrightarrow> greedy cost room (xs @ ys) = greedy cost room xs"
proof (induction xs arbitrary: room)
  case (Cons x xs)
  then show ?case using Cons.IH [of "room - cost x"] by auto
qed simp

definition of_weight :: "affinity_message list \<Rightarrow> nat \<Rightarrow> nat list" where
  "of_weight ms w = filter (\<lambda>i. i \<notin> mandatory ms \<and> role_weight (msg_role (ms ! i)) = w) [0..<length ms]"

lemma bucket_weight: "bucket_of ms (initial_keep ms) w = map (\<lambda>i. (i, estimate_message (ms ! i))) (of_weight ms w)"
proof -
  have "filter (\<lambda>i. \<not> initial_keep ms ! i \<and> role_weight (msg_role (ms ! i)) = w) [0..<length ms] = of_weight ms w"
    unfolding of_weight_def by (rule filter_cong) (simp_all add: initial_keep_nth)
  then show ?thesis by (simp add: bucket_of_def)
qed

lemma bucket_fst: "map fst (bucket_of ms (initial_keep ms) w) = of_weight ms w"
  by (simp add: bucket_weight comp_def)

lemma candidates_weights: "candidates ms = rev (of_weight ms 2) @ rev (of_weight ms 1)"
proof -
  have "(msg_role (ms ! i) = RoleUser) = (role_weight (msg_role (ms ! i)) = 2)" for i by (cases "msg_role (ms ! i)") simp_all
  moreover have "(msg_role (ms ! i) \<noteq> RoleUser) = (role_weight (msg_role (ms ! i)) = 1)" if "i \<notin> mandatory ms" "i < length ms" for i
    using that by (cases "msg_role (ms ! i)") (simp_all add: mandatory_def)
  ultimately show ?thesis
    by (auto simp: candidates_def of_weight_def rev_filter conj_commute Let_def intro!: filter_cong)
qed

lemma sorted_weight: "sort_key fst (map (\<lambda>i. (i, f i)) (of_weight ms w)) = map (\<lambda>i. (i, f i)) (of_weight ms w)"
  by (intro sort_key_id_if_sorted) (simp add: comp_def of_weight_def sorted_wrt_filter)

lemma weight_total: "sum_list (map (\<lambda>i. tokens (ms ! i)) (of_weight ms w)) \<le> total ms"
proof -
  have "sum_list (map (\<lambda>i. tokens (ms ! i)) (of_weight ms w)) \<le> sum_list (map (\<lambda>i. tokens (ms ! i)) [0..<length ms])"
    unfolding of_weight_def by (rule sum_of_filter_le)
  also have "map (\<lambda>i. tokens (ms ! i)) [0..<length ms] = map tokens ms" by (rule nth_equalityI) simp_all
  finally show ?thesis by (simp add: total_def)
qed

lemma bucket_tokens:
  assumes "total ms < 2 ^ 32"
  shows "unat (sum_list (map snd (bucket_of ms (initial_keep ms) w))) = sum_list (map (\<lambda>i. tokens (ms ! i)) (of_weight ms w))"
  using sum_words [of "map snd (bucket_of ms (initial_keep ms) w)"] weight_total [of ms w] assms
  by (simp add: bucket_weight comp_def tokens_def)

lemma partial_bucket:
  assumes "total ms < 2 ^ 32"
  shows "set (map fst (select_recent (count_fitting rm 0 (map snd (rev (bucket_of ms (initial_keep ms) w)))) (bucket_of ms (initial_keep ms) w))) =
    set (greedy (\<lambda>i. tokens (ms ! i)) (unat rm) (rev (of_weight ms w)))"
proof -
  let ?ys = "rev (of_weight ms w)" and ?est = "\<lambda>i. estimate_message (ms ! i)"
  have "sum_list (map (\<lambda>i. tokens (ms ! i)) ?ys) < 2 ^ 32"
    using weight_total [of ms w] assms by (simp add: rev_map [symmetric])
  then have "greedy (\<lambda>i. tokens (ms ! i)) (unat rm) ?ys = take (count_fitting rm 0 (map ?est ?ys)) ?ys"
    using greedy_count [of ?ys ?est "\<lambda>i. tokens (ms ! i)" 0 rm] by (simp add: tokens_def)
  then show ?thesis by (simp add: bucket_weight select_recent_def sorted_weight rev_map comp_def take_map)
qed

lemma fill_greedy:
  assumes "total ms < 2 ^ 32"
  shows "set (fill_buckets ms (initial_keep ms) [2, 1] rm) = set (greedy (\<lambda>i. tokens (ms ! i)) (unat rm) (candidates ms))"
proof -
  let ?c = "\<lambda>i. tokens (ms ! i)" and ?b = "bucket_of ms (initial_keep ms)" and ?w = "of_weight ms"
  have one: "set (fill_buckets ms (initial_keep ms) [1] r) = set (greedy ?c (unat r) (rev (?w 1)))" for r
  proof (cases "sum_list (map snd (?b 1)) \<le> r")
    case True
    then have "sum_list (map ?c (rev (?w 1))) \<le> unat r" using bucket_tokens [OF assms, of 1] by (simp add: word_le_nat_alt rev_map [symmetric])
    then have "greedy ?c (unat r) (rev (?w 1)) = rev (?w 1)" using greedy_all [of ?c "rev (?w 1)" "unat r" "[]"] by simp
    moreover have "set (fill_buckets ms (initial_keep ms) [1] r) = set (map fst (?b 1))"
      unfolding fill_buckets.simps Let_def using True by (cases "?b 1 = []") simp_all
    ultimately show ?thesis unfolding bucket_fst by simp
  next
    case False
    then have "?b 1 \<noteq> []" by auto
    then show ?thesis using False partial_bucket [OF assms, of r 1] by (simp add: Let_def)
  qed
  have tok: "unat (sum_list (map snd (?b 2))) = sum_list (map ?c (rev (?w 2)))" using bucket_tokens [OF assms, of 2] by (simp add: rev_map [symmetric])
  show ?thesis
  proof (cases "sum_list (map snd (?b 2)) \<le> rm")
    case True
    then have le: "sum_list (map ?c (rev (?w 2))) \<le> unat rm" using tok by (simp add: word_le_nat_alt)
    have "unat (rm - sum_list (map snd (?b 2))) = unat rm - sum_list (map ?c (rev (?w 2)))"
      using True tok by (simp add: unat_sub)
    moreover have "set (fill_buckets ms (initial_keep ms) [2, 1] rm) =
        set (?w 2) \<union> set (fill_buckets ms (initial_keep ms) [1] (rm - sum_list (map snd (?b 2))))"
      unfolding fill_buckets.simps(2) [of _ _ 2] Let_def bucket_fst [symmetric] using True by (cases "?b 2 = []") simp_all
    ultimately show ?thesis using one [of "rm - sum_list (map snd (?b 2))"] greedy_all [OF le, of "rev (?w 1)"]
      by (simp add: candidates_weights)
  next
    case False
    then have "?b 2 \<noteq> []" by auto
    then have "set (fill_buckets ms (initial_keep ms) [2, 1] rm) = set (greedy ?c (unat rm) (rev (?w 2)))"
      using False partial_bucket [OF assms, of rm 2] by (simp add: Let_def)
    moreover have "unat rm < sum_list (map ?c (rev (?w 2)))" using False tok by (simp add: word_le_nat_alt)
    ultimately show ?thesis using greedy_some [of "unat rm" ?c "rev (?w 2)" "rev (?w 1)"] by (simp add: candidates_weights)
  qed
qed

lemma candidates_bound: "i \<in> set (candidates ms) \<Longrightarrow> i < length ms \<and> i \<notin> mandatory ms"
  by (auto simp: candidates_def Let_def)

lemma greedy_subset: "set (greedy cost room xs) \<subseteq> set xs"
  by (induction xs arbitrary: room) auto

lemma trim_reference:
  assumes "total ms < 2 ^ 32"
  shows "trim_to_budget ms budget = trim_spec ms (unat budget)"
proof -
  let ?keep = "initial_keep ms" and ?kt = "sum_list (map estimate_message (kept_messages ms (initial_keep ms)))"
  have tot: "estimate_messages ms \<le> budget \<longleftrightarrow> total ms \<le> unat budget" using estimate_total [OF assms] by (simp add: word_le_nat_alt)
  have "total (kept_messages ms ?keep) < 2 ^ 32" using total_kept_le [of ?keep ms] assms by simp
  then have kt: "unat ?kt = total (nths ms (mandatory ms))"
    using estimate_total [of "kept_messages ms ?keep"] by (simp add: estimate_messages_def kept_mandatory)
  show ?thesis
  proof (cases "ms = [] \<or> total ms \<le> unat budget")
    case True
    then show ?thesis using tot by (auto simp: trim_to_budget_def trim_spec_def total_def)
  next
    case False
    show ?thesis
    proof (cases "budget \<le> ?kt")
      case True
      then show ?thesis using False tot kt by (simp add: trim_to_budget_def trim_spec_def word_le_nat_alt kept_mandatory Let_def)
    next
      case room: False
      let ?sel = "fill_buckets ms ?keep [2, 1] (budget - ?kt)" and ?g = "greedy (\<lambda>i. tokens (ms ! i)) (unat budget - total (nths ms (mandatory ms))) (candidates ms)"
      have "unat (budget - ?kt) = unat budget - total (nths ms (mandatory ms))" using room kt by (simp add: unat_sub)
      then have sel: "set ?sel = set ?g" using fill_greedy [OF assms, of "budget - ?kt"] by simp
      have "set ?g \<subseteq> {..<length ms}" using greedy_subset candidates_bound by fastforce
      then have "{i. i < length (foldl (\<lambda>ks i. ks[i := True]) ?keep ?sel) \<and> foldl (\<lambda>ks i. ks[i := True]) ?keep ?sel ! i} =
          mandatory ms \<union> set ?g"
        using sel initial_keep_nth [of _ ms] by (auto simp: marked mandatory_def)
      then have "kept_messages ms (foldl (\<lambda>ks i. ks[i := True]) ?keep ?sel) = nths ms (mandatory ms \<union> set ?g)"
        using kept_nths [of "foldl (\<lambda>ks i. ks[i := True]) ?keep ?sel" ms] by simp
      then show ?thesis using False room tot kt
        by (simp add: trim_to_budget_def trim_spec_def word_le_nat_alt Let_def)
    qed
  qed
qed

section \<open>What is kept\<close>

lemma total_nths: "total (nths ms A) = (\<Sum>i \<in> {i \<in> A. i < length ms}. tokens (ms ! i))"
proof (induction ms rule: rev_induct)
  case (snoc m ms)
  have "{i \<in> A. i < length (ms @ [m])} = {i \<in> A. i < length ms} \<union> (if length ms \<in> A then {length ms} else {})"
    by (auto simp: less_Suc_eq)
  moreover have "(\<Sum>i \<in> {i \<in> A. i < length ms}. tokens ((ms @ [m]) ! i)) = (\<Sum>i \<in> {i \<in> A. i < length ms}. tokens (ms ! i))"
    by (rule sum.cong) (simp_all add: nth_append)
  ultimately show ?case using snoc by (simp add: nths_append total_def)
qed (simp add: total_def)

lemma sum_set_le: "(\<Sum>i \<in> set xs. f i) \<le> sum_list (map (f :: nat \<Rightarrow> nat) xs)"
proof (induction xs)
  case (Cons x xs)
  then show ?case by (cases "x \<in> set xs") (simp_all add: insert_absorb le_add2 trans_le_add2)
qed simp

lemma greedy_fits: "sum_list (map cost (greedy cost room xs)) \<le> room"
proof (induction xs arbitrary: room)
  case (Cons i xs)
  show ?case
  proof (cases "cost i \<le> room")
    case True
    then show ?thesis using Cons.IH [of "room - cost i"] by simp
  qed simp
qed simp

lemma filter_nths: "(\<And>i. i < length ms \<Longrightarrow> P (ms ! i) \<Longrightarrow> i \<in> A) \<Longrightarrow> filter P (nths ms A) = filter P ms"
proof (induction ms rule: rev_induct)
  case (snoc m ms)
  have "filter P (nths ms A) = filter P ms"
  proof (rule snoc.IH)
    fix i assume "i < length ms" "P (ms ! i)"
    then show "i \<in> A" using snoc.prems [of i] by (simp add: nth_append)
  qed
  moreover have "P m \<Longrightarrow> length ms \<in> A" using snoc.prems [of "length ms"] by simp
  ultimately show ?case by (simp add: nths_append)
qed simp

lemma last_nths: "ms \<noteq> [] \<Longrightarrow> length ms - 1 \<in> A \<Longrightarrow> last (nths ms A) = last ms"
  by (cases ms rule: rev_cases) (simp_all add: nths_append)

lemma trim_spec_form:
  obtains A where "trim_spec ms budget = nths ms A" "mandatory ms \<subseteq> A"
    "total (nths ms A) \<le> budget \<or> nths ms A = nths ms (mandatory ms)"
proof (cases "total ms \<le> budget")
  case True
  have "nths ms UNIV = ms" by (rule nths_all) simp
  then show thesis using True that [of UNIV] by (simp add: trim_spec_def)
next
  case False
  let ?c = "\<lambda>i. tokens (ms ! i)" and ?t = "total (nths ms (mandatory ms))"
  show thesis
  proof (cases "budget \<le> ?t")
    case True
    then show thesis using False that [of "mandatory ms"] by (simp add: trim_spec_def)
  next
    case room: False
    let ?g = "greedy ?c (budget - ?t) (candidates ms)"
    have m: "{i \<in> mandatory ms. i < length ms} = mandatory ms" by (auto simp: mandatory_def)
    have fin: "finite (mandatory ms)" by (rule finite_subset [of _ "{..<length ms}"]) (auto simp: mandatory_def)
    have "{i \<in> mandatory ms \<union> set ?g. i < length ms} = mandatory ms \<union> set ?g"
      using greedy_subset [of ?c "budget - ?t" "candidates ms"] candidates_bound by (auto simp: mandatory_def)
    then have "total (nths ms (mandatory ms \<union> set ?g)) = (\<Sum>i \<in> mandatory ms \<union> set ?g. ?c i)" by (simp add: total_nths)
    also have "\<dots> \<le> (\<Sum>i \<in> mandatory ms. ?c i) + (\<Sum>i \<in> set ?g. ?c i)" using fin by (simp add: sum_Un_nat)
    also have "(\<Sum>i \<in> mandatory ms. ?c i) = ?t" by (simp add: total_nths m)
    also have "?t + (\<Sum>i \<in> set ?g. ?c i) \<le> budget"
      using sum_set_le [of ?c ?g] greedy_fits [of ?c "budget - ?t" "candidates ms"] room by linarith
    finally show thesis using that [of "mandatory ms \<union> set ?g"] False room by (simp add: trim_spec_def)
  qed
qed

section \<open>Properties\<close>

text \<open>Four messages of 4, 2, 1 and 2 tokens.\<close>

definition demo_talk :: "affinity_message list" where
  "demo_talk =
     [\<lparr>msg_role = RoleUser, blocks = [TextBlock ''explain the code'']\<rparr>, \<lparr>msg_role = RoleAssistant, blocks = [TextBlock ''I will look'']\<rparr>,
      \<lparr>msg_role = RoleTool, blocks = [ToolResultBlock ''1'' ''fn main'' False]\<rparr>,
      \<lparr>msg_role = RoleUser, blocks = [TextBlock ''now shorter'', ThinkingBlock ''hmm'' None]\<rparr>]"

lemma demo_talk_total: "total demo_talk = 9"
  by (simp add: total_def tokens_def demo_talk_def estimate_message_def estimate_text_def)



text \<open>
  What trimming guarantees. The result is a subsequence of the conversation with all tool results and
  the last message, and it fits the budget unless the messages that must be kept alone exceed it, and then
  it consists of just these.
\<close>

theorem trim_keeps_and_fits:
  assumes "total ms < 2 ^ 32"
  shows "subseq (trim_to_budget ms budget) ms \<and>
    filter (\<lambda>m. msg_role m = RoleTool) (trim_to_budget ms budget) = filter (\<lambda>m. msg_role m = RoleTool) ms \<and>
    (ms \<noteq> [] \<longrightarrow> last (trim_to_budget ms budget) = last ms) \<and>
    (total (trim_to_budget ms budget) \<le> unat budget \<or> trim_to_budget ms budget = nths ms (mandatory ms))"
proof -
  obtain A where A: "trim_spec ms (unat budget) = nths ms A" "mandatory ms \<subseteq> A"
    "total (nths ms A) \<le> unat budget \<or> nths ms A = nths ms (mandatory ms)" by (rule trim_spec_form)
  have "subseq (nths ms A) ms" by (auto simp: subseq_conv_nths)
  moreover have "filter (\<lambda>m. msg_role m = RoleTool) (nths ms A) = filter (\<lambda>m. msg_role m = RoleTool) ms"
    by (rule filter_nths) (use A(2) in \<open>auto simp: mandatory_def\<close>)
  moreover have "last (nths ms A) = last ms" if "ms \<noteq> []"
    using that by (intro last_nths) (use A(2) in \<open>auto simp: mandatory_def\<close>)
  ultimately show ?thesis using A trim_reference [OF assms, of budget] by simp
qed

theorem trim_keeps_and_fits_witness:
  "subseq (trim_to_budget demo_talk 8) demo_talk \<and> last (trim_to_budget demo_talk 8) = last demo_talk \<and>
   total (trim_to_budget demo_talk 8) \<le> 8"
proof -
  have "total (nths demo_talk (mandatory demo_talk)) = 3"
    by (simp add: demo_talk_def mandatory_def nths_Cons total_def tokens_def estimate_message_def estimate_text_def nth_Cons')
  moreover have "demo_talk \<noteq> []" by (simp add: demo_talk_def)
  ultimately show ?thesis using trim_keeps_and_fits [of demo_talk 8] by (auto simp: demo_talk_total)
qed

section \<open>Tool calls without their request\<close>

text \<open>
  The assistant message with a tool call has the lowest priority while the tool result is always kept, so
  trimming can separate them.
\<close>

definition demo_call :: "affinity_message list" where
  "demo_call =
     [\<lparr>msg_role = RoleAssistant, blocks = [ToolUseBlock ''c1'' ''read'' ''{path: src/main.rs}'']\<rparr>,
      \<lparr>msg_role = RoleTool, blocks = [ToolResultBlock ''c1'' ''fn main'' False]\<rparr>, \<lparr>msg_role = RoleUser, blocks = [TextBlock ''now shorter'']\<rparr>]"

lemma tool_result_without_call: "trim_to_budget demo_call 6 = tl demo_call"
  by code_simp


end
