(* ===== verification/Float32.thy ===== *)
theory Float32
  imports Complex_Main Prelude
begin

text \<open>
  Single-precision arithmetic as the Rust type \<^verbatim>\<open>f32\<close> has it: an operation rounds the exact result to the
  nearest of the representable numbers and a tie to the one with even significand. Finite values are
  rationals; overflow does not occur in the modelled code, whose operands never exceed the largest
  finite value together. The lemmas bound the rounding error below 2 and give the grid the results lie on.
\<close>

section \<open>Rounding\<close>

definition round_even :: "rat \<Rightarrow> int" where
  "round_even q =
     (let f = \<lfloor>q\<rfloor>; r = q - of_int f in if r < 1 / 2 \<or> (r = 1 / 2 \<and> even f) then f else f + 1)"

text \<open>The greatest power of two up to \<open>x\<close> among \<open>lo\<close> and its halves, at most \<open>n\<close> times halved.\<close>

fun binade :: "nat \<Rightarrow> rat \<Rightarrow> rat \<Rightarrow> rat" where
  "binade 0 lo x = lo"
| "binade (Suc n) lo x = (if lo \<le> x then lo else binade n (lo / 2) x)"

text \<open>The exponents go from 127 down to -126, and 23 bits follow the leading one.\<close>

definition f32_round :: "rat \<Rightarrow> rat" where
  "f32_round x = (let ulp = binade 253 (2 ^ 127) \<bar>x\<bar> / 2 ^ 23 in of_int (round_even (x / ulp)) * ulp)"

text \<open>A value a caller can pass.\<close>

datatype f32 = Finite rat | PosInf | NegInf | NaN

lemma round_even_le: "q \<le> of_int k \<Longrightarrow> round_even q \<le> k"
proof -
  assume q: "q \<le> of_int k"
  then have "\<lfloor>q\<rfloor> \<le> k" by (simp add: floor_le_iff)
  moreover have "round_even q = k" if "\<lfloor>q\<rfloor> = k"
  proof -
    have "q = of_int k" using q that of_int_floor_le [of q] by simp
    then show ?thesis by (simp add: round_even_def)
  qed
  ultimately show ?thesis by (cases "\<lfloor>q\<rfloor> = k") (auto simp: round_even_def Let_def)
qed

lemma round_even_ge: "of_int k \<le> q \<Longrightarrow> k \<le> round_even q"
proof -
  assume "of_int k \<le> q"
  then have "k \<le> \<lfloor>q\<rfloor>" by (simp add: le_floor_iff)
  then show ?thesis by (simp add: round_even_def Let_def)
qed

lemma round_even_int [simp]: "round_even (of_int k) = k"
  by (intro antisym round_even_le round_even_ge) simp_all

lemma round_even_error: "\<bar>of_int (round_even q) - q\<bar> \<le> 1 / 2"
proof -
  have "of_int \<lfloor>q\<rfloor> \<le> q" "q < of_int \<lfloor>q\<rfloor> + 1" by linarith+
  then show ?thesis by (auto simp: round_even_def Let_def)
qed

lemma round_even_near: "\<bar>q - of_int k\<bar> < 1 / 2 \<Longrightarrow> round_even q = k"
proof -
  assume "\<bar>q - of_int k\<bar> < 1 / 2"
  moreover have "\<bar>of_int (round_even q) - q\<bar> \<le> 1 / 2" by (rule round_even_error)
  ultimately have "\<bar>of_int (round_even q) - of_int k :: rat\<bar> < 1" by linarith
  then have "(of_int \<bar>round_even q - k\<bar> :: rat) < of_int 1" by simp
  then have "\<bar>round_even q - k\<bar> < 1" by (simp only: of_int_less_iff)
  then show ?thesis by simp
qed

lemma binade_exact:
  "j \<le> n \<Longrightarrow> j = n \<or> lo / 2 ^ j \<le> x \<Longrightarrow> j = 0 \<or> x < 2 * lo / 2 ^ j \<Longrightarrow> 0 < lo \<Longrightarrow> binade n lo x = lo / 2 ^ j"
proof (induction n arbitrary: lo j)
  case (Suc n)
  show ?case
  proof (cases j)
    case 0
    then show ?thesis using Suc.prems by simp
  next
    case (Suc i)
    have "(2::rat) ^ j \<ge> 2" using self_le_power [of "2::rat" j] Suc by simp
    then have "2 * lo / 2 ^ j \<le> lo" using Suc.prems(4) by (simp add: field_simps mult_left_mono)
    then have "\<not> lo \<le> x" using Suc.prems(3) Suc by auto
    moreover have "binade n (lo / 2) x = lo / 2 / 2 ^ i" using Suc Suc.prems by (intro Suc.IH) auto
    ultimately show ?thesis using Suc by simp
  qed
qed simp

lemma binade_bounds:
  assumes "0 < lo" "x < 2 * lo"
  obtains j where "j \<le> n" "binade n lo x = lo / 2 ^ j" "j = n \<or> lo / 2 ^ j \<le> x" "x < 2 * lo / 2 ^ j"
  using assms
proof (induction n arbitrary: lo thesis)
  case 0
  then show ?case by (intro 0(1) [of 0]) simp_all
next
  case (Suc n)
  show ?case
  proof (cases "lo \<le> x")
    case True
    then show ?thesis using Suc.prems by (intro Suc.prems(1) [of 0]) simp_all
  next
    case False
    then obtain j where "j \<le> n" "binade n (lo / 2) x = lo / 2 / 2 ^ j" "j = n \<or> lo / 2 / 2 ^ j \<le> x" "x < 2 * (lo / 2) / 2 ^ j"
      using Suc.IH [of "lo / 2"] Suc.prems(2) by auto
    then show ?thesis using False by (intro Suc.prems(1) [of "Suc j"]) simp_all
  qed
qed

text \<open>Below \<open>2 / 2^s\<close> the results are multiples of \<open>1 / 2^m\<close> for some \<open>m \<ge> 23 + s\<close>.\<close>

lemma round_grid:
  assumes "0 \<le> x" "x < 2 / 2 ^ s" "s \<le> 126"
  obtains m where "23 + s \<le> m" "m \<le> 149" "f32_round x = of_int (round_even (x * 2 ^ m)) / 2 ^ m" "x < 2 ^ 24 / 2 ^ m"
proof -
  have "x < 2 * 2 ^ 127"
    using assms(2) divide_left_mono [of 1 "2 ^ s" "2::rat"] by simp
  then obtain j where j: "j \<le> 253" "binade 253 (2 ^ 127) x = 2 ^ 127 / 2 ^ j" "j = 253 \<or> 2 ^ 127 / 2 ^ j \<le> x" "x < 2 * 2 ^ 127 / 2 ^ j"
    by (rule binade_bounds [rotated 1]) simp_all
  have low: "127 + s \<le> j"
  proof (rule ccontr)
    assume a: "\<not> 127 + s \<le> j"
    then have "(2::rat) ^ (j + 1) \<le> 2 ^ (127 + s)" by (intro power_increasing) simp_all
    then have "2 / 2 ^ s \<le> (2::rat) ^ 127 / 2 ^ j" by (simp add: field_simps power_add)
    moreover have "j \<noteq> 253" using a assms(3) by simp
    ultimately show False using j(3) assms(2) by simp
  qed
  define m where "m = j - 104"
  have jm: "j = m + 104" using low by (simp add: m_def)
  have "binade 253 (2 ^ 127) x / 2 ^ 23 = 1 / 2 ^ m" using j(2) by (simp add: jm power_add)
  then have "f32_round x = of_int (round_even (x * 2 ^ m)) / 2 ^ m" using assms(1) by (simp add: f32_round_def Let_def)
  moreover have "x < 2 ^ 24 / 2 ^ m" using j(4) by (simp add: jm power_add)
  ultimately show ?thesis using low j(1) by (intro that [of m]) (simp_all add: jm)
qed

lemma round_le:
  assumes "0 \<le> x" "x < 2 / 2 ^ s" "s \<le> 126" "x \<le> of_int k / 2 ^ (23 + s)"
  shows "f32_round x \<le> of_int k / 2 ^ (23 + s)"
proof -
  obtain m where m: "23 + s \<le> m" "f32_round x = of_int (round_even (x * 2 ^ m)) / 2 ^ m" by (rule round_grid [OF assms(1-3)])
  obtain d where d: "m = 23 + s + d" using m(1) le_Suc_ex by blast
  have "x * 2 ^ m \<le> of_int (k * 2 ^ d)" using assms(4) by (simp add: d power_add field_simps)
  then have "round_even (x * 2 ^ m) \<le> k * 2 ^ d" by (rule round_even_le)
  then have "(of_int (round_even (x * 2 ^ m)) :: rat) \<le> of_int (k * 2 ^ d)" by (simp only: of_int_le_iff)
  then show ?thesis by (simp add: m(2) d power_add field_simps)
qed

lemma round_ge:
  assumes "0 \<le> x" "x < 2 / 2 ^ s" "s \<le> 126" "of_int k / 2 ^ (23 + s) \<le> x"
  shows "of_int k / 2 ^ (23 + s) \<le> f32_round x"
proof -
  obtain m where m: "23 + s \<le> m" "f32_round x = of_int (round_even (x * 2 ^ m)) / 2 ^ m" by (rule round_grid [OF assms(1-3)])
  obtain d where d: "m = 23 + s + d" using m(1) le_Suc_ex by blast
  have "of_int (k * 2 ^ d) \<le> x * 2 ^ m" using assms(4) by (simp add: d power_add field_simps)
  then have "k * 2 ^ d \<le> round_even (x * 2 ^ m)" by (rule round_even_ge)
  then have "(of_int (k * 2 ^ d) :: rat) \<le> of_int (round_even (x * 2 ^ m))" by (simp only: of_int_le_iff)
  then show ?thesis by (simp add: m(2) d power_add field_simps)
qed

lemma round_error:
  assumes "0 \<le> x" "x < 1"
  shows "\<bar>f32_round x - x\<bar> \<le> 1 / 2 ^ 25"
proof -
  obtain m where m: "24 \<le> m" "f32_round x = of_int (round_even (x * 2 ^ m)) / 2 ^ m"
    by (rule round_grid [of x 1]) (use assms in simp_all)
  have "f32_round x - x = (of_int (round_even (x * 2 ^ m)) - x * 2 ^ m) / 2 ^ m" by (simp add: m(2) field_simps)
  then have "\<bar>f32_round x - x\<bar> = \<bar>of_int (round_even (x * 2 ^ m)) - x * 2 ^ m\<bar> / 2 ^ m" by (simp add: abs_divide)
  also have "\<dots> \<le> 1 / 2 / 2 ^ m" by (intro divide_right_mono round_even_error) simp
  also have "\<dots> \<le> 1 / 2 / 2 ^ 24" using m(1) by (intro divide_left_mono power_increasing) simp_all
  finally show ?thesis by simp
qed

lemma round_close:
  assumes "0 \<le> x" "x < 1"
  shows "x - 1 / 2 ^ 25 \<le> f32_round x" "f32_round x \<le> x + 1 / 2 ^ 25"
  using round_error [OF assms] by linarith+

lemma round_unit: "0 \<le> x \<Longrightarrow> x \<le> 1 \<Longrightarrow> 0 \<le> f32_round x \<and> f32_round x \<le> 1"
  using round_le [of x 0 "2 ^ 23"] round_ge [of x 0 0] by simp

lemma round_zero [simp]: "f32_round 0 = 0"
  by (simp add: f32_round_def round_even_def)

lemma round_one [simp]: "f32_round 1 = 1"
  using round_le [of 1 0 "2 ^ 23"] round_ge [of 1 0 "2 ^ 23"] by simp

lemma round_negative: "x \<le> 0 \<Longrightarrow> f32_round x \<le> 0"
proof -
  assume x: "x \<le> 0"
  have pos: "0 < lo \<Longrightarrow> 0 < binade n lo y" for n lo y by (induction n lo y rule: binade.induct) simp_all
  let ?u = "binade 253 (2 ^ 127) \<bar>x\<bar> / 2 ^ 23"
  have u: "0 < ?u" using pos [of "2 ^ 127" 253 "\<bar>x\<bar>"] by simp
  then have "x / ?u \<le> of_int 0" using x by (simp add: divide_le_0_iff)
  then have "round_even (x / ?u) \<le> 0" by (rule round_even_le)
  then show ?thesis using u by (simp add: f32_round_def Let_def mult_nonpos_nonneg)
qed

lemma round_near:
  assumes "1 / 2 ^ s \<le> x" "x < 2 / 2 ^ s" "s \<le> 126" "\<bar>x * 2 ^ (23 + s) - of_int k\<bar> < 1 / 2"
  shows "f32_round x = of_int k / 2 ^ (23 + s)"
proof -
  have "(2::rat) ^ 127 / 2 ^ (127 + s) = 1 / 2 ^ s" by (simp add: power_add)
  then have "binade 253 (2 ^ 127) x = 1 / 2 ^ s"
    using binade_exact [of "127 + s" 253 "2 ^ 127" x] assms(1-3) by (simp add: power_add)
  moreover have "0 \<le> x" using assms(1) by (meson order_trans zero_le_divide_1_iff zero_le_numeral zero_le_power)
  moreover have "round_even (x * 2 ^ (23 + s)) = k" by (rule round_even_near [OF assms(4)])
  ultimately show ?thesis by (simp add: f32_round_def power_add mult.commute)
qed

text \<open>Rounding keeps what is representable.\<close>

lemma round_idem:
  assumes "0 \<le> x" "x < 2"
  shows "f32_round (f32_round x) = f32_round x"
proof -
  obtain m where m: "23 \<le> m" "m \<le> 149" "f32_round x = of_int (round_even (x * 2 ^ m)) / 2 ^ m" "x < 2 ^ 24 / 2 ^ m"
    by (rule round_grid [of x 0]) (use assms in simp_all)
  define k where "k = round_even (x * 2 ^ m)"
  have "x * 2 ^ m \<le> of_int (2 ^ 24)" using m(4) by (simp add: field_simps)
  then have k: "k \<le> 2 ^ 24" unfolding k_def by (rule round_even_le)
  have k0: "0 \<le> k" using assms(1) unfolding k_def by (intro round_even_ge) simp
  show ?thesis
  proof (cases "k = 2 ^ 24")
    case True
    then have r: "f32_round x = 2 ^ 24 / 2 ^ m" using m(3) by (simp add: k_def)
    show ?thesis
    proof (cases "m = 23")
      case True
      have "f32_round 2 = 2"
      proof -
        have "binade 253 (2 ^ 127) 2 = 2 ^ 127 / 2 ^ 126" by (rule binade_exact) simp_all
        then show ?thesis by (simp add: f32_round_def round_even_def)
      qed
      then show ?thesis using True r by simp
    next
      case False
      then have less: "f32_round x < 2 / 2 ^ (m - 24)"
        using m(1) r power_add [of "2::rat" "m - 24" 24] by (simp add: field_simps)
      have pos: "0 \<le> f32_round x" and s: "m - 24 \<le> 126" using m(2) by (simp_all add: r)
      obtain m2 where m2: "23 + (m - 24) \<le> m2" "f32_round (f32_round x) = of_int (round_even (f32_round x * 2 ^ m2)) / 2 ^ m2"
        by (rule round_grid [OF pos less s])
      from m2(1) have "m \<le> m2 + 1" by simp
      then obtain d where d: "m2 + 1 = m + d" using le_Suc_ex by blast
      have "f32_round x * 2 ^ m2 = of_int (2 ^ (23 + d))"
      proof -
        have "(2::rat) ^ (m2 + 1) = 2 ^ m * 2 ^ d" by (simp only: d power_add)
        then show ?thesis by (simp add: r power_add field_simps)
      qed
      then have "f32_round (f32_round x) = of_int (2 ^ (23 + d)) / 2 ^ m2" using m2(2) by (simp only: round_even_int)
      then have "f32_round (f32_round x) * 2 ^ m2 = f32_round x * 2 ^ m2"
        using \<open>f32_round x * 2 ^ m2 = of_int (2 ^ (23 + d))\<close> by simp
      then show ?thesis by simp
    qed
  next
    case False
    then have r: "f32_round x = of_int k / 2 ^ m" using m(3) by (simp add: k_def)
    have "(of_int k :: rat) < of_int (2 ^ 24)" using False k by (simp only: of_int_less_iff)
    then have less: "f32_round x < 2 / 2 ^ (m - 23)"
      using r m(1) power_add [of "2::rat" "m - 23" 23] by (simp add: field_simps)
    have pos: "0 \<le> f32_round x" and s: "m - 23 \<le> 126" using m(2) k0 by (simp_all add: r)
    obtain m2 where m2: "23 + (m - 23) \<le> m2" "f32_round (f32_round x) = of_int (round_even (f32_round x * 2 ^ m2)) / 2 ^ m2"
      by (rule round_grid [OF pos less s])
    from m2(1) have "m \<le> m2" by simp
    then obtain d where d: "m2 = m + d" using le_Suc_ex by blast
    have e: "f32_round x * 2 ^ m2 = of_int (k * 2 ^ d)" by (simp add: r d power_add)
    then have "f32_round (f32_round x) = of_int (k * 2 ^ d) / 2 ^ m2" using m2(2) by (simp only: round_even_int)
    then have "f32_round (f32_round x) * 2 ^ m2 = f32_round x * 2 ^ m2" using e by simp
    then show ?thesis by simp
  qed
qed

end
