(* ===== verification/Capability.thy ===== *)
theory Capability
  imports Float32
begin

text \<open>
  The capability tokens that gate learned policies: \<^verbatim>\<open>nexus-contracts/src/capability_token.rs\<close>, their
  registry \<^verbatim>\<open>decay-engine/src/capability_registry.rs\<close> and its errors. Levels and success rates are \<^verbatim>\<open>f32\<close>
  numbers of \<^verbatim>\<open>Float32\<close>, times are 64-bit words read with a sign, counters wrap. The registry is a map;
  where the code walks over it, the result does not depend on the order.
\<close>

section \<open>Tokens\<close>

type_synonym i64 = "64 word"

datatype seam_id =
  S1Density | S2Memory | S3Prefetch | S4Selector | S5Parliament | S6Decay | S7RecallQuota | S8MemPi | S9TokenEfficiency

fun short_name :: "seam_id \<Rightarrow> string" where
  "short_name S1Density = ''S1-density''"
| "short_name S2Memory = ''S2-memory''"
| "short_name S3Prefetch = ''S3-prefetch''"
| "short_name S4Selector = ''S4-selector''"
| "short_name S5Parliament = ''S5-parliament''"
| "short_name S6Decay = ''S6-decay''"
| "short_name S7RecallQuota = ''S7-recall-quota''"
| "short_name S8MemPi = ''S8-mem-pi''"
| "short_name S9TokenEfficiency = ''S9-token-efficiency''"

definition all_seams :: "seam_id list" where
  "all_seams =
     [S1Density, S2Memory, S3Prefetch, S4Selector, S5Parliament, S6Decay, S7RecallQuota, S8MemPi, S9TokenEfficiency]"

datatype token_status = Provisional | Authorized | Cooldown | Frozen

record capability_token =
  token_id :: string
  seam :: seam_id
  authorized_level :: rat
  status :: token_status
  bound_policy_version :: "u64 option"
  success_ewma :: rat
  sample_count :: u64
  cooldown_until :: "i64 option"
  consecutive_asa_count :: u32

definition INITIAL_LEVEL :: rat where "INITIAL_LEVEL = f32_round (2 / 10)"
definition ACTIVATION_THRESHOLD :: rat where "ACTIVATION_THRESHOLD = f32_round (3 / 10)"
definition PROMOTION_STEP_BASE :: rat where "PROMOTION_STEP_BASE = f32_round (1 / 10)"
definition EWMA_ALPHA :: rat where "EWMA_ALPHA = f32_round (1 / 10)"
definition COOLDOWN_DURATION_SECS :: i64 where "COOLDOWN_DURATION_SECS = 60"
definition ASA_FREEZE_THRESHOLD :: u32 where "ASA_FREEZE_THRESHOLD = 3"
definition DECAY_ON_ASA :: rat where "DECAY_ON_ASA = f32_round (2 / 10)"

definition capability_token_new :: "string \<Rightarrow> seam_id \<Rightarrow> capability_token" where
  "capability_token_new name s =
     \<lparr>token_id = name, seam = s, authorized_level = INITIAL_LEVEL, status = Provisional,
      bound_policy_version = None, success_ewma = 1 / 2, sample_count = 0, cooldown_until = None,
      consecutive_asa_count = 0\<rparr>"

definition bind_policy_version :: "capability_token \<Rightarrow> u64 \<Rightarrow> capability_token" where
  "bind_policy_version t version = t\<lparr>bound_policy_version := Some version\<rparr>"

definition is_in_cooldown :: "capability_token \<Rightarrow> i64 \<Rightarrow> bool" where
  "is_in_cooldown t now =
     (status t = Cooldown \<and> (case cooldown_until t of Some until \<Rightarrow> now <s until | None \<Rightarrow> False))"

definition allows_learned_policy :: "capability_token \<Rightarrow> i64 \<Rightarrow> bool" where
  "allows_learned_policy t now =
     (if status t = Frozen then False
      else if status t = Cooldown
      then (if is_in_cooldown t now then False else ACTIVATION_THRESHOLD \<le> authorized_level t)
      else status t = Authorized \<and> ACTIVATION_THRESHOLD \<le> authorized_level t)"

definition record_outcome :: "capability_token \<Rightarrow> bool \<Rightarrow> capability_token" where
  "record_outcome t success =
     (let reward = (if success then 1 else 0)
      in t\<lparr>success_ewma :=
             f32_round (f32_round (f32_round (1 - EWMA_ALPHA) * success_ewma t) + f32_round (EWMA_ALPHA * reward)),
           sample_count := sample_count t + 1\<rparr>)"

definition maybe_promote :: "capability_token \<Rightarrow> capability_token \<times> bool" where
  "maybe_promote t =
     (if status t = Cooldown \<or> status t = Frozen then (t, False)
      else if success_ewma t < f32_round (7 / 10) then (t, False)
      else (let step = f32_round (PROMOTION_STEP_BASE * f32_round (1 - authorized_level t));
                new_level = min (f32_round (authorized_level t + step)) 1
            in if new_level \<le> authorized_level t then (t, False)
               else (let t = t\<lparr>authorized_level := new_level\<rparr>
                     in (if ACTIVATION_THRESHOLD \<le> authorized_level t \<and> status t = Provisional
                         then t\<lparr>status := Authorized\<rparr> else t, True))))"

text \<open>\<^verbatim>\<open>amount.max(0.0)\<close> turns a NaN into 0, and an infinite amount leaves level 0.\<close>

fun decayed_level :: "rat \<Rightarrow> f32 \<Rightarrow> rat" where
  "decayed_level level (Finite a) = max 0 (min 1 (f32_round (level - max a 0)))"
| "decayed_level level PosInf = 0"
| "decayed_level level NegInf = max 0 (min 1 (f32_round (level - 0)))"
| "decayed_level level NaN = max 0 (min 1 (f32_round (level - 0)))"

definition decay :: "capability_token \<Rightarrow> f32 \<Rightarrow> capability_token" where
  "decay t amount =
     (let t = t\<lparr>authorized_level := decayed_level (authorized_level t) amount\<rparr>
      in if authorized_level t < ACTIVATION_THRESHOLD \<and> status t = Authorized then t\<lparr>status := Provisional\<rparr> else t)"

definition trigger_asa_intervention :: "capability_token \<Rightarrow> i64 \<Rightarrow> capability_token \<times> bool" where
  "trigger_asa_intervention t now =
     (let t = (decay t (Finite DECAY_ON_ASA))\<lparr>status := Cooldown, cooldown_until := Some (now + COOLDOWN_DURATION_SECS)\<rparr>;
          t = t\<lparr>consecutive_asa_count := consecutive_asa_count t + 1\<rparr>
      in if ASA_FREEZE_THRESHOLD \<le> consecutive_asa_count t
         then (t\<lparr>status := Frozen, cooldown_until := None\<rparr>, True) else (t, False))"

definition maybe_recover_from_cooldown :: "capability_token \<Rightarrow> i64 \<Rightarrow> capability_token \<times> bool" where
  "maybe_recover_from_cooldown t now =
     (if status t \<noteq> Cooldown then (t, False)
      else if (case cooldown_until t of Some until \<Rightarrow> now <s until | None \<Rightarrow> False) then (t, False)
      else (t\<lparr>status := (if ACTIVATION_THRESHOLD \<le> authorized_level t then Authorized else Provisional),
              cooldown_until := None, consecutive_asa_count := 0\<rparr>, True))"

definition freeze :: "capability_token \<Rightarrow> capability_token" where
  "freeze t = t\<lparr>status := Frozen, cooldown_until := None, authorized_level := 0\<rparr>"

definition unfreeze :: "capability_token \<Rightarrow> capability_token" where
  "unfreeze t =
     t\<lparr>status := Provisional, authorized_level := INITIAL_LEVEL, success_ewma := 1 / 2, sample_count := 0,
       consecutive_asa_count := 0, cooldown_until := None, bound_policy_version := None\<rparr>"

section \<open>The registry\<close>

datatype decay_error =
    InvalidLevel f32
  | CapabilityNotFound string
  | AlreadyFrozen string
  | NotFrozen string
  | ConfigError string
  | TokenNotFound seam_id
  | TokenFrozen seam_id
  | CooldownActive seam_id

type_synonym registry = "seam_id \<rightharpoonup> capability_token"

definition capability_registry_new :: registry where
  "capability_registry_new = Map.empty"

text \<open>The message is in Chinese; its two parts are the UTF-8 bytes of the source.\<close>

definition registered_message :: "seam_id \<Rightarrow> string" where
  "registered_message s =
     [CHR 0xE6, CHR 0x8E, CHR 0xA5, CHR 0xE7, CHR 0xBC, CHR 0x9D, CHR 0x20] @ short_name s @
     [CHR 0x20, CHR 0xE5, CHR 0xB7, CHR 0xB2, CHR 0xE6, CHR 0xB3, CHR 0xA8, CHR 0xE5, CHR 0x86, CHR 0x8C] @ '' token''"

definition register_capability_token :: "registry \<Rightarrow> seam_id \<Rightarrow> registry \<times> (decay_error, unit) result" where
  "register_capability_token r s =
     (if r s \<noteq> None then (r, Inl (ConfigError (registered_message s)))
      else (r(s \<mapsto> capability_token_new (short_name s @ ''-v1'') s), Inr ()))"

fun register_seams :: "registry \<Rightarrow> seam_id list \<Rightarrow> (decay_error, registry) result" where
  "register_seams r [] = Inr r"
| "register_seams r (s # ss) =
     (case register_capability_token r s of (_, Inl e) \<Rightarrow> Inl e | (r', Inr _) \<Rightarrow> register_seams r' ss)"

definition with_all_seams :: "(decay_error, registry) result" where
  "with_all_seams = register_seams capability_registry_new all_seams"

definition token_authorized_level :: "registry \<Rightarrow> seam_id \<Rightarrow> (decay_error, rat) result" where
  "token_authorized_level r s = (case r s of None \<Rightarrow> Inl (TokenNotFound s) | Some t \<Rightarrow> Inr (authorized_level t))"

definition token_status_of :: "registry \<Rightarrow> seam_id \<Rightarrow> (decay_error, token_status) result" where
  "token_status_of r s = (case r s of None \<Rightarrow> Inl (TokenNotFound s) | Some t \<Rightarrow> Inr (status t))"

definition should_activate_learned :: "registry \<Rightarrow> seam_id \<Rightarrow> i64 \<Rightarrow> (decay_error, bool) result" where
  "should_activate_learned r s now =
     (case r s of None \<Rightarrow> Inl (TokenNotFound s) | Some t \<Rightarrow> Inr (allows_learned_policy t now))"

definition record_token_outcome :: "registry \<Rightarrow> seam_id \<Rightarrow> bool \<Rightarrow> registry \<times> (decay_error, unit) result" where
  "record_token_outcome r s success =
     (case r s of
        None \<Rightarrow> (r, Inl (TokenNotFound s))
      | Some t \<Rightarrow>
          if status t = Frozen then (r, Inl (TokenFrozen s)) else (r(s \<mapsto> record_outcome t success), Inr ()))"

definition maybe_promote_token :: "registry \<Rightarrow> seam_id \<Rightarrow> registry \<times> (decay_error, bool) result" where
  "maybe_promote_token r s =
     (case r s of
        None \<Rightarrow> (r, Inl (TokenNotFound s))
      | Some t \<Rightarrow>
          if status t = Frozen then (r, Inl (TokenFrozen s))
          else if status t = Cooldown then (r, Inl (CooldownActive s))
          else (let (t', promoted) = maybe_promote t in (r(s \<mapsto> t'), Inr promoted)))"

text \<open>The clock is the result of \<^verbatim>\<open>current_utc_secs\<close>, which fails before 1970.\<close>

definition trigger_asa :: "registry \<Rightarrow> seam_id \<Rightarrow> (decay_error, i64) result \<Rightarrow> registry \<times> (decay_error, bool) result" where
  "trigger_asa r s clock =
     (case clock of
        Inl e \<Rightarrow> (r, Inl e)
      | Inr now \<Rightarrow>
          (case r s of
             None \<Rightarrow> (r, Inl (TokenNotFound s))
           | Some t \<Rightarrow> (let (t', frozen) = trigger_asa_intervention t now in (r(s \<mapsto> t'), Inr frozen))))"

definition decay_capability_token :: "registry \<Rightarrow> seam_id \<Rightarrow> f32 \<Rightarrow> registry \<times> (decay_error, unit) result" where
  "decay_capability_token r s amount =
     (case r s of None \<Rightarrow> (r, Inl (TokenNotFound s)) | Some t \<Rightarrow> (r(s \<mapsto> decay t amount), Inr ()))"

definition freeze_token :: "registry \<Rightarrow> seam_id \<Rightarrow> registry \<times> (decay_error, unit) result" where
  "freeze_token r s = (case r s of None \<Rightarrow> (r, Inl (TokenNotFound s)) | Some t \<Rightarrow> (r(s \<mapsto> freeze t), Inr ()))"

definition unfreeze_token :: "registry \<Rightarrow> seam_id \<Rightarrow> registry \<times> (decay_error, unit) result" where
  "unfreeze_token r s = (case r s of None \<Rightarrow> (r, Inl (TokenNotFound s)) | Some t \<Rightarrow> (r(s \<mapsto> unfreeze t), Inr ()))"

definition freeze_all_learned_tokens :: "registry \<Rightarrow> registry" where
  "freeze_all_learned_tokens r = (\<lambda>s. map_option (\<lambda>t. if status t \<noteq> Frozen then freeze t else t) (r s))"

definition maybe_recover_all_from_cooldown :: "registry \<Rightarrow> (decay_error, i64) result \<Rightarrow> registry \<times> (decay_error, nat) result" where
  "maybe_recover_all_from_cooldown r clock =
     (case clock of
        Inl e \<Rightarrow> (r, Inl e)
      | Inr now \<Rightarrow>
          (\<lambda>s. map_option (\<lambda>t. fst (maybe_recover_from_cooldown t now)) (r s),
           Inr (length (filter (\<lambda>s. case r s of None \<Rightarrow> False | Some t \<Rightarrow> snd (maybe_recover_from_cooldown t now)) all_seams))))"

definition get_token :: "registry \<Rightarrow> seam_id \<Rightarrow> (decay_error, capability_token) result" where
  "get_token r s = (case r s of None \<Rightarrow> Inl (TokenNotFound s) | Some t \<Rightarrow> Inr t)"

text \<open>The public operations that change the registry.\<close>

datatype capability_op =
    Register seam_id
  | RecordOutcome seam_id bool
  | MaybePromote seam_id
  | AsaIntervention seam_id i64
  | DecayBy seam_id f32
  | Freeze seam_id
  | Unfreeze seam_id
  | FreezeAll
  | RecoverAll i64

fun capability_step :: "registry \<Rightarrow> capability_op \<Rightarrow> registry" where
  "capability_step r (Register s) = fst (register_capability_token r s)"
| "capability_step r (RecordOutcome s b) = fst (record_token_outcome r s b)"
| "capability_step r (MaybePromote s) = fst (maybe_promote_token r s)"
| "capability_step r (AsaIntervention s now) = fst (trigger_asa r s (Inr now))"
| "capability_step r (DecayBy s a) = fst (decay_capability_token r s a)"
| "capability_step r (Freeze s) = fst (freeze_token r s)"
| "capability_step r (Unfreeze s) = fst (unfreeze_token r s)"
| "capability_step r FreezeAll = freeze_all_learned_tokens r"
| "capability_step r (RecoverAll now) = fst (maybe_recover_all_from_cooldown r (Inr now))"

section \<open>The constants\<close>

lemma alpha_value: "EWMA_ALPHA = 13421773 / 134217728"
  using round_near [of 4 "1 / 10" 13421773] by (simp add: EWMA_ALPHA_def)

lemma step_value: "PROMOTION_STEP_BASE = 13421773 / 134217728"
  using alpha_value by (simp add: PROMOTION_STEP_BASE_def EWMA_ALPHA_def)

lemma initial_value: "INITIAL_LEVEL = 13421773 / 67108864"
  using round_near [of 3 "2 / 10" 13421773] by (simp add: INITIAL_LEVEL_def)

lemma decay_value: "DECAY_ON_ASA = 13421773 / 67108864"
  using initial_value by (simp add: INITIAL_LEVEL_def DECAY_ON_ASA_def)

lemma threshold_value: "ACTIVATION_THRESHOLD = 5033165 / 16777216"
  using round_near [of 2 "3 / 10" 10066330] by (simp add: ACTIVATION_THRESHOLD_def)

lemma gate_value: "f32_round (7 / 10) = 11744051 / 16777216"
  using round_near [of 1 "7 / 10" 11744051] by simp

lemma keep_value: "f32_round (1 - EWMA_ALPHA) = 15099494 / 16777216"
  using round_near [of 1 "1 - EWMA_ALPHA" 15099494] by (simp add: alpha_value)

lemma reward_value: "f32_round EWMA_ALPHA = EWMA_ALPHA"
  using round_idem [of "1 / 10"] by (simp add: EWMA_ALPHA_def)

section \<open>Well-formed tokens\<close>

text \<open>
  Level and success rate are single-precision numbers between 0 and 1, the status agrees with the level,
  and the fields of the cooldown are set in a cooldown only.
\<close>

definition unit_f32 :: "rat \<Rightarrow> bool" where
  "unit_f32 x = (0 \<le> x \<and> x \<le> 1 \<and> f32_round x = x)"

fun status_ok :: "token_status \<Rightarrow> capability_token \<Rightarrow> bool" where
  "status_ok Provisional t = (authorized_level t < ACTIVATION_THRESHOLD \<and> cooldown_until t = None \<and> consecutive_asa_count t = 0)"
| "status_ok Authorized t = (ACTIVATION_THRESHOLD \<le> authorized_level t \<and> cooldown_until t = None \<and> consecutive_asa_count t = 0)"
| "status_ok Cooldown t = (cooldown_until t \<noteq> None \<and> consecutive_asa_count t < ASA_FREEZE_THRESHOLD)"
| "status_ok Frozen t = (cooldown_until t = None)"

definition token_ok :: "capability_token \<Rightarrow> bool" where
  "token_ok t = (unit_f32 (authorized_level t) \<and> unit_f32 (success_ewma t) \<and> status_ok (status t) t)"

lemma unit_round: "0 \<le> x \<Longrightarrow> x \<le> 1 \<Longrightarrow> unit_f32 (f32_round x)"
  using round_unit [of x] round_idem [of x] by (simp add: unit_f32_def)

lemma unit_const [simp]: "unit_f32 0" "unit_f32 1" "unit_f32 INITIAL_LEVEL" "unit_f32 (1 / 2)"
proof -
  show "unit_f32 INITIAL_LEVEL" unfolding INITIAL_LEVEL_def by (rule unit_round) simp_all
  show "unit_f32 (1 / 2)" using round_near [of 1 "1 / 2" "2 ^ 23"] by (simp add: unit_f32_def)
qed (simp_all add: unit_f32_def)

text \<open>The largest single-precision number below the threshold.\<close>

lemma below_threshold:
  assumes "unit_f32 x" "x < ACTIVATION_THRESHOLD"
  shows "x \<le> of_int 10066329 / 2 ^ 25"
proof (cases "x < 1 / 4")
  case False
  have x: "0 \<le> x" "x < 2 / 2 ^ 2" "f32_round x = x" "x < of_int 10066330 / 2 ^ 25"
    using assms by (simp_all add: unit_f32_def threshold_value)
  obtain m where m: "23 + 2 \<le> m" "f32_round x = of_int (round_even (x * 2 ^ m)) / 2 ^ m" "x < 2 ^ 24 / 2 ^ m"
    by (rule round_grid [OF x(1,2)]) simp_all
  have "1 / 4 < (2::rat) ^ 24 / 2 ^ m" using False m(3) by linarith
  then have "(2::rat) ^ m < 2 ^ 26" by (simp add: field_simps)
  then have "m < 26" by (simp only: power_strict_increasing_iff one_less_numeral_iff semiring_norm)
  then have "m = 25" using m(1) by simp
  define k where "k = round_even (x * 2 ^ 25)"
  have xk: "x = of_int k / 2 ^ 25" using m(2) x(3) \<open>m = 25\<close> by (simp add: k_def)
  then have "(of_int k :: rat) < of_int 10066330" using x(4) by simp
  then have "k \<le> 10066329" by (simp only: of_int_less_iff)
  then have "(of_int k :: rat) \<le> of_int 10066329" by (simp only: of_int_le_iff)
  then show ?thesis using xk by simp
qed simp

lemma decayed_level_eq:
  assumes "level \<le> 1"
  obtains x where "x \<le> level" "decayed_level level a = (if x \<le> 0 then 0 else f32_round x)"
proof -
  have clamp: "max 0 (min 1 (f32_round x)) = (if x \<le> 0 then 0 else f32_round x)" if "x \<le> 1" for x
    using that round_negative [of x] round_unit [of x] by (cases "x \<le> 0") simp_all
  show thesis
  proof (cases a)
    case (Finite r)
    have "level - max r 0 \<le> level" by simp
    then show ?thesis using that [of "level - max r 0"] clamp [of "level - max r 0"] assms Finite by simp
  next
    case PosInf
    then show ?thesis using that [of "min level 0"] by simp
  qed (use that [of level] clamp [of level] assms in simp_all)
qed

lemma decayed_level_ok:
  assumes "unit_f32 level"
  shows "unit_f32 (decayed_level level a) \<and> (level < ACTIVATION_THRESHOLD \<longrightarrow> decayed_level level a < ACTIVATION_THRESHOLD)"
proof -
  obtain x where x: "x \<le> level" "decayed_level level a = (if x \<le> 0 then 0 else f32_round x)"
    using assms by (auto simp: unit_f32_def intro: decayed_level_eq)
  have "decayed_level level a < ACTIVATION_THRESHOLD" if "level < ACTIVATION_THRESHOLD" "0 < x"
  proof -
    have "x \<le> of_int 10066329 / 2 ^ (23 + 2)" using below_threshold [OF assms that(1)] x(1) by simp
    moreover from this have "x < 2 / 2 ^ 2" by simp
    ultimately have "f32_round x \<le> of_int 10066329 / 2 ^ (23 + 2)" using that(2) by (intro round_le) simp_all
    then show ?thesis using x(2) that(2) by (simp add: threshold_value)
  qed
  then show ?thesis using x assms unit_round [of x] by (auto simp: unit_f32_def threshold_value)
qed

section \<open>Every operation keeps tokens well-formed\<close>

lemma new_ok: "token_ok (capability_token_new name s)"
  by (simp add: token_ok_def capability_token_new_def) (simp add: initial_value threshold_value)

lemma record_outcome_ewma:
  assumes "0 \<le> success_ewma t" "success_ewma t \<le> 1"
  shows "unit_f32 (success_ewma (record_outcome t b)) \<and>
    (b \<longrightarrow> 9 / 10 * success_ewma t + 1 / 10 - 2 / 10 ^ 5 \<le> success_ewma (record_outcome t b) \<and>
       success_ewma (record_outcome t b) \<le> 9 / 10 * success_ewma t + 1 / 10 + 2 / 10 ^ 5)"
proof -
  let ?c = "15099494 / 16777216 :: rat" and ?e = "success_ewma t"
  let ?x = "f32_round (?c * ?e)"
  have c: "0 \<le> ?c * ?e" "?c * ?e \<le> ?c" using assms by simp_all
  then have less: "?c * ?e < 1" by linarith
  have x: "0 \<le> ?x" "?x \<le> ?c"
    using round_le [of "?c * ?e" 1 15099494] round_unit [of "?c * ?e"] c less by simp_all
  have r: "success_ewma (record_outcome t b) = f32_round (?x + (if b then EWMA_ALPHA else 0))"
    by (simp add: record_outcome_def keep_value reward_value)
  have s: "0 \<le> ?x + (if b then EWMA_ALPHA else 0)" "?x + (if b then EWMA_ALPHA else 0) < 1"
    using x by (simp_all add: alpha_value)
  have "9 / 10 * ?e + 1 / 10 - 2 / 10 ^ 5 \<le> f32_round (?x + EWMA_ALPHA) \<and>
      f32_round (?x + EWMA_ALPHA) \<le> 9 / 10 * ?e + 1 / 10 + 2 / 10 ^ 5" if b
  proof -
    have "?x + EWMA_ALPHA - 1 / 2 ^ 25 \<le> f32_round (?x + EWMA_ALPHA)" "f32_round (?x + EWMA_ALPHA) \<le> ?x + EWMA_ALPHA + 1 / 2 ^ 25"
      using round_close [OF s] that by simp_all
    moreover have "?c * ?e - 1 / 2 ^ 25 \<le> ?x" "?x \<le> ?c * ?e + 1 / 2 ^ 25" by (rule round_close [OF c(1) less])+
    ultimately show ?thesis using assms alpha_value by simp
  qed
  then show ?thesis using r unit_round [OF s(1)] s(2) by (cases b) simp_all
qed

lemma record_outcome_frame [simp]:
  "authorized_level (record_outcome t b) = authorized_level t" "status (record_outcome t b) = status t"
  "cooldown_until (record_outcome t b) = cooldown_until t" "consecutive_asa_count (record_outcome t b) = consecutive_asa_count t"
  "seam (record_outcome t b) = seam t"
  by (simp_all add: record_outcome_def)

lemma status_ok_cong:
  "authorized_level t = authorized_level u \<Longrightarrow> cooldown_until t = cooldown_until u \<Longrightarrow>
   consecutive_asa_count t = consecutive_asa_count u \<Longrightarrow> status_ok st t = status_ok st u"
  by (cases st) simp_all

lemma record_outcome_ok: "token_ok t \<Longrightarrow> token_ok (record_outcome t b)"
  using record_outcome_ewma [of t b] status_ok_cong [of "record_outcome t b" t]
  by (simp add: token_ok_def unit_f32_def)

lemma maybe_promote_frame [simp]:
  "success_ewma (fst (maybe_promote t)) = success_ewma t" "cooldown_until (fst (maybe_promote t)) = cooldown_until t"
  "consecutive_asa_count (fst (maybe_promote t)) = consecutive_asa_count t" "seam (fst (maybe_promote t)) = seam t"
  by (simp_all add: maybe_promote_def Let_def)

text \<open>One promotion of a token that passes the gate.\<close>

definition promoted_level :: "rat \<Rightarrow> rat" where
  "promoted_level l = min (f32_round (l + f32_round (PROMOTION_STEP_BASE * f32_round (1 - l)))) 1"

lemma promoted_level_ok:
  assumes "0 \<le> l" "l \<le> 1"
  shows "unit_f32 (promoted_level l) \<and> (l < 1 / 2 \<longrightarrow>
      9 / 10 * l + 1 / 10 - 2 / 10 ^ 5 \<le> promoted_level l \<and> promoted_level l \<le> 9 / 10 * l + 1 / 10 + 2 / 10 ^ 5)"
proof -
  let ?b = "13421773 / 134217728 :: rat"
  let ?r = "f32_round (1 - l)"
  have r: "0 \<le> ?r" "?r \<le> 1" using round_unit [of "1 - l"] assms by simp_all
  have p: "0 \<le> ?b * ?r" "?b * ?r < 1" using r by simp_all
  let ?s = "f32_round (?b * ?r)"
  have s: "0 \<le> ?s" "?s \<le> 1 / 2"
    using round_unit [of "?b * ?r"] round_le [of "?b * ?r" 1 "2 ^ 23"] p r by simp_all
  have u: "unit_f32 (min (f32_round (l + ?s)) 1)"
  proof -
    have "f32_round (f32_round (l + ?s)) = f32_round (l + ?s)" using assms s by (intro round_idem) simp_all
    moreover have "0 \<le> f32_round (l + ?s)" using round_ge [of "l + ?s" 0 0] assms s by simp
    ultimately show ?thesis by (simp add: unit_f32_def min_def)
  qed
  have "9 / 10 * l + 1 / 10 - 2 / 10 ^ 5 \<le> min (f32_round (l + ?s)) 1 \<and> min (f32_round (l + ?s)) 1 \<le> 9 / 10 * l + 1 / 10 + 2 / 10 ^ 5"
    if "l < 1 / 2"
  proof -
    have e1: "1 - l - 1 / 2 ^ 25 \<le> ?r" "?r \<le> 1 - l + 1 / 2 ^ 25"
      using round_close [of "1 - l"] assms by (cases "l = 0"; simp)+
    have e2: "?b * ?r - 1 / 2 ^ 25 \<le> ?s" "?s \<le> ?b * ?r + 1 / 2 ^ 25" by (rule round_close [OF p])+
    have q: "0 \<le> l + ?s" "l + ?s < 1" using assms s that by simp_all
    have e3: "l + ?s - 1 / 2 ^ 25 \<le> f32_round (l + ?s)" "f32_round (l + ?s) \<le> l + ?s + 1 / 2 ^ 25" by (rule round_close [OF q])+
    show ?thesis using e1 e2 e3 assms by simp
  qed
  then show ?thesis using u by (simp add: promoted_level_def step_value)
qed

lemma maybe_promote_eq:
  "fst (maybe_promote t) =
     (if (status t = Provisional \<or> status t = Authorized) \<and> 11744051 / 16777216 \<le> success_ewma t \<and>
         authorized_level t < promoted_level (authorized_level t)
      then t\<lparr>authorized_level := promoted_level (authorized_level t),
             status := if ACTIVATION_THRESHOLD \<le> promoted_level (authorized_level t) then Authorized else status t\<rparr>
      else t)"
proof -
  let ?n = "promoted_level (authorized_level t)"
  have "fst (maybe_promote t) =
     (if status t = Cooldown \<or> status t = Frozen \<or> success_ewma t < 11744051 / 16777216 \<or> ?n \<le> authorized_level t then t
      else if ACTIVATION_THRESHOLD \<le> ?n \<and> status t = Provisional then t\<lparr>authorized_level := ?n, status := Authorized\<rparr>
      else t\<lparr>authorized_level := ?n\<rparr>)"
    by (simp add: maybe_promote_def promoted_level_def gate_value Let_def)
  then show ?thesis by (cases t; cases "status t") (simp_all add: not_le)
qed

lemma maybe_promote_ok:
  assumes "token_ok t"
  shows "token_ok (fst (maybe_promote t))"
proof -
  have p: "unit_f32 (promoted_level (authorized_level t))" using promoted_level_ok [of "authorized_level t"] assms
    by (simp add: token_ok_def unit_f32_def)
  show ?thesis
  proof (cases "status t")
    case Provisional
    then show ?thesis using assms p by (auto simp: maybe_promote_eq token_ok_def)
  next
    case Authorized
    then show ?thesis using assms p by (auto simp: maybe_promote_eq token_ok_def)
  qed (use assms in \<open>simp_all add: maybe_promote_eq\<close>)
qed

lemma decay_frame [simp]:
  "success_ewma (decay t a) = success_ewma t" "cooldown_until (decay t a) = cooldown_until t"
  "consecutive_asa_count (decay t a) = consecutive_asa_count t" "seam (decay t a) = seam t"
  "authorized_level (decay t a) = decayed_level (authorized_level t) a"
  by (simp_all add: decay_def Let_def)

lemma decay_status:
  "status (decay t a) =
     (if decayed_level (authorized_level t) a < ACTIVATION_THRESHOLD \<and> status t = Authorized then Provisional else status t)"
  by (simp add: decay_def Let_def)

lemma decay_ok:
  assumes "token_ok t"
  shows "token_ok (decay t a)"
  using assms decayed_level_ok [of "authorized_level t" a]
  by (cases "status t") (auto simp: token_ok_def decay_status)

lemma trigger_asa_ok:
  assumes "token_ok t"
  shows "token_ok (fst (trigger_asa_intervention t now))"
  using decay_ok [OF assms, of "Finite DECAY_ON_ASA"]
  by (simp add: trigger_asa_intervention_def token_ok_def Let_def not_le)

lemma recover_ok: "token_ok t \<Longrightarrow> token_ok (fst (maybe_recover_from_cooldown t now))"
  by (auto simp: maybe_recover_from_cooldown_def token_ok_def)

lemma freeze_ok: "token_ok t \<Longrightarrow> token_ok (freeze t)"
  by (simp add: freeze_def token_ok_def)

lemma unfreeze_ok: "token_ok (unfreeze t)"
  by (simp add: unfreeze_def token_ok_def) (simp add: initial_value threshold_value)

section \<open>The registry as a transition system\<close>

definition capability_ok :: "registry \<Rightarrow> bool" where
  "capability_ok r \<longleftrightarrow> (\<forall>s t. r s = Some t \<longrightarrow> token_ok t \<and> seam t = s)"

lemma capability_ok_upd: "capability_ok r \<Longrightarrow> token_ok t \<Longrightarrow> seam t = s \<Longrightarrow> capability_ok (r(s \<mapsto> t))"
  by (simp add: capability_ok_def)

lemma capability_ok_map:
  assumes "capability_ok r" "\<And>t. token_ok t \<Longrightarrow> token_ok (f t)" "\<And>t. seam (f t) = seam t"
  shows "capability_ok (\<lambda>s. map_option f (r s))"
  using assms by (auto simp: capability_ok_def)

lemma seam_kept [simp]:
  "seam (fst (trigger_asa_intervention t now)) = seam t" "seam (fst (maybe_recover_from_cooldown t now)) = seam t"
  "seam (freeze t) = seam t" "seam (unfreeze t) = seam t" "seam (capability_token_new name s) = s"
  by (simp_all add: trigger_asa_intervention_def maybe_recover_from_cooldown_def freeze_def unfreeze_def capability_token_new_def Let_def)

lemma capability_ok_step:
  assumes "capability_ok r"
  shows "capability_ok (capability_step r op)"
proof (cases op)
  case (Register s)
  then show ?thesis using assms new_ok by (simp add: register_capability_token_def capability_ok_upd)
next
  case (RecordOutcome s b)
  then show ?thesis using assms record_outcome_ok
    by (auto simp: record_token_outcome_def capability_ok_def split: option.splits)
next
  case (MaybePromote s)
  then show ?thesis using assms maybe_promote_ok
    by (auto simp: maybe_promote_token_def capability_ok_def case_prod_unfold Let_def split: option.splits)
next
  case (AsaIntervention s now)
  then show ?thesis using assms trigger_asa_ok
    by (auto simp: trigger_asa_def capability_ok_def case_prod_unfold Let_def split: option.splits)
next
  case (DecayBy s a)
  then show ?thesis using assms decay_ok
    by (auto simp: decay_capability_token_def capability_ok_def split: option.splits)
next
  case (Freeze s)
  then show ?thesis using assms freeze_ok
    by (auto simp: freeze_token_def capability_ok_def split: option.splits)
next
  case (Unfreeze s)
  then show ?thesis using assms unfreeze_ok
    by (auto simp: unfreeze_token_def capability_ok_def split: option.splits)
next
  case FreezeAll
  then show ?thesis using assms freeze_ok by (auto simp: freeze_all_learned_tokens_def intro!: capability_ok_map)
next
  case (RecoverAll now)
  then show ?thesis using assms recover_ok
    by (auto simp: maybe_recover_all_from_cooldown_def intro!: capability_ok_map)
qed

interpretation capability: invariant_system "\<lambda>r. r = capability_registry_new" "\<lambda>r r'. \<exists>op. r' = capability_step r op" capability_ok
proof (unfold_locales, goal_cases)
  case 1
  then show ?case by (simp add: capability_ok_def capability_registry_new_def)
next
  case 2
  then show ?case using capability_ok_step by blast
qed

lemma capability_run_steps: "(\<lambda>r r'. \<exists>op. r' = capability_step r op)\<^sup>*\<^sup>* r (foldl capability_step r ops)"
proof (induction ops rule: rev_induct)
  case (snoc op ops)
  then show ?case by (auto intro: rtranclp.rtrancl_into_rtrancl)
qed simp

lemma capability_run_ok: "capability_ok (foldl capability_step capability_registry_new ops)"
  using capability.inv_reachable capability_run_steps by blast

lemma with_all_seams_run: "with_all_seams = Inr (foldl capability_step capability_registry_new (map Register all_seams))"
  by (simp add: with_all_seams_def all_seams_def register_capability_token_def capability_registry_new_def)

section \<open>A cooldown blocks\<close>

fun clock_within :: "int \<Rightarrow> int \<Rightarrow> capability_op \<Rightarrow> bool" where
  "clock_within lo hi (AsaIntervention s u) = (lo \<le> sint u \<and> sint u < hi)"
| "clock_within lo hi (RecoverAll u) = (lo \<le> sint u \<and> sint u < hi)"
| "clock_within lo hi op = True"

definition blocked :: "registry \<Rightarrow> seam_id \<Rightarrow> int \<Rightarrow> bool" where
  "blocked r s until =
     (case r s of
        None \<Rightarrow> False
      | Some t \<Rightarrow>
          status t = Frozen \<or> status t = Cooldown \<and> (case cooldown_until t of None \<Rightarrow> False | Some u \<Rightarrow> until \<le> sint u))"

lemma sint_later:
  fixes u :: i64
  assumes "0 \<le> sint u + 60" "sint u + 60 < 2 ^ 63"
  shows "sint (u + 60) = sint u + 60"
proof -
  have "sint (60 :: i64) = 60" by simp
  then have "sint (u + 60) = signed_take_bit 63 (sint u + 60)" by (simp add: sint_word_ariths)
  then show ?thesis using assms by (simp add: signed_take_bit_int_eq_self)
qed

lemma asa_blocks:
  assumes "r s = Some tok" "0 \<le> sint u" "sint u + 60 < 2 ^ 63" "until \<le> sint u + 60"
  shows "blocked (r(s \<mapsto> fst (trigger_asa_intervention tok u))) s until"
  using assms sint_later [of u]
  by (simp add: blocked_def trigger_asa_intervention_def COOLDOWN_DURATION_SECS_def Let_def)

lemma blocked_other: "blocked r s until \<Longrightarrow> s' \<noteq> s \<Longrightarrow> blocked (r(s' \<mapsto> tok)) s until"
  by (simp add: blocked_def)

lemma blocked_step:
  assumes "blocked r s until" "clock_within lo until op" "op \<noteq> Unfreeze s" "0 \<le> lo" "until + 60 < 2 ^ 63" "until \<le> lo + 60"
  shows "blocked (capability_step r op) s until"
proof -
  obtain tok where tok: "r s = Some tok" "status tok = Frozen \<or> status tok = Cooldown \<and> (\<exists>u. cooldown_until tok = Some u \<and> until \<le> sint u)"
    using assms(1) by (auto simp: blocked_def split: option.splits)
  show ?thesis
  proof (cases op)
    case (Register s')
    then show ?thesis using assms(1) tok(1)
      by (cases "s' = s") (auto simp: register_capability_token_def blocked_other)
  next
    case (RecordOutcome s' b)
    then show ?thesis using assms(1) tok
      by (cases "s' = s") (auto simp: record_token_outcome_def blocked_other blocked_def split: option.splits)
  next
    case (MaybePromote s')
    then show ?thesis using assms(1) tok
      by (cases "s' = s") (auto simp: maybe_promote_token_def blocked_other case_prod_unfold Let_def split: option.splits)
  next
    case (AsaIntervention s' u)
    then have u: "lo \<le> sint u" "sint u < until" using assms(2) by simp_all
    show ?thesis
    proof (cases "s' = s")
      case True
      then show ?thesis using AsaIntervention tok(1) asa_blocks [of r s tok u until] u assms(4-6)
        by (simp add: trigger_asa_def case_prod_unfold Let_def)
    next
      case False
      then show ?thesis using AsaIntervention assms(1)
        by (auto simp: trigger_asa_def blocked_other case_prod_unfold Let_def split: option.splits)
    qed
  next
    case (DecayBy s' a)
    then show ?thesis using assms(1) tok
      by (cases "s' = s") (auto simp: decay_capability_token_def blocked_other blocked_def decay_status split: option.splits)
  next
    case (Freeze s')
    then show ?thesis using assms(1) tok
      by (cases "s' = s") (auto simp: freeze_token_def blocked_other blocked_def freeze_def split: option.splits)
  next
    case (Unfreeze s')
    then show ?thesis using assms(1,3) by (auto simp: unfreeze_token_def blocked_other split: option.splits)
  next
    case FreezeAll
    then show ?thesis using tok by (auto simp: freeze_all_learned_tokens_def blocked_def freeze_def)
  next
    case (RecoverAll u)
    then have "sint u < until" using assms(2) by simp
    then show ?thesis using tok RecoverAll
      by (auto simp: maybe_recover_all_from_cooldown_def blocked_def maybe_recover_from_cooldown_def word_sless_alt)
  qed
qed

lemma blocked_run:
  "blocked r s until \<Longrightarrow> \<forall>op \<in> set ops. clock_within lo until op \<and> op \<noteq> Unfreeze s \<Longrightarrow> 0 \<le> lo \<Longrightarrow>
   until + 60 < 2 ^ 63 \<Longrightarrow> until \<le> lo + 60 \<Longrightarrow> blocked (foldl capability_step r ops) s until"
proof (induction ops arbitrary: r)
  case (Cons op ops)
  then show ?case using blocked_step [of r s until lo op] by simp
qed simp

lemma blocked_denies: "blocked r s until \<Longrightarrow> sint now < until \<Longrightarrow> should_activate_learned r s now = Inr False"
  by (auto simp: blocked_def should_activate_learned_def allows_learned_policy_def is_in_cooldown_def word_sless_alt
      split: option.splits)

section \<open>Promotion reaches the threshold\<close>

definition round_token :: "capability_token \<Rightarrow> capability_token" where
  "round_token t = fst (maybe_promote (record_outcome t True))"

definition active :: "capability_token \<Rightarrow> bool" where
  "active t \<longleftrightarrow> status t = Provisional \<or> status t = Authorized"

lemma round_ok: "token_ok t \<Longrightarrow> token_ok (round_token t)"
  by (simp add: round_token_def record_outcome_ok maybe_promote_ok)

lemma round_active: "active t \<Longrightarrow> active (round_token t)"
  by (auto simp: round_token_def active_def maybe_promote_eq)

lemma rounds_keep: "token_ok t \<and> active t \<Longrightarrow> token_ok ((round_token ^^ n) t) \<and> active ((round_token ^^ n) t)"
  by (induction n) (auto simp: round_ok round_active)

lemma round_run:
  assumes "r s = Some t" "active t"
  shows "foldl capability_step r [RecordOutcome s True, MaybePromote s] = r(s \<mapsto> round_token t)"
  using assms by (auto simp: active_def record_token_outcome_def maybe_promote_token_def round_token_def case_prod_unfold Let_def)

lemma rounds_run:
  "r s = Some t \<Longrightarrow> active t \<Longrightarrow>
   foldl capability_step r (concat (replicate n [RecordOutcome s True, MaybePromote s])) = r(s \<mapsto> (round_token ^^ n) t)"
proof (induction n arbitrary: r t)
  case 0
  then show ?case by (simp add: map_upd_triv)
next
  case (Suc n)
  have "foldl capability_step r (concat (replicate (Suc n) [RecordOutcome s True, MaybePromote s])) =
      foldl capability_step (r(s \<mapsto> round_token t)) (concat (replicate n [RecordOutcome s True, MaybePromote s]))"
    using round_run [of r s t] Suc.prems by simp
  also have "\<dots> = (r(s \<mapsto> round_token t))(s \<mapsto> (round_token ^^ n) (round_token t))"
    by (rule Suc.IH) (simp_all add: round_active Suc.prems)
  finally show ?case by (simp add: funpow_swap1)
qed

text \<open>What \<open>n\<close> rounds achieve at least: the success rate, and the level once the rate has passed the gate.\<close>

definition rate_bound :: "nat \<Rightarrow> rat" where
  "rate_bound n = 1 - (9 / 10) ^ n - 2 / 10 ^ 4"

lemma rate_bound_Suc: "9 / 10 * rate_bound n + 1 / 10 - 2 / 10 ^ 5 = rate_bound (Suc n)"
  by (simp add: rate_bound_def field_simps)

lemma rate_bound_mono: "m \<le> n \<Longrightarrow> rate_bound m \<le> rate_bound n"
  by (simp add: rate_bound_def power_decreasing)

lemma round_progress:
  assumes "token_ok t" "active t" "rate_bound n \<le> success_ewma t"
    "status t = Provisional \<Longrightarrow> rate_bound (n - 11) \<le> authorized_level t"
  shows "rate_bound (Suc n) \<le> success_ewma (round_token t) \<and>
    (status (round_token t) = Provisional \<longrightarrow> rate_bound (Suc n - 11) \<le> authorized_level (round_token t))"
proof -
  let ?t = "record_outcome t True" and ?l = "authorized_level t"
  have u: "0 \<le> ?l" "?l \<le> 1" "0 \<le> success_ewma t" "success_ewma t \<le> 1" using assms(1) by (simp_all add: token_ok_def unit_f32_def)
  have e: "rate_bound (Suc n) \<le> success_ewma ?t"
    using record_outcome_ewma [OF u(3,4), of True] assms(3) rate_bound_Suc [of n] by simp
  have "rate_bound (Suc n - 11) \<le> authorized_level (round_token t)" if p: "status (round_token t) = Provisional"
  proof (cases "n \<le> 10")
    case True
    have "0 \<le> authorized_level (round_token t)" using round_ok [OF assms(1)] by (simp add: token_ok_def unit_f32_def)
    moreover have "rate_bound (Suc n - 11) \<le> 0" using True by (simp add: rate_bound_def)
    ultimately show ?thesis by linarith
  next
    case False
    have pt: "status t = Provisional" using p assms(2) by (auto simp: round_token_def maybe_promote_eq active_def split: if_splits)
    then have l: "?l < ACTIVATION_THRESHOLD" using assms(1) by (simp add: token_ok_def)
    have "rate_bound 12 \<le> rate_bound (Suc n)" using False by (intro rate_bound_mono) simp
    moreover have "11744051 / 16777216 \<le> rate_bound 12" by (simp add: rate_bound_def power_divide)
    ultimately have gate: "11744051 / 16777216 \<le> success_ewma ?t" using e by linarith
    have up: "9 / 10 * ?l + 1 / 10 - 2 / 10 ^ 5 \<le> promoted_level ?l"
      using promoted_level_ok [OF u(1,2)] l by (simp add: threshold_value)
    then have "?l < promoted_level ?l" using l by (simp add: threshold_value)
    then have "authorized_level (round_token t) = promoted_level ?l"
      using pt gate by (simp add: round_token_def maybe_promote_eq)
    moreover have "rate_bound (Suc (n - 11)) \<le> promoted_level ?l"
      using up assms(4) [OF pt] rate_bound_Suc [of "n - 11"] by simp
    ultimately show ?thesis using False Suc_diff_le [of 11 n] by simp
  qed
  then show ?thesis using e by (simp add: round_token_def)
qed

lemma rounds_progress:
  assumes "token_ok t" "active t"
  shows "rate_bound n \<le> success_ewma ((round_token ^^ n) t) \<and>
    (status ((round_token ^^ n) t) = Provisional \<longrightarrow> rate_bound (n - 11) \<le> authorized_level ((round_token ^^ n) t))"
proof (induction n)
  case 0
  have "rate_bound 0 \<le> 0" by (simp add: rate_bound_def)
  then show ?case using assms by (auto simp: token_ok_def unit_f32_def)
next
  case (Suc n)
  then show ?case using round_progress [of "(round_token ^^ n) t" n] rounds_keep [of t n] assms by simp
qed

lemma rounds_authorize:
  assumes "token_ok t" "active t" "15 \<le> n"
  shows "status ((round_token ^^ n) t) = Authorized"
proof (rule ccontr)
  let ?t = "(round_token ^^ n) t"
  assume a: "status ?t \<noteq> Authorized"
  have k: "token_ok ?t" "active ?t" using rounds_keep [of t n] assms by simp_all
  then have p: "status ?t = Provisional" using a by (simp add: active_def)
  have "rate_bound 4 \<le> rate_bound (n - 11)" using assms(3) by (intro rate_bound_mono) simp
  also have "\<dots> \<le> authorized_level ?t" using rounds_progress [OF assms(1,2), of n] p by simp
  also have "\<dots> < ACTIVATION_THRESHOLD" using k(1) p by (simp add: token_ok_def)
  finally show False by (simp add: rate_bound_def threshold_value power_divide)
qed

section \<open>First activation and thawing\<close>

text \<open>A new token needs six rounds in a row: the success rate passes the gate with the fifth only.\<close>

lemma round_simps:
  "success_ewma (round_token t) = success_ewma (record_outcome t True)"
  "success_ewma (record_outcome t True) < 11744051 / 16777216 \<Longrightarrow> round_token t = record_outcome t True"
  "status t = Provisional \<Longrightarrow> 11744051 / 16777216 \<le> success_ewma (record_outcome t True) \<Longrightarrow>
   authorized_level t < promoted_level (authorized_level t) \<Longrightarrow>
   authorized_level (round_token t) = promoted_level (authorized_level t) \<and>
   status (round_token t) = (if ACTIVATION_THRESHOLD \<le> promoted_level (authorized_level t) then Authorized else Provisional)"
  by (simp_all add: round_token_def maybe_promote_eq)

definition fresh_rate :: "nat \<Rightarrow> rat" where
  "fresh_rate n = 1 - (9 / 10) ^ n / 2"

definition near_fresh :: "nat \<Rightarrow> rat \<Rightarrow> bool" where
  "near_fresh n e \<longleftrightarrow> fresh_rate n - 2 / 10 ^ 4 \<le> e \<and> e \<le> fresh_rate n + 2 / 10 ^ 4"

lemma fresh_round:
  assumes "0 \<le> success_ewma t" "success_ewma t \<le> 1" "near_fresh n (success_ewma t)"
  shows "near_fresh (Suc n) (success_ewma (record_outcome t True))"
proof -
  have "fresh_rate (Suc n) = 9 / 10 * fresh_rate n + 1 / 10" by (simp add: fresh_rate_def field_simps)
  then show ?thesis using record_outcome_ewma [OF assms(1,2), of True] assms(3) by (simp add: near_fresh_def)
qed

lemma fresh_rounds:
  "n \<le> 4 \<Longrightarrow> near_fresh n (success_ewma ((round_token ^^ n) (capability_token_new k s))) \<and>
   status ((round_token ^^ n) (capability_token_new k s)) = Provisional \<and> authorized_level ((round_token ^^ n) (capability_token_new k s)) = INITIAL_LEVEL"
proof (induction n)
  case 0
  then show ?case by (simp add: capability_token_new_def near_fresh_def fresh_rate_def)
next
  case (Suc n)
  let ?t = "(round_token ^^ n) (capability_token_new k s)"
  have "token_ok ?t" using rounds_keep [of "capability_token_new k s" n] new_ok by (simp add: active_def capability_token_new_def)
  then have e: "near_fresh (Suc n) (success_ewma (record_outcome ?t True))"
    using Suc fresh_round [of ?t n] by (simp add: token_ok_def unit_f32_def)
  have "(9 / 10 :: rat) ^ 4 \<le> (9 / 10) ^ Suc n" using Suc.prems by (intro power_decreasing) simp_all
  then have "fresh_rate (Suc n) \<le> 1 - (9 / 10) ^ 4 / 2" by (simp add: fresh_rate_def)
  then have "success_ewma (record_outcome ?t True) < 11744051 / 16777216" using e by (simp add: near_fresh_def power_divide)
  then have "round_token ?t = record_outcome ?t True" by (rule round_simps(2))
  then show ?case using e Suc by simp
qed

lemma new_token_needs_six:
  "status ((round_token ^^ 5) (capability_token_new k s)) = Provisional" "status ((round_token ^^ 6) (capability_token_new k s)) = Authorized"
proof -
  let ?t = "\<lambda>n. (round_token ^^ n) (capability_token_new k s)"
  have ok: "0 \<le> success_ewma (?t n)" "success_ewma (?t n) \<le> 1" for n
    using rounds_keep [of "capability_token_new k s" n] new_ok by (simp_all add: active_def capability_token_new_def token_ok_def unit_f32_def)
  have four: "near_fresh 4 (success_ewma (?t 4))" "status (?t 4) = Provisional" "authorized_level (?t 4) = INITIAL_LEVEL"
    using fresh_rounds [of 4 k s] by simp_all
  have s: "?t 5 = round_token (?t 4)" "?t 6 = round_token (?t 5)" by (simp_all add: numeral_eq_Suc)
  have e5: "near_fresh (Suc 4) (success_ewma (record_outcome (?t 4) True))" by (rule fresh_round [OF ok four(1)])
  then have g5: "11744051 / 16777216 \<le> success_ewma (record_outcome (?t 4) True)" by (simp add: near_fresh_def fresh_rate_def power_divide)
  have p5: "28 / 100 - 3 / 10 ^ 5 \<le> promoted_level INITIAL_LEVEL" "promoted_level INITIAL_LEVEL \<le> 28 / 100 + 3 / 10 ^ 5"
    using promoted_level_ok [of INITIAL_LEVEL] by (simp_all add: initial_value)
  then have t5: "authorized_level (?t 5) = promoted_level INITIAL_LEVEL" "status (?t 5) = Provisional"
    using round_simps(3) [OF four(2) g5] four(3) s(1) by (simp_all add: initial_value threshold_value)
  then show "status (?t 5) = Provisional" by simp
  have "near_fresh (Suc 4) (success_ewma (?t 5))" using e5 s(1) by (simp add: round_simps(1))
  then have "near_fresh (Suc (Suc 4)) (success_ewma (record_outcome (?t 5) True))" by (rule fresh_round [OF ok])
  then have g6: "11744051 / 16777216 \<le> success_ewma (record_outcome (?t 5) True)" by (simp add: near_fresh_def fresh_rate_def power_divide)
  have "9 / 10 * promoted_level INITIAL_LEVEL + 1 / 10 - 2 / 10 ^ 5 \<le> promoted_level (promoted_level INITIAL_LEVEL)"
    using promoted_level_ok [of "promoted_level INITIAL_LEVEL"] p5 by simp
  then show "status (?t 6) = Authorized"
    using round_simps(3) [OF t5(2) g6] t5(1) s(2) p5 by (simp add: threshold_value)
qed

text \<open>An intervention on a token that was frozen by hand puts it into a cooldown, and the token thaws.\<close>

lemma intervention_thaws:
  assumes "consecutive_asa_count t = 0" "0 \<le> sint u" "sint u + 60 < 2 ^ 63"
  shows "status (fst (maybe_recover_from_cooldown (fst (trigger_asa_intervention (freeze t) u)) (u + 60))) = Provisional"
proof -
  have "decayed_level 0 (Finite DECAY_ON_ASA) = 0" by (rule decayed_level_eq [of 0 "Finite DECAY_ON_ASA"]) simp_all
  then show ?thesis using assms
    by (simp add: trigger_asa_intervention_def maybe_recover_from_cooldown_def freeze_def COOLDOWN_DURATION_SECS_def
        ASA_FREEZE_THRESHOLD_def decay_status threshold_value word_le_nat_alt Let_def)
qed

section \<open>Properties\<close>

text \<open>
  C22: tokens stay well-formed. Whatever operations run on a new registry, every token is filed under
  its own seam, its level and success rate are single-precision numbers between 0 and 1, it is provisional
  exactly below the threshold and authorised exactly from it on, and it has an end of cooldown only in a cooldown.
\<close>

theorem registry_keeps_tokens_ok:
  assumes "foldl capability_step capability_registry_new ops s = Some t"
  shows "token_ok t \<and> seam t = s"
  using capability_run_ok [of ops] assms by (simp add: capability_ok_def)

theorem registry_keeps_tokens_ok_witness:
  "\<exists>t. foldl capability_step capability_registry_new [Register S1Density, DecayBy S1Density NaN, AsaIntervention S1Density 5] S1Density = Some t \<and>
     token_ok t \<and> seam t = S1Density"
proof -
  have "foldl capability_step capability_registry_new [Register S1Density, DecayBy S1Density NaN, AsaIntervention S1Density 5] S1Density \<noteq> None"
    by (simp add: register_capability_token_def capability_registry_new_def decay_capability_token_def trigger_asa_def case_prod_unfold Let_def)
  then show ?thesis using registry_keeps_tokens_ok by blast
qed

text \<open>
  C23: an intervention blocks learned policies. After an intervention at time \<open>t\<close>, and whatever else happens
  to the registry within the next 60 seconds short of unfreezing the token by hand, no learned policy is
  allowed in these 60 seconds, as long as the clock is far from the end of its range.
\<close>

theorem intervention_blocks_learned:
  assumes "trigger_asa r s (Inr t) = (r', Inr frozen)" "0 \<le> sint t" "sint t + 120 < 2 ^ 63"
    "\<forall>op \<in> set ops. clock_within (sint t) (sint t + 60) op \<and> op \<noteq> Unfreeze s" "sint now < sint t + 60"
  shows "should_activate_learned (foldl capability_step r' ops) s now = Inr False"
proof (rule blocked_denies [OF blocked_run])
  obtain tok where "r s = Some tok" "r' = r(s \<mapsto> fst (trigger_asa_intervention tok t))"
    using assms(1) by (auto simp: trigger_asa_def case_prod_unfold Let_def split: option.splits)
  then show "blocked r' s (sint t + 60)" using asa_blocks assms(2,3) by simp
  show "\<forall>op \<in> set ops. clock_within (sint t) (sint t + 60) op \<and> op \<noteq> Unfreeze s" by (rule assms(4))
qed (use assms in simp_all)

theorem intervention_blocks_learned_witness:
  "\<exists>r'. trigger_asa (capability_registry_new(S6Decay \<mapsto> capability_token_new ''a'' S6Decay)) S6Decay (Inr 1000) = (r', Inr False) \<and>
     should_activate_learned (foldl capability_step r' [RecoverAll 1030, RecordOutcome S6Decay True]) S6Decay 1059 = Inr False"
proof -
  let ?r = "capability_registry_new(S6Decay \<mapsto> capability_token_new ''a'' S6Decay)"
  have "snd (trigger_asa_intervention (capability_token_new ''a'' S6Decay) 1000) = False"
    by (simp add: trigger_asa_intervention_def capability_token_new_def ASA_FREEZE_THRESHOLD_def word_le_nat_alt Let_def)
  then obtain r' where r: "trigger_asa ?r S6Decay (Inr 1000) = (r', Inr False)"
    by (simp add: trigger_asa_def case_prod_unfold)
  have "should_activate_learned (foldl capability_step r' [RecoverAll 1030, RecordOutcome S6Decay True]) S6Decay 1059 = Inr False"
    by (rule intervention_blocks_learned [OF r]) simp_all
  then show ?thesis using r by blast
qed



end
