(* ===== verification/Shadow_Breaker.thy ===== *)
theory Shadow_Breaker
  imports Prelude
begin

text \<open>
  The circuit breaker of the shadow mode, \<^verbatim>\<open>decay-engine/src/shadow_breaker.rs\<close>, over the verification
  results of \<^verbatim>\<open>nexus-contracts/src/formal_props.rs\<close>: it lets a learned update pass only on positive
  evidence and trips for good on a violation. \<^verbatim>\<open>str::trim\<close>, which knows the Unicode blanks, is a parameter.
  The messages are the UTF-8 bytes of the source. The event bus is a flag, and what \<^verbatim>\<open>observe\<close> publishes is
  part of its result.
\<close>

section \<open>Model\<close>

datatype verification_result =
    Satisfied u64
  | Violated string u64
  | Skipped string

fun result_is_satisfied :: "verification_result \<Rightarrow> bool" where
  "result_is_satisfied (Satisfied _) = True"
| "result_is_satisfied _ = False"

fun counterexample :: "verification_result \<Rightarrow> string option" where
  "counterexample (Violated c _) = Some c"
| "counterexample _ = None"

datatype reset_auth_error = EmptyField

record reset_authorization =
  authorized_by :: string
  reset_reason :: string

definition authorization_new :: "(string \<Rightarrow> string) \<Rightarrow> string \<Rightarrow> string \<Rightarrow> (reset_auth_error, reset_authorization) result" where
  "authorization_new trim_blanks who why =
     (if trim_blanks who = [] \<or> trim_blanks why = [] then Inl EmptyField
      else Inr \<lparr>authorized_by = who, reset_reason = why\<rparr>)"

datatype breaker_state = Armed | Tripped

datatype rl_gate_verdict = Permitted | DeniedBecause string

definition is_permitted :: "rl_gate_verdict \<Rightarrow> bool" where
  "is_permitted v = (v = Permitted)"

record shadow_breaker =
  state :: breaker_state
  trip_cause :: "string option"
  observations :: u64
  last_reset :: "reset_authorization option"
  with_bus :: bool

definition breaker_new :: shadow_breaker where
  "breaker_new = \<lparr>state = Armed, trip_cause = None, observations = 0, last_reset = None, with_bus = False\<rparr>"

definition breaker_with_event_bus :: shadow_breaker where
  "breaker_with_event_bus = \<lparr>state = Armed, trip_cause = None, observations = 0, last_reset = None, with_bus = True\<rparr>"

fun find_map :: "('a \<Rightarrow> 'b option) \<Rightarrow> 'a list \<Rightarrow> 'b option" where
  "find_map f [] = None"
| "find_map f (x # xs) = (case f x of None \<Rightarrow> find_map f xs | Some y \<Rightarrow> Some y)"

definition already_tripped_text :: string where
  "already_tripped_text =
    [CHR 0xE7, CHR 0x86, CHR 0x94, CHR 0xE6, CHR 0x96, CHR 0xAD, CHR 0xE5, CHR 0x99, CHR 0xA8, CHR 0xE5, CHR 0xB7,
    CHR 0xB2, CHR 0xE8, CHR 0xB7, CHR 0xB3, CHR 0xE9, CHR 0x97, CHR 0xB8, CHR 0x28, CHR 0xE4, CHR 0xB8, CHR
    0x8D, CHR 0xE5, CHR 0x8F, CHR 0xAF, CHR 0xE9, CHR 0x80, CHR 0x86, CHR 0xE7, CHR 0x9B, CHR 0xB4, CHR 0xE8,
    CHR 0x87, CHR 0xB3, CHR 0xE4, CHR 0xBA, CHR 0xBA, CHR 0xE5, CHR 0xB7, CHR 0xA5, CHR 0xE5, CHR 0xA4, CHR
    0x8D, CHR 0xE4, CHR 0xBD, CHR 0x8D, CHR 0x29, CHR 0x3B, CHR 0xE5, CHR 0x8E, CHR 0x9F, CHR 0xE5, CHR 0x9B,
    CHR 0xA0, CHR 0x3A, CHR 0x20]"

definition unknown_text :: string where
  "unknown_text = [CHR 0xE6, CHR 0x9C, CHR 0xAA, CHR 0xE7, CHR 0x9F, CHR 0xA5]"

definition violated_text :: string where
  "violated_text =
    [CHR 0xE5, CHR 0xBD, CHR 0xA2, CHR 0xE5, CHR 0xBC, CHR 0x8F, CHR 0xE5, CHR 0x8C, CHR 0x96, CHR 0xE5, CHR 0xB1,
    CHR 0x9E, CHR 0xE6, CHR 0x80, CHR 0xA7, CHR 0xE8, CHR 0xA2, CHR 0xAB, CHR 0xE8, CHR 0xBF, CHR 0x9D, CHR
    0xE5, CHR 0x8F, CHR 0x8D, CHR 0x3A, CHR 0x20]"

definition no_evidence_text :: string where
  "no_evidence_text =
    [CHR 0xE9, CHR 0xAA, CHR 0x8C, CHR 0xE8, CHR 0xAF, CHR 0x81, CHR 0xE8, CHR 0xAF, CHR 0x81, CHR 0xE6, CHR 0x8D,
    CHR 0xAE, CHR 0xE4, CHR 0xB8, CHR 0x8D, CHR 0xE8, CHR 0xB6, CHR 0xB3, CHR 0x28, CHR 0xE6, CHR 0x97, CHR
    0xA0, CHR 0x20, CHR 0x53, CHR 0x61, CHR 0x74, CHR 0x69, CHR 0x73, CHR 0x66, CHR 0x69, CHR 0x65, CHR 0x64,
    CHR 0x20, CHR 0xE7, CHR 0xBB, CHR 0x93, CHR 0xE6, CHR 0x9E, CHR 0x9C, CHR 0x29, CHR 0x2C, CHR 0x66, CHR
    0x61, CHR 0x69, CHR 0x6C, CHR 0x2D, CHR 0x63, CHR 0x6C, CHR 0x6F, CHR 0x73, CHR 0x65, CHR 0x64, CHR 0x20,
    CHR 0xE6, CHR 0x8B, CHR 0x92, CHR 0xE7, CHR 0xBB, CHR 0x9D]"

text \<open>The new state, the verdict, and the reason in the published event.\<close>

definition observe :: "shadow_breaker \<Rightarrow> verification_result list \<Rightarrow> shadow_breaker \<times> rl_gate_verdict \<times> string option" where
  "observe b results =
     (let b = b\<lparr>observations := observations b + 1\<rparr>
      in if state b = Tripped
         then (b, DeniedBecause (already_tripped_text @ (case trip_cause b of Some c \<Rightarrow> c | None \<Rightarrow> unknown_text)), None)
         else (case find_map counterexample results of
                 Some c \<Rightarrow>
                   (let cause = violated_text @ c
                    in (b\<lparr>state := Tripped, trip_cause := Some cause\<rparr>, DeniedBecause cause,
                        if with_bus b then Some cause else None))
               | None \<Rightarrow> (b, if list_ex result_is_satisfied results then Permitted else DeniedBecause no_evidence_text, None)))"

definition is_tripped :: "shadow_breaker \<Rightarrow> bool" where
  "is_tripped b = (state b = Tripped)"

definition reset :: "shadow_breaker \<Rightarrow> reset_authorization \<Rightarrow> shadow_breaker" where
  "reset b auth = b\<lparr>state := Armed, trip_cause := None, last_reset := Some auth\<rparr>"

datatype breaker_op = Observe "verification_result list" | Reset reset_authorization

fun breaker_step :: "shadow_breaker \<Rightarrow> breaker_op \<Rightarrow> shadow_breaker" where
  "breaker_step b (Observe rs) = fst (observe b rs)"
| "breaker_step b (Reset a) = reset b a"

section \<open>Specification\<close>

text \<open>The batches observed since the last reset.\<close>

fun since_reset :: "verification_result list list \<Rightarrow> breaker_op list \<Rightarrow> verification_result list list" where
  "since_reset bs [] = bs"
| "since_reset bs (Observe rs # ops) = since_reset (bs @ [rs]) ops"
| "since_reset bs (Reset a # ops) = since_reset [] ops"

definition clean :: "verification_result list list \<Rightarrow> bool" where
  "clean bs \<longleftrightarrow> (\<forall>rs \<in> set bs. \<forall>r \<in> set rs. counterexample r = None)"

lemma find_map_None [simp]: "find_map f xs = None \<longleftrightarrow> (\<forall>x \<in> set xs. f x = None)"
  by (induction xs) (auto split: option.splits)

lemma find_map_Some: "find_map f xs = Some y \<Longrightarrow> \<exists>x \<in> set xs. f x = Some y"
  by (induction xs) (auto split: option.splits)

lemma observe_cases:
  assumes "state b = Armed"
  shows "if clean [rs] then state (fst (observe b rs)) = Armed \<and> (is_permitted (fst (snd (observe b rs))) \<longleftrightarrow> list_ex result_is_satisfied rs)
    else state (fst (observe b rs)) = Tripped \<and> \<not> is_permitted (fst (snd (observe b rs)))"
proof (cases "find_map counterexample rs")
  case None
  then have "clean [rs]" by (simp add: clean_def)
  then show ?thesis using assms None by (simp add: observe_def is_permitted_def Let_def del: find_map_None)
next
  case (Some c)
  then have "\<not> clean [rs]" using find_map_Some [of counterexample rs c] by (force simp: clean_def)
  then show ?thesis using assms Some by (simp add: observe_def is_permitted_def Let_def)
qed

lemma observe_state:
  "state (fst (observe b rs)) = (if state b = Armed \<and> clean [rs] then Armed else Tripped)"
proof (cases "state b")
  case Armed
  then show ?thesis using observe_cases [of b rs] by (simp split: if_splits)
qed (simp add: observe_def Let_def)

lemma observe_verdict:
  "is_permitted (fst (snd (observe b rs))) \<longleftrightarrow> state b = Armed \<and> clean [rs] \<and> list_ex result_is_satisfied rs"
proof (cases "state b")
  case Armed
  then show ?thesis using observe_cases [of b rs] by (simp split: if_splits)
qed (simp add: observe_def is_permitted_def Let_def)

lemma armed_iff_clean: "(state b = Armed \<longleftrightarrow> clean bs) \<Longrightarrow> state (foldl breaker_step b ops) = Armed \<longleftrightarrow> clean (since_reset bs ops)"
proof (induction ops arbitrary: b bs)
  case (Cons op ops)
  show ?case
  proof (cases op)
    case (Observe rs)
    then show ?thesis using Cons.prems Cons.IH [of "fst (observe b rs)" "bs @ [rs]"] by (auto simp: observe_state clean_def)
  next
    case (Reset a)
    then show ?thesis using Cons.IH [of "reset b a" "[]"] by (simp add: reset_def clean_def)
  qed
qed simp

section \<open>Properties\<close>

text \<open>
  C24: fail closed. After any sequence of observations and resets the breaker permits an update exactly
  if this batch holds a satisfied property and no batch since the last reset, this one included, holds a violation.
\<close>

theorem permits_on_evidence_only:
  "is_permitted (fst (snd (observe (foldl breaker_step breaker_new ops) results))) \<longleftrightarrow>
   clean (since_reset [] ops @ [results]) \<and> list_ex result_is_satisfied results"
proof -
  have "state (foldl breaker_step breaker_new ops) = Armed \<longleftrightarrow> clean (since_reset [] ops)"
    by (rule armed_iff_clean) (simp add: breaker_new_def clean_def)
  then show ?thesis by (auto simp: observe_verdict clean_def)
qed

end
