(* ===== verification/Event_Bus.thy ===== *)
theory Event_Bus
  imports Prelude "HOL-Library.Multiset" "HOL-Library.Sublist"
begin

unbundle bit_operations_syntax

text \<open>
  The event bus under concurrency: the publish path of \<^verbatim>\<open>event-bus/src/bus.rs\<close>, the shards and their
  workers of \<^verbatim>\<open>shard.rs\<close>, the credit flow of \<^verbatim>\<open>credit_flow.rs\<close> and the pressure latch of \<^verbatim>\<open>backpressure.rs\<close>.
  Each atomic access to shared state that decides something is a step; a schedule interleaves the steps
  of publishers, shard workers and the consumers of the critical channels. An event is the record of
  what the bus reads of it. The broadcast channel of tokio is the list of the events sent to it, and
  its length, which the bus samples, is part of the schedule. Three things are recorded that the code
  does not store: which publisher sent an event, whether a credit was paid for a queued event, and
  which events were down-sampled (the code counts them).
\<close>

section \<open>Events and lanes\<close>

datatype event_severity = Normal | Info | Critical

record nexus_event =
  type_name :: string
  severity :: event_severity
  session_field :: "string option"
  alert_rule :: "string option"
  correlation_id :: "string option"
  on_critical_list :: bool
  payload :: string

datatype session_key = KeySession string | KeyCorrelation string | KeyAlert string

fun key_as_str :: "session_key \<Rightarrow> string" where
  "key_as_str (KeySession s) = s"
| "key_as_str (KeyCorrelation s) = s"
| "key_as_str (KeyAlert s) = s"

datatype lane = CriticalLane | OrderSensitive session_key | Unordered

definition event_lane :: "nexus_event \<Rightarrow> lane" where
  "event_lane e =
     (if severity e = Critical then CriticalLane
      else case alert_rule e of
             Some r \<Rightarrow> OrderSensitive (KeyAlert r)
           | None \<Rightarrow>
               (case session_field e of
                  Some s \<Rightarrow> OrderSensitive (KeySession s)
                | None \<Rightarrow>
                    (case correlation_id e of
                       Some c \<Rightarrow> OrderSensitive (KeyCorrelation c)
                     | None \<Rightarrow> Unordered)))"

definition fnv1a :: "bytes \<Rightarrow> u64" where
  "fnv1a bs = foldl (\<lambda>hash b. (hash XOR ucast b) * 0x100000001b3) 0xcbf29ce484222325 bs"

section \<open>Credits\<close>

record credit_flow =
  credits :: u64
  max_credits :: u64

definition credit_with_capacity :: "u64 \<Rightarrow> credit_flow" where
  "credit_with_capacity initial = \<lparr>credits = initial, max_credits = initial\<rparr>"

definition DEFAULT_CREDITS :: u64 where
  "DEFAULT_CREDITS = 256"

definition credit_flow_new :: credit_flow where
  "credit_flow_new = credit_with_capacity DEFAULT_CREDITS"

definition acquire :: "credit_flow \<Rightarrow> u64 \<Rightarrow> credit_flow \<times> bool" where
  "acquire f n =
     (if n = 0 then (f, True)
      else if n \<le> credits f then (f\<lparr>credits := credits f - n\<rparr>, True) else (f, False))"

definition release_credits :: "credit_flow \<Rightarrow> u64 \<Rightarrow> credit_flow" where
  "release_credits f n =
     (if n = 0 then f else f\<lparr>credits := min (saturating_add (credits f) n) (max_credits f)\<rparr>)"

section \<open>Shards\<close>

text \<open>An event with its publisher, and in a queue also whether a credit was paid for it.\<close>

type_synonym tagged = "nat \<times> nexus_event"
type_synonym queued = "tagged \<times> bool"

record sharded_bus =
  shard_capacity :: nat
  shards :: "queued list list"
  depths :: "u64 list"
  sharded_total :: u64
  merged_total :: u64

definition SHARD_CAPACITY :: nat where "SHARD_CAPACITY = 256"
definition SHARD_WORKER_BATCH :: nat where "SHARD_WORKER_BATCH = 64"

definition sharded_new :: "nat \<Rightarrow> nat \<Rightarrow> sharded_bus" where
  "sharded_new n_shards cap =
     (let n = max n_shards 1
      in \<lparr>shard_capacity = max cap 1, shards = replicate n [], depths = replicate n 0, sharded_total = 0, merged_total = 0\<rparr>)"

definition shard_index :: "sharded_bus \<Rightarrow> nexus_event \<Rightarrow> nat" where
  "shard_index sb e = unat (fnv1a (str_bytes (type_name e))) mod length (shards sb)"

definition session_shard :: "string \<Rightarrow> nat \<Rightarrow> nat" where
  "session_shard key n_shards = unat (fnv1a (str_bytes key)) mod max n_shards 1"

text \<open>The push of \<^verbatim>\<open>try_push\<close>; its counters follow in a step of their own.\<close>

definition try_push :: "sharded_bus \<Rightarrow> queued \<Rightarrow> sharded_bus option" where
  "try_push sb q =
     (let idx = shard_index sb (snd (fst q))
      in if length (shards sb ! idx) < shard_capacity sb
         then Some (sb\<lparr>shards := (shards sb)[idx := shards sb ! idx @ [q]]\<rparr>) else None)"

definition count_push :: "sharded_bus \<Rightarrow> nat \<Rightarrow> sharded_bus" where
  "count_push sb idx =
     sb\<lparr>depths := (depths sb)[idx := depths sb ! idx + 1], sharded_total := sharded_total sb + 1\<rparr>"

section \<open>The bus\<close>

record critical_channel =
  inbox :: "nexus_event list"
  receiver_alive :: bool

definition CRITICAL_CHANNEL_CAPACITY :: nat where
  "CRITICAL_CHANNEL_CAPACITY = 4096"

record event_bus =
  capacity :: nat
  ds_params :: "(u64 \<times> u64 \<times> u64) option"
  ds_engaged :: bool
  normal_seq :: u64
  downsampled :: "tagged list"
  flow :: credit_flow
  credit_shed_total :: u64
  shard_bus :: "sharded_bus option"
  published_total :: u64
  critical_total :: u64
  backpressure_warning_count :: u64
  critical_tx :: "critical_channel list"
  critical_dropped_count :: u64
  critical_no_subscriber_count :: u64
  fallback_log :: "nexus_event list"
  sent :: "tagged list"

datatype backpressure_policy =
    LagThreshold u64
  | DropOldest
  | CriticalMpsc nat
  | DownsampleUnderPressure nat u64 u64 u64

fun broadcast_capacity :: "backpressure_policy \<Rightarrow> nat" where
  "broadcast_capacity (LagThreshold _) = 1024"
| "broadcast_capacity DropOldest = 1024"
| "broadcast_capacity (CriticalMpsc c) = c"
| "broadcast_capacity (DownsampleUnderPressure c _ _ _) = c"

fun downsample_params :: "backpressure_policy \<Rightarrow> (u64 \<times> u64 \<times> u64) option" where
  "downsample_params (DownsampleUnderPressure _ every trigger resume) = Some (every, trigger, resume)"
| "downsample_params _ = None"

definition bus_with_policy :: "backpressure_policy \<Rightarrow> event_bus" where
  "bus_with_policy policy =
     \<lparr>capacity = broadcast_capacity policy, ds_params = downsample_params policy, ds_engaged = False, normal_seq = 0,
      downsampled = [], flow = credit_flow_new, credit_shed_total = 0, shard_bus = None, published_total = 0,
      critical_total = 0, backpressure_warning_count = 0, critical_tx = [], critical_dropped_count = 0,
      critical_no_subscriber_count = 0, fallback_log = [], sent = []\<rparr>"

datatype event_bus_error = ShardingAlreadyEnabled | ShardingRequiresRuntime

definition enable_sharding :: "event_bus \<Rightarrow> bool \<Rightarrow> nat \<Rightarrow> (event_bus_error, event_bus) result" where
  "enable_sharding b has_runtime n_shards =
     (if shard_bus b \<noteq> None then Inl ShardingAlreadyEnabled
      else if \<not> has_runtime then Inl ShardingRequiresRuntime
      else Inr (b\<lparr>shard_bus := Some (sharded_new n_shards SHARD_CAPACITY)\<rparr>))"

definition subscribe_critical_events :: "event_bus \<Rightarrow> event_bus" where
  "subscribe_critical_events b = b\<lparr>critical_tx := critical_tx b @ [\<lparr>inbox = [], receiver_alive = True\<rparr>]\<rparr>"

text \<open>One call of \<^verbatim>\<open>try_send\<close>: a dropped receiver is noticed before a full channel.\<close>

definition has_room :: "critical_channel \<Rightarrow> bool" where
  "has_room c = (receiver_alive c \<and> length (inbox c) < CRITICAL_CHANNEL_CAPACITY)"

definition send_critical_mpsc :: "event_bus \<Rightarrow> nexus_event \<Rightarrow> event_bus" where
  "send_critical_mpsc b e =
     (if critical_tx b = []
      then b\<lparr>critical_no_subscriber_count := critical_no_subscriber_count b + 1, fallback_log := fallback_log b @ [e]\<rparr>
      else (let alive = filter receiver_alive (critical_tx b);
                delivered = length (filter has_room alive);
                b = b\<lparr>critical_tx := map (\<lambda>c. if has_room c then c\<lparr>inbox := inbox c @ [e]\<rparr> else c) alive,
                      critical_dropped_count := critical_dropped_count b + of_nat (length (filter (\<lambda>c. \<not> has_room c) alive))\<rparr>
            in if delivered = 0 \<and> alive = []
               then b\<lparr>critical_no_subscriber_count := critical_no_subscriber_count b + 1,
                      fallback_log := fallback_log b @ [e]\<rparr>
               else b))"

definition pressure_latch_next :: "bool \<Rightarrow> nat \<Rightarrow> nat \<Rightarrow> u64 \<Rightarrow> u64 \<Rightarrow> bool" where
  "pressure_latch_next engaged queued cap trigger_permille resume_permille =
     (if cap = 0 then engaged
      else (let scaled = of_nat queued * 1000; c = of_nat cap
            in if \<not> engaged then c * trigger_permille \<le> scaled else c * resume_permille < scaled))"

definition ds_admit :: "event_bus \<Rightarrow> event_severity \<Rightarrow> nat \<Rightarrow> event_bus \<times> bool" where
  "ds_admit b sev queued =
     (case ds_params b of
        None \<Rightarrow> (b, True)
      | Some (every, trigger, resume) \<Rightarrow>
          (let b = b\<lparr>ds_engaged := pressure_latch_next (ds_engaged b) queued (capacity b) trigger resume\<rparr>
           in if \<not> ds_engaged b \<or> sev = Critical then (b, True)
              else (b\<lparr>normal_seq := normal_seq b + 1\<rparr>, normal_seq b mod every = 0)))"

definition sample_backpressure :: "event_bus \<Rightarrow> nat \<Rightarrow> event_bus" where
  "sample_backpressure b queued =
     (if capacity b * 3 div 4 < queued
      then b\<lparr>backpressure_warning_count := backpressure_warning_count b + 1\<rparr> else b)"

section \<open>Publishing\<close>

text \<open>
  An event published alone, as a member of a batch (the first one samples the backlog), or with
  \<^verbatim>\<open>publish_critical\<close>.
\<close>

datatype publish_kind = Single | Batched bool | Explicit

datatype publish_pc =
    Idle
  | Deduct publish_kind nexus_event
  | Route publish_kind nexus_event bool
  | Borrow publish_kind nexus_event bool
  | Retry publish_kind nexus_event bool
  | Counted nat bool
  | GiveBack "(publish_kind \<times> nexus_event \<times> bool) option"
  | Refund publish_kind nexus_event bool
  | Direct publish_kind nexus_event

definition count_published :: "event_bus \<Rightarrow> publish_kind \<Rightarrow> nexus_event \<Rightarrow> nat \<Rightarrow> event_bus" where
  "count_published b k e queued =
     (case k of
        Single \<Rightarrow>
          b\<lparr>published_total := published_total b + 1,
            critical_total := critical_total b + (if severity e = Critical then 1 else 0)\<rparr>
      | Batched first \<Rightarrow> if first then sample_backpressure b queued else b
      | Explicit \<Rightarrow> b)"

definition sharded_event :: "event_bus \<Rightarrow> nexus_event \<Rightarrow> bool" where
  "sharded_event b e = (shard_bus b \<noteq> None \<and> event_lane e = Unordered)"

definition start_publish :: "event_bus \<Rightarrow> publish_kind \<Rightarrow> nexus_event \<Rightarrow> nat \<Rightarrow> event_bus \<times> publish_pc" where
  "start_publish b k e queued =
     (count_published b k e queued,
      if k = Explicit then Direct k e
      else if severity e \<noteq> Critical \<and> sharded_event b e then Deduct k e
      else Route k e False)"

text \<open>The single-stream end of the path.\<close>

definition send_direct :: "event_bus \<Rightarrow> nat \<Rightarrow> publish_kind \<Rightarrow> nexus_event \<Rightarrow> nat \<Rightarrow> event_bus" where
  "send_direct b p k e queued =
     (let b = (if k = Explicit \<or> on_critical_list e then send_critical_mpsc b e else b);
          (b, ok) = (if k = Single then ds_admit (sample_backpressure b queued) (severity e) queued else (b, True))
      in if ok then b\<lparr>sent := sent b @ [(p, e)]\<rparr> else b\<lparr>downsampled := downsampled b @ [(p, e)]\<rparr>)"

definition push_event :: "event_bus \<Rightarrow> nat \<Rightarrow> nexus_event \<Rightarrow> bool \<Rightarrow> event_bus option" where
  "push_event b p e paid =
     (case shard_bus b of
        None \<Rightarrow> None
      | Some sb \<Rightarrow> map_option (\<lambda>sb'. b\<lparr>shard_bus := Some sb'\<rparr>) (try_push sb ((p, e), paid)))"

definition event_shard :: "event_bus \<Rightarrow> nexus_event \<Rightarrow> nat" where
  "event_shard b e = (case shard_bus b of None \<Rightarrow> 0 | Some sb \<Rightarrow> shard_index sb e)"

fun publish_step :: "event_bus \<Rightarrow> nat \<Rightarrow> publish_pc \<Rightarrow> nat \<Rightarrow> event_bus \<times> publish_pc" where
  "publish_step b p Idle queued = (b, Idle)"
| "publish_step b p (Deduct k e) queued =
     (let (f, ok) = acquire (flow b) 1 in (b\<lparr>flow := f\<rparr>, Route k e ok))"
| "publish_step b p (Route k e paid) queued =
     (if sharded_event b e
      then (case push_event b p e paid of
              Some b' \<Rightarrow> (b', Counted (event_shard b e) False)
            | None \<Rightarrow> (b, Borrow k e paid))
      else (b, Direct k e))"
| "publish_step b p (Borrow k e paid) queued =
     (let (f, ok) = acquire (flow b) 1
      in if ok then (b\<lparr>flow := f\<rparr>, Retry k e paid)
         else (b\<lparr>flow := f, credit_shed_total := credit_shed_total b + 1\<rparr>, Refund k e paid))"
| "publish_step b p (Retry k e paid) queued =
     (case push_event b p e paid of
        Some b' \<Rightarrow> (b', Counted (event_shard b e) True)
      | None \<Rightarrow> (b, GiveBack (Some (k, e, paid))))"
| "publish_step b p (Counted idx borrowed) queued =
     (b\<lparr>shard_bus := map_option (\<lambda>sb. count_push sb idx) (shard_bus b)\<rparr>, if borrowed then GiveBack None else Idle)"
| "publish_step b p (GiveBack back) queued =
     (b\<lparr>flow := release_credits (flow b) 1\<rparr>, case back of None \<Rightarrow> Idle | Some (k, e, paid) \<Rightarrow> Refund k e paid)"
| "publish_step b p (Refund k e paid) queued =
     (if paid then b\<lparr>flow := release_credits (flow b) 1\<rparr> else b, Direct k e)"
| "publish_step b p (Direct k e) queued = (send_direct b p k e queued, Idle)"

section \<open>Shard workers\<close>

datatype shard_worker = Collect "queued list" | Merge "queued list" nat

definition worker_step :: "event_bus \<Rightarrow> nat \<Rightarrow> shard_worker \<Rightarrow> event_bus \<times> shard_worker" where
  "worker_step b i w =
     (case shard_bus b of
        None \<Rightarrow> (b, w)
      | Some sb \<Rightarrow>
          (case w of
             Collect batch \<Rightarrow>
               if length batch < SHARD_WORKER_BATCH
               then (case shards sb ! i of
                       q # qs \<Rightarrow>
                         (b\<lparr>shard_bus := Some (sb\<lparr>shards := (shards sb)[i := qs], depths := (depths sb)[i := depths sb ! i - 1]\<rparr>)\<rparr>,
                          Collect (batch @ [q]))
                     | [] \<Rightarrow> (b, if batch = [] then Collect [] else Merge batch 0))
               else (b, Merge batch 0)
           | Merge batch k \<Rightarrow>
               if k < length batch
               then (b\<lparr>sent := sent b @ [fst (batch ! k)], shard_bus := Some (sb\<lparr>merged_total := merged_total sb + 1\<rparr>)\<rparr>,
                     Merge batch (k + 1))
               else (b\<lparr>flow := release_credits (flow b) (of_nat (length batch))\<rparr>, Collect [])))"

section \<open>Interleaving\<close>

record publisher =
  todo :: "(publish_kind \<times> nexus_event) list"
  stage :: publish_pc

record bus_pool =
  bus :: event_bus
  publishers :: "publisher list"
  workers :: "shard_worker list"

text \<open>The number in a publisher's move is the length of the broadcast channel it samples.\<close>

datatype move =
    PublisherMoves nat nat
  | WorkerMoves nat
  | EnableSharding bool nat
  | SubscribeCritical
  | ReceiveCritical nat
  | DropCritical nat
  | ReleaseCredit u64

definition publisher_move :: "bus_pool \<Rightarrow> nat \<Rightarrow> nat \<Rightarrow> bus_pool" where
  "publisher_move s p queued =
     (if p < length (publishers s)
      then (let x = publishers s ! p
            in case stage x of
                 Idle \<Rightarrow>
                   (case todo x of
                      [] \<Rightarrow> s
                    | (k, e) # rest \<Rightarrow>
                        (let (b, pc') = start_publish (bus s) k e queued
                         in s\<lparr>bus := b, publishers := (publishers s)[p := \<lparr>todo = rest, stage = pc'\<rparr>]\<rparr>))
               | _ \<Rightarrow>
                   (let (b, pc') = publish_step (bus s) p (stage x) queued
                    in s\<lparr>bus := b, publishers := (publishers s)[p := x\<lparr>stage := pc'\<rparr>]\<rparr>))
      else s)"

definition worker_move :: "bus_pool \<Rightarrow> nat \<Rightarrow> bus_pool" where
  "worker_move s i =
     (if i < length (workers s)
      then (let (b, w) = worker_step (bus s) i (workers s ! i) in s\<lparr>bus := b, workers := (workers s)[i := w]\<rparr>)
      else s)"

definition enable_move :: "bus_pool \<Rightarrow> bool \<Rightarrow> nat \<Rightarrow> bus_pool" where
  "enable_move s has_runtime n =
     (case enable_sharding (bus s) has_runtime n of
        Inl _ \<Rightarrow> s
      | Inr b \<Rightarrow> s\<lparr>bus := b, workers := replicate (max n 1) (Collect [])\<rparr>)"

definition change_channel :: "bus_pool \<Rightarrow> nat \<Rightarrow> (critical_channel \<Rightarrow> critical_channel) \<Rightarrow> bus_pool" where
  "change_channel s i f =
     (let b = bus s in s\<lparr>bus := b\<lparr>critical_tx := map (\<lambda>j. (if j = i then f else id) (critical_tx b ! j)) [0..<length (critical_tx b)]\<rparr>\<rparr>)"

fun bus_move :: "bus_pool \<Rightarrow> move \<Rightarrow> bus_pool" where
  "bus_move s (PublisherMoves p queued) = publisher_move s p queued"
| "bus_move s (WorkerMoves i) = worker_move s i"
| "bus_move s (EnableSharding has_runtime n) = enable_move s has_runtime n"
| "bus_move s SubscribeCritical = s\<lparr>bus := subscribe_critical_events (bus s)\<rparr>"
| "bus_move s (ReceiveCritical i) = change_channel s i (\<lambda>c. c\<lparr>inbox := tl (inbox c)\<rparr>)"
| "bus_move s (DropCritical i) = change_channel s i (\<lambda>c. c\<lparr>receiver_alive := False\<rparr>)"
| "bus_move s (ReleaseCredit n) = s\<lparr>bus := (bus s)\<lparr>flow := release_credits (flow (bus s)) n\<rparr>\<rparr>"

definition start_bus_pool :: "backpressure_policy \<Rightarrow> (publish_kind \<times> nexus_event) list list \<Rightarrow> bus_pool" where
  "start_bus_pool policy jobs =
     \<lparr>bus = bus_with_policy policy, publishers = map (\<lambda>js. \<lparr>todo = js, stage = Idle\<rparr>) jobs, workers = []\<rparr>"

section \<open>What is in flight\<close>

fun pc_events :: "nat \<Rightarrow> publish_pc \<Rightarrow> tagged multiset" where
  "pc_events p Idle = {#}"
| "pc_events p (Deduct k e) = {#(p, e)#}"
| "pc_events p (Route k e paid) = {#(p, e)#}"
| "pc_events p (Borrow k e paid) = {#(p, e)#}"
| "pc_events p (Retry k e paid) = {#(p, e)#}"
| "pc_events p (Counted idx borrowed) = {#}"
| "pc_events p (GiveBack back) = (case back of None \<Rightarrow> {#} | Some (k, e, paid) \<Rightarrow> {#(p, e)#})"
| "pc_events p (Refund k e paid) = {#(p, e)#}"
| "pc_events p (Direct k e) = {#(p, e)#}"

fun pc_credits :: "publish_pc \<Rightarrow> nat" where
  "pc_credits (Route k e paid) = of_bool paid"
| "pc_credits (Borrow k e paid) = of_bool paid"
| "pc_credits (Retry k e paid) = 1 + of_bool paid"
| "pc_credits (Counted idx borrowed) = of_bool borrowed"
| "pc_credits (GiveBack back) = 1 + (case back of None \<Rightarrow> 0 | Some (k, e, paid) \<Rightarrow> of_bool paid)"
| "pc_credits (Refund k e paid) = of_bool paid"
| "pc_credits _ = 0"

fun worker_left :: "shard_worker \<Rightarrow> queued list" where
  "worker_left (Collect batch) = batch"
| "worker_left (Merge batch k) = drop k batch"

fun worker_batch :: "shard_worker \<Rightarrow> queued list" where
  "worker_batch (Collect batch) = batch"
| "worker_batch (Merge batch k) = batch"

definition paid_in :: "queued list \<Rightarrow> nat" where
  "paid_in qs = length (filter snd qs)"

definition queues :: "event_bus \<Rightarrow> queued list list" where
  "queues b = (case shard_bus b of None \<Rightarrow> [] | Some sb \<Rightarrow> shards sb)"

text \<open>Sums over the members of a list of which one changes.\<close>

definition total_of :: "(nat \<Rightarrow> 'a \<Rightarrow> 'b :: comm_monoid_add) \<Rightarrow> 'a list \<Rightarrow> 'b" where
  "total_of g xs = (\<Sum>i < length xs. g i (xs ! i))"

lemma total_of_update: "i < length xs \<Longrightarrow> total_of g (xs[i := y]) + g i (xs ! i) = total_of g xs + g i y"
proof -
  assume i: "i < length xs"
  have "total_of g (xs[i := y]) = g i y + (\<Sum>j \<in> {..<length xs} - {i}. g j (xs ! j))"
    using i by (simp add: total_of_def sum.remove [of "{..<length xs}" i])
  moreover have "total_of g xs = g i (xs ! i) + (\<Sum>j \<in> {..<length xs} - {i}. g j (xs ! j))"
    using i by (simp add: total_of_def sum.remove [of "{..<length xs}" i])
  ultimately show ?thesis by (simp add: ac_simps)
qed

lemma total_of_empty: "(\<And>i. i < length xs \<Longrightarrow> g i (xs ! i) = 0) \<Longrightarrow> total_of g xs = 0"
  by (simp add: total_of_def)

definition bus_events :: "event_bus \<Rightarrow> tagged multiset" where
  "bus_events b = mset (sent b) + mset (downsampled b) + total_of (\<lambda>i q. image_mset fst (mset q)) (queues b)"

definition bus_paid :: "event_bus \<Rightarrow> nat" where
  "bus_paid b = total_of (\<lambda>i. paid_in) (queues b)"

definition publisher_events :: "nat \<Rightarrow> publisher \<Rightarrow> tagged multiset" where
  "publisher_events p x = pc_events p (stage x) + image_mset (Pair p) (mset (map snd (todo x)))"

definition all_events :: "bus_pool \<Rightarrow> tagged multiset" where
  "all_events s = bus_events (bus s) + total_of publisher_events (publishers s) +
     total_of (\<lambda>i w. image_mset fst (mset (worker_left w))) (workers s)"

definition owed :: "bus_pool \<Rightarrow> nat" where
  "owed s = bus_paid (bus s) + total_of (\<lambda>i x. pc_credits (stage x)) (publishers s) +
     total_of (\<lambda>i w. paid_in (worker_batch w)) (workers s)"

definition covered :: "credit_flow \<Rightarrow> nat \<Rightarrow> bool" where
  "covered f n \<longleftrightarrow> unat (credits f) \<le> unat (max_credits f) \<and> unat (max_credits f) \<le> unat (credits f) + n"

text \<open>One worker per shard, and only unordered events behind a shard.\<close>

definition unordered :: "queued list \<Rightarrow> bool" where
  "unordered qs \<longleftrightarrow> (\<forall>q \<in> set qs. event_lane (snd (fst q)) = Unordered)"

text \<open>A credit is deducted for events that go to a shard only.\<close>

fun stage_ok :: "event_bus \<Rightarrow> publish_pc \<Rightarrow> bool" where
  "stage_ok b (Deduct k e) = sharded_event b e"
| "stage_ok b (Route k e paid) = (paid \<longrightarrow> sharded_event b e)"
| "stage_ok b (Borrow k e paid) = sharded_event b e"
| "stage_ok b (Retry k e paid) = sharded_event b e"
| "stage_ok b _ = True"

section \<open>Credits\<close>

lemma covered_acquire:
  "covered f n \<Longrightarrow> acquire f 1 = (f', ok) \<Longrightarrow> covered f' (n + of_bool ok) \<and> max_credits f' = max_credits f"
  by (auto simp: covered_def acquire_def unat_sub word_le_nat_alt split: if_splits)

lemma max_credits_release [simp]: "max_credits (release_credits f k) = max_credits f"
  by (simp add: release_credits_def)

lemma covered_release:
  assumes "covered f (m + n)" "m \<le> unat k"
  shows "covered (release_credits f k) n \<and> max_credits (release_credits f k) = max_credits f"
proof (cases "k = 0")
  case False
  have "unat (min (saturating_add (credits f) k) (max_credits f)) =
      min (min (unat (credits f) + unat k) (2 ^ 64 - 1)) (unat (max_credits f))"
  proof -
    have "unat (min a b) = min (unat a) (unat b)" for a b :: u64 by (simp add: min_def word_le_nat_alt)
    then show ?thesis by (simp only: unat_saturating_add)
  qed
  moreover have "unat (max_credits f) \<le> 2 ^ 64 - 1"
    using word_n1_ge [of "max_credits f"] by (simp only: word_le_nat_alt unat_u64_max)
  ultimately show ?thesis using assms False by (simp add: covered_def release_credits_def min_def)
qed (use assms in \<open>simp add: covered_def release_credits_def\<close>)

section \<open>Steps of publishers\<close>

definition same_core :: "event_bus \<Rightarrow> event_bus \<Rightarrow> bool" where
  "same_core b b' \<longleftrightarrow> sent b' = sent b \<and> downsampled b' = downsampled b \<and> flow b' = flow b \<and> queues b' = queues b \<and>
     (shard_bus b' = None \<longleftrightarrow> shard_bus b = None) \<and> ds_params b' = ds_params b"

lemma same_core_refl [simp]: "same_core b b"
  by (simp add: same_core_def)

lemma same_core_trans: "same_core a b \<Longrightarrow> same_core b c \<Longrightarrow> same_core a c"
  by (simp add: same_core_def)

lemma same_core_events: "same_core b b' \<Longrightarrow> bus_events b' = bus_events b \<and> bus_paid b' = bus_paid b"
  by (simp add: same_core_def bus_events_def bus_paid_def)

lemma core_frames [simp]:
  "same_core b (send_critical_mpsc b e)" "same_core b (sample_backpressure b n)" "same_core b (fst (ds_admit b sev n))"
  "same_core b (count_published b k e n)"
  by (auto simp: same_core_def queues_def send_critical_mpsc_def sample_backpressure_def ds_admit_def count_published_def Let_def
      split: option.splits publish_kind.splits prod.splits)

lemma core_count_push [simp]: "same_core b (b\<lparr>shard_bus := map_option (\<lambda>sb. count_push sb idx) (shard_bus b)\<rparr>)"
  by (simp add: same_core_def queues_def count_push_def split: option.splits)

text \<open>The end of the path, with the cases in which nothing is down-sampled.\<close>

lemma send_direct_core:
  obtains c where "same_core b c"
    "send_direct b p k e n = c\<lparr>sent := sent c @ [(p, e)]\<rparr> \<or>
     send_direct b p k e n = c\<lparr>downsampled := downsampled c @ [(p, e)]\<rparr> \<and> k = Single \<and> ds_params b \<noteq> None \<and> severity e \<noteq> Critical"
proof -
  let ?b = "if k = Explicit \<or> on_critical_list e then send_critical_mpsc b e else b"
  let ?s = "sample_backpressure ?b n"
  have b: "same_core b ?b" by simp
  then have s: "same_core b ?s" using core_frames(2) by (rule same_core_trans)
  have d: "same_core b (fst (ds_admit ?s (severity e) n))" using s core_frames(3) by (rule same_core_trans)
  show thesis
  proof (cases "k = Single")
    case True
    have "snd (ds_admit ?s (severity e) n) \<or> ds_params b \<noteq> None \<and> severity e \<noteq> Critical"
      using s by (auto simp: ds_admit_def same_core_def Let_def split: option.splits)
    then show thesis using that [OF d] True by (auto simp: send_direct_def case_prod_unfold Let_def)
  next
    case False
    then show thesis using that [OF b] by (simp add: send_direct_def Let_def)
  qed
qed

lemma push_queues:
  assumes "push_event b p e paid = Some b'" "queues b \<noteq> []"
  obtains idx where "idx < length (queues b)" "queues b' = (queues b)[idx := queues b ! idx @ [((p, e), paid)]]"
    "sent b' = sent b" "downsampled b' = downsampled b" "flow b' = flow b" "ds_params b' = ds_params b" "shard_bus b' \<noteq> None"
proof -
  obtain sb sb' where sb: "shard_bus b = Some sb" "try_push sb ((p, e), paid) = Some sb'" "b' = b\<lparr>shard_bus := Some sb'\<rparr>"
    using assms(1) by (auto simp: push_event_def split: option.splits)
  let ?i = "shard_index sb e"
  have "?i < length (shards sb)" using assms(2) sb(1) by (simp add: shard_index_def queues_def)
  moreover have "shards sb' = (shards sb)[?i := shards sb ! ?i @ [((p, e), paid)]]"
    using sb(2) by (auto simp: try_push_def Let_def split: if_splits)
  ultimately show thesis using that [of ?i] sb by (simp add: queues_def)
qed

lemma push_totals:
  assumes "push_event b p e paid = Some b'" "queues b \<noteq> []"
  shows "bus_events b' = bus_events b + {#(p, e)#} \<and> bus_paid b' = bus_paid b + of_bool paid"
proof -
  obtain i where i: "i < length (queues b)" "queues b' = (queues b)[i := queues b ! i @ [((p, e), paid)]]"
    "sent b' = sent b" "downsampled b' = downsampled b"
    by (rule push_queues [OF assms])
  have "total_of (\<lambda>i q. image_mset fst (mset q)) (queues b') + image_mset fst (mset (queues b ! i)) =
      total_of (\<lambda>i q. image_mset fst (mset q)) (queues b) + (image_mset fst (mset (queues b ! i)) + {#(p, e)#})"
    using total_of_update [OF i(1), of "\<lambda>i q. image_mset fst (mset q)" "queues b ! i @ [((p, e), paid)]"] i(2) by simp
  then have "total_of (\<lambda>i q. image_mset fst (mset q)) (queues b') = total_of (\<lambda>i q. image_mset fst (mset q)) (queues b) + {#(p, e)#}"
    by (simp add: ac_simps)
  moreover have "total_of (\<lambda>i. paid_in) (queues b') = total_of (\<lambda>i. paid_in) (queues b) + of_bool paid"
    using total_of_update [OF i(1), of "\<lambda>i. paid_in" "queues b ! i @ [((p, e), paid)]"] i(2) by (simp add: paid_in_def)
  ultimately show ?thesis using i(3,4) by (simp add: bus_events_def bus_paid_def)
qed

lemma publish_step_events:
  assumes "publish_step b p pc n = (b', pc')" "shard_bus b \<noteq> None \<longrightarrow> queues b \<noteq> []"
  shows "bus_events b' + pc_events p pc' = bus_events b + pc_events p pc"
proof (cases "\<exists>k e paid b1. (pc = Route k e paid \<or> pc = Retry k e paid) \<and> push_event b p e paid = Some b1")
  case True
  then obtain k e paid b1 where pc: "pc = Route k e paid \<or> pc = Retry k e paid" "push_event b p e paid = Some b1" by blast
  have "shard_bus b \<noteq> None" using pc(2) by (cases "shard_bus b") (simp_all add: push_event_def)
  then have "bus_events b1 = bus_events b + {#(p, e)#}" using push_totals [OF pc(2)] assms(2) by simp
  moreover have "b' = b1 \<and> pc_events p pc' = {#} \<or> b' = b \<and> pc_events p pc' = {#(p, e)#}"
    using assms(1) pc by (auto split: if_splits)
  ultimately show ?thesis using pc(1) by auto
next
  case False
  show ?thesis
  proof (cases pc)
    case (Direct k e)
    obtain c where c: "same_core b c" "b' = c\<lparr>sent := sent c @ [(p, e)]\<rparr> \<or> b' = c\<lparr>downsampled := downsampled c @ [(p, e)]\<rparr>"
      using assms(1) Direct send_direct_core [of b p k e n] by (metis Pair_inject publish_step.simps(9))
    have "bus_events b' = bus_events c + {#(p, e)#}" using c(2) by (auto simp: bus_events_def queues_def)
    then show ?thesis using assms(1) Direct same_core_events [OF c(1)] by auto
  next
    case (Counted idx borrowed)
    then show ?thesis using assms(1) same_core_events [OF core_count_push [of b idx]] by (auto split: if_splits)
  next
    case (GiveBack r)
    then show ?thesis using assms(1) by (auto simp: bus_events_def queues_def split: option.splits prod.splits)
  qed (insert assms(1) False, auto simp: bus_events_def queues_def split: if_splits option.splits prod.splits)
qed

lemma publish_step_credits:
  assumes "publish_step b p pc n = (b', pc')" "shard_bus b \<noteq> None \<longrightarrow> queues b \<noteq> []"
    "stage_ok b pc" "covered (flow b) (bus_paid b + pc_credits pc + rest)"
  shows "covered (flow b') (bus_paid b' + pc_credits pc' + rest) \<and> max_credits (flow b') = max_credits (flow b)"
proof (cases "\<exists>k e paid b1. (pc = Route k e paid \<or> pc = Retry k e paid) \<and> push_event b p e paid = Some b1")
  case True
  then obtain k e paid b1 where pc: "pc = Route k e paid \<or> pc = Retry k e paid" "push_event b p e paid = Some b1" by blast
  have sb: "shard_bus b \<noteq> None" using pc(2) by (cases "shard_bus b") (simp_all add: push_event_def)
  then have paid1: "bus_paid b1 = bus_paid b + of_bool paid" using push_totals [OF pc(2)] assms(2) by simp
  have "flow b1 = flow b" using push_queues [OF pc(2)] sb assms(2) by metis
  moreover have "b' = b1 \<and> pc_credits pc' + of_bool paid = pc_credits pc \<or> b' = b \<and> pc_credits pc' = pc_credits pc"
    using assms(1,3) pc by (auto split: if_splits)
  ultimately show ?thesis using assms(4) paid1 by (auto simp: ac_simps)
next
  case False
  have paid_flow: "bus_paid (b\<lparr>flow := f\<rparr>) = bus_paid b" "bus_paid (b\<lparr>flow := f, credit_shed_total := t\<rparr>) = bus_paid b" for f t
    by (simp_all add: bus_paid_def queues_def)
  show ?thesis
  proof (cases pc)
    case (Deduct k e)
    obtain f ok where f: "acquire (flow b) 1 = (f, ok)" by force
    then show ?thesis using assms(1,4) Deduct covered_acquire [OF assms(4) f] by (auto simp: paid_flow ac_simps)
  next
    case (Borrow k e paid)
    obtain f ok where f: "acquire (flow b) 1 = (f, ok)" by force
    then show ?thesis using assms(1,4) Borrow covered_acquire [OF assms(4) f] by (cases ok) (auto simp: paid_flow ac_simps)
  next
    case (GiveBack r)
    let ?c = "(case r of None \<Rightarrow> 0 | Some (k, e, paid) \<Rightarrow> of_bool paid) :: nat"
    have "covered (flow b) (1 + (bus_paid b + ?c + rest))" using assms(4) GiveBack by (simp add: ac_simps)
    then have "covered (release_credits (flow b) 1) (bus_paid b + ?c + rest)" by (rule covered_release [where m = 1, THEN conjunct1]) simp
    moreover have "b' = b\<lparr>flow := release_credits (flow b) 1\<rparr>" "pc_credits pc' = ?c"
      using assms(1) GiveBack by (auto split: option.splits prod.splits)
    ultimately show ?thesis by (simp add: paid_flow)
  next
    case (Refund k e paid)
    then show ?thesis using assms(1,4) covered_release [of "flow b" 1 "bus_paid b + rest" 1]
      by (cases paid) (auto simp: paid_flow ac_simps)
  next
    case (Counted idx borrowed)
    then show ?thesis using assms(1,4) core_count_push [of b idx] same_core_events [OF core_count_push [of b idx]]
      by (auto simp: same_core_def)
  next
    case (Direct k e)
    obtain c where c: "same_core b c" "b' = c\<lparr>sent := sent c @ [(p, e)]\<rparr> \<or> b' = c\<lparr>downsampled := downsampled c @ [(p, e)]\<rparr>"
      using assms(1) Direct send_direct_core [of b p k e n] by (metis Pair_inject publish_step.simps(9))
    then have "flow b' = flow b" "bus_paid b' = bus_paid b" using same_core_events [OF c(1)]
      by (auto simp: same_core_def bus_paid_def queues_def)
    then show ?thesis using assms(1,4) Direct by auto
  qed (insert assms(1,3,4) False, auto split: if_splits option.splits)
qed

lemma sharded_event_cong: "(shard_bus b' = None \<longleftrightarrow> shard_bus b = None) \<Longrightarrow> sharded_event b' e = sharded_event b e"
  by (simp add: sharded_event_def)

lemma stage_ok_mono: "(shard_bus b \<noteq> None \<longrightarrow> shard_bus b' \<noteq> None) \<Longrightarrow> stage_ok b pc \<Longrightarrow> stage_ok b' pc"
  by (cases pc) (auto simp: sharded_event_def)

text \<open>What a publisher's step leaves of the shape of the shards.\<close>

definition same_shape :: "event_bus \<Rightarrow> event_bus \<Rightarrow> bool" where
  "same_shape b b' \<longleftrightarrow> length (queues b') = length (queues b) \<and> (shard_bus b' = None \<longleftrightarrow> shard_bus b = None) \<and>
     ds_params b' = ds_params b \<and> ((\<forall>qs \<in> set (queues b). unordered qs) \<longrightarrow> (\<forall>qs \<in> set (queues b'). unordered qs))"

lemma same_core_shape: "same_core b b' \<Longrightarrow> same_shape b b'"
  by (simp add: same_core_def same_shape_def)

lemma push_shape:
  assumes "push_event b p e paid = Some b'" "shard_bus b \<noteq> None \<longrightarrow> queues b \<noteq> []" "sharded_event b e"
  shows "same_shape b b'"
proof -
  have sb: "shard_bus b \<noteq> None" using assms(3) by (simp add: sharded_event_def)
  then obtain i where i: "i < length (queues b)" "queues b' = (queues b)[i := queues b ! i @ [((p, e), paid)]]"
    "ds_params b' = ds_params b" "shard_bus b' \<noteq> None"
    using push_queues [OF assms(1)] assms(2) by metis
  have "\<forall>qs \<in> set (queues b'). unordered qs" if "\<forall>qs \<in> set (queues b). unordered qs"
  proof
    fix qs assume "qs \<in> set (queues b')"
    then have "qs = queues b ! i @ [((p, e), paid)] \<or> qs \<in> set (queues b)" using i(2) set_update_subset_insert by fastforce
    moreover have "unordered (queues b ! i)" using that nth_mem [OF i(1)] by blast
    ultimately show "unordered qs" using that assms(3) by (auto simp: unordered_def sharded_event_def)
  qed
  then show ?thesis using i sb by (auto simp: same_shape_def)
qed

lemma publish_step_shape:
  assumes "publish_step b p pc n = (b', pc')" "shard_bus b \<noteq> None \<longrightarrow> queues b \<noteq> []" "stage_ok b pc"
  shows "same_shape b b' \<and> stage_ok b' pc'"
proof (cases pc)
  case (Route k e paid)
  show ?thesis
  proof (cases "sharded_event b e \<and> push_event b p e paid \<noteq> None")
    case True
    then obtain b1 where b1: "push_event b p e paid = Some b1" by blast
    then show ?thesis using assms Route True push_shape [OF b1 assms(2)] by auto
  next
    case False
    then show ?thesis using assms Route by (auto simp: same_core_shape split: if_splits)
  qed
next
  case (Retry k e paid)
  then show ?thesis using assms push_shape [of b p e paid] by (auto simp: same_core_shape split: option.splits)
next
  case (Direct k e)
  obtain c where c: "same_core b c" "b' = c\<lparr>sent := sent c @ [(p, e)]\<rparr> \<or> b' = c\<lparr>downsampled := downsampled c @ [(p, e)]\<rparr>"
    using assms(1) Direct send_direct_core [of b p k e n] by (metis Pair_inject publish_step.simps(9))
  then show ?thesis using assms(1) Direct same_core_shape [OF c(1)] by (auto simp: same_shape_def queues_def)
next
  case (Counted idx borrowed)
  then show ?thesis using assms(1) same_core_shape [OF core_count_push [of b idx]] by (auto split: if_splits)
qed (insert assms, auto simp: same_shape_def queues_def sharded_event_def split: if_splits option.splits prod.splits)

section \<open>Steps of workers\<close>

definition worker_ok :: "shard_worker \<Rightarrow> bool" where
  "worker_ok w \<longleftrightarrow> unordered (worker_batch w) \<and> length (worker_batch w) \<le> SHARD_WORKER_BATCH"

definition worker_events :: "shard_worker \<Rightarrow> tagged multiset" where
  "worker_events w = image_mset fst (mset (worker_left w))"

text \<open>The cases of a step: nothing, an event taken, the batch closed, an event sent, the credits returned.\<close>

lemma worker_step_cases:
  assumes "worker_step b i w = (b', w')"
  obtains "b' = b" "w' = w"
  | sb q qs batch where "shard_bus b = Some sb" "w = Collect batch" "length batch < SHARD_WORKER_BATCH" "shards sb ! i = q # qs"
      "b' = b\<lparr>shard_bus := Some (sb\<lparr>shards := (shards sb)[i := qs], depths := (depths sb)[i := depths sb ! i - 1]\<rparr>)\<rparr>"
      "w' = Collect (batch @ [q])"
  | batch where "w = Collect batch" "b' = b" "w' = Merge batch 0"
  | sb batch k where "shard_bus b = Some sb" "w = Merge batch k" "k < length batch"
      "b' = b\<lparr>sent := sent b @ [fst (batch ! k)], shard_bus := Some (sb\<lparr>merged_total := merged_total sb + 1\<rparr>)\<rparr>"
      "w' = Merge batch (k + 1)"
  | batch k where "w = Merge batch k" "length batch \<le> k" "b' = b\<lparr>flow := release_credits (flow b) (of_nat (length batch))\<rparr>"
      "w' = Collect []"
proof (cases "shard_bus b")
  case None
  then show ?thesis using assms that(1) by (simp add: worker_step_def)
next
  case (Some sb)
  show ?thesis
  proof (cases w)
    case (Collect batch)
    show ?thesis
    proof (cases "length batch < SHARD_WORKER_BATCH")
      case True
      show ?thesis
      proof (cases "shards sb ! i")
        case Nil
        then show ?thesis using assms Some Collect True that(1,3) by (auto simp: worker_step_def split: if_splits)
      next
        case (Cons q qs)
        then show ?thesis using assms Some Collect True that(2) [OF Some Collect True Cons] by (auto simp: worker_step_def)
      qed
    next
      case False
      then show ?thesis using assms Some Collect that(3) by (auto simp: worker_step_def)
    qed
  next
    case (Merge batch k)
    show ?thesis
    proof (cases "k < length batch")
      case True
      then show ?thesis using assms Some Merge that(4) [OF Some Merge True] by (auto simp: worker_step_def)
    next
      case False
      then show ?thesis using assms Some Merge that(5) [OF Merge] by (auto simp: worker_step_def)
    qed
  qed
qed

lemma worker_step_ok:
  assumes "worker_step b i w = (b', w')" "i < length (queues b)" "\<forall>qs \<in> set (queues b). unordered qs" "worker_ok w"
  shows "same_shape b b' \<and> worker_ok w' \<and> bus_events b' + worker_events w' = bus_events b + worker_events w \<and>
    max_credits (flow b') = max_credits (flow b) \<and>
    (covered (flow b) (bus_paid b + paid_in (worker_batch w) + rest) \<longrightarrow>
     covered (flow b') (bus_paid b' + paid_in (worker_batch w') + rest))"
  using assms(1)
proof (cases rule: worker_step_cases)
  case 1
  then show ?thesis using assms by (simp add: same_core_shape)
next
  case (2 sb q qs batch)
  have q: "queues b = shards sb" "queues b' = (queues b)[i := qs]" "queues b ! i = q # qs" using 2 by (simp_all add: queues_def)
  have u: "unordered (q # qs)" using assms(2,3) q(3) nth_mem [of i "queues b"] by auto
  have "\<forall>x \<in> set (queues b'). unordered x"
  proof
    fix x assume "x \<in> set (queues b')"
    then have "x = qs \<or> x \<in> set (queues b)" using q(2) set_update_subset_insert by fastforce
    then show "unordered x" using assms(3) u by (auto simp: unordered_def)
  qed
  then have shape: "same_shape b b'" using q(2) 2 by (simp add: same_shape_def)
  have w: "worker_ok w'" using 2 assms(4) u by (auto simp: worker_ok_def unordered_def)
  have "total_of (\<lambda>i q. image_mset fst (mset q)) (queues b') + {#fst q#} = total_of (\<lambda>i q. image_mset fst (mset q)) (queues b)"
    using total_of_update [OF assms(2), of "\<lambda>i q. image_mset fst (mset q)" qs] q by simp
  then have e: "bus_events b' + worker_events w' = bus_events b + worker_events w"
    using 2 by (simp add: bus_events_def worker_events_def ac_simps)
  have "total_of (\<lambda>i. paid_in) (queues b') + paid_in [q] = total_of (\<lambda>i. paid_in) (queues b)"
    using total_of_update [OF assms(2), of "\<lambda>i. paid_in" qs] q by (simp add: paid_in_def split: if_splits)
  then have "bus_paid b' + paid_in (worker_batch w') = bus_paid b + paid_in (worker_batch w)"
    using 2 by (simp add: bus_paid_def paid_in_def split: if_splits)
  then show ?thesis using shape w e 2 by simp
next
  case (3 batch)
  then show ?thesis using assms by (simp add: same_core_shape worker_ok_def worker_events_def)
next
  case (4 sb batch k)
  have "queues b' = queues b" using 4 by (simp add: queues_def)
  moreover have "drop k batch = batch ! k # drop (Suc k) batch" using 4(3) by (simp add: Cons_nth_drop_Suc)
  ultimately show ?thesis using 4 assms
    by (simp add: same_shape_def worker_ok_def worker_events_def bus_events_def bus_paid_def)
next
  case (5 batch k)
  have q: "queues b' = queues b" using 5 by (simp add: queues_def)
  have "length batch \<le> 64" using assms(4) 5 by (simp add: worker_ok_def SHARD_WORKER_BATCH_def)
  then have "paid_in batch \<le> unat (of_nat (length batch) :: u64)"
    by (simp add: unat_of_nat paid_in_def order_trans [OF length_filter_le])
  then have "covered (flow b) (paid_in batch + (bus_paid b + rest)) \<Longrightarrow>
      covered (release_credits (flow b) (of_nat (length batch))) (bus_paid b + rest)"
    using covered_release by blast
  then show ?thesis using 5 assms(4) q
    by (simp add: same_shape_def worker_ok_def worker_events_def bus_events_def bus_paid_def paid_in_def unordered_def ac_simps)
qed

section \<open>The pool\<close>

lemma total_of_swap: "i < length xs \<Longrightarrow> g i (xs ! i) = g i y \<Longrightarrow> total_of g (xs[i := y]) = (total_of g xs :: 'b :: cancel_comm_monoid_add)"
  using total_of_update [of i xs g y] by simp

definition pool_ok :: "tagged multiset \<Rightarrow> u64 \<Rightarrow> bus_pool \<Rightarrow> bool" where
  "pool_ok events m s \<longleftrightarrow>
     length (workers s) = length (queues (bus s)) \<and> (shard_bus (bus s) \<noteq> None \<longrightarrow> queues (bus s) \<noteq> []) \<and>
     (\<forall>qs \<in> set (queues (bus s)). unordered qs) \<and> (\<forall>w \<in> set (workers s). worker_ok w) \<and>
     (\<forall>x \<in> set (publishers s). stage_ok (bus s) (stage x)) \<and>
     all_events s = events \<and> max_credits (flow (bus s)) = m \<and> covered (flow (bus s)) (owed s)"

lemma publisher_update:
  assumes "pool_ok events m s" "p < length (publishers s)" "same_shape (bus s) b" "stage_ok b (stage y)"
    "bus_events b + publisher_events p y = bus_events (bus s) + publisher_events p (publishers s ! p)"
    "\<And>rest. covered (flow (bus s)) (bus_paid (bus s) + pc_credits (stage (publishers s ! p)) + rest) \<Longrightarrow>
       covered (flow b) (bus_paid b + pc_credits (stage y) + rest) \<and> max_credits (flow b) = max_credits (flow (bus s))"
  shows "pool_ok events m (s\<lparr>bus := b, publishers := (publishers s)[p := y]\<rparr>)"
proof -
  let ?s = "s\<lparr>bus := b, publishers := (publishers s)[p := y]\<rparr>"
  have shape: "length (queues b) = length (queues (bus s))" "shard_bus b = None \<longleftrightarrow> shard_bus (bus s) = None"
    "\<forall>qs \<in> set (queues b). unordered qs"
    using assms(1,3) by (simp_all add: same_shape_def pool_ok_def)
  have "stage_ok b (stage x)" if "x \<in> set ((publishers s)[p := y])" for x
  proof -
    have "x = y \<or> x \<in> set (publishers s)" using that set_update_subset_insert by fastforce
    then show ?thesis using assms(1,4) stage_ok_mono [of "bus s" b] shape(2) by (auto simp: pool_ok_def)
  qed
  moreover have "all_events ?s = all_events s"
  proof -
    have "total_of publisher_events ((publishers s)[p := y]) + publisher_events p (publishers s ! p) =
        total_of publisher_events (publishers s) + publisher_events p y"
      by (rule total_of_update [OF assms(2)])
    then have "bus_events b + total_of publisher_events ((publishers s)[p := y]) + publisher_events p (publishers s ! p) =
        bus_events (bus s) + total_of publisher_events (publishers s) + publisher_events p (publishers s ! p)"
      using assms(5) by (metis add.assoc add.commute)
    then show ?thesis by (simp add: all_events_def)
  qed
  moreover have "covered (flow b) (owed ?s) \<and> max_credits (flow b) = max_credits (flow (bus s))"
  proof -
    let ?g = "\<lambda>i x. pc_credits (stage x)" and ?x = "publishers s ! p"
    define others where "others = total_of ?g (publishers s) - pc_credits (stage ?x) + total_of (\<lambda>i w. paid_in (worker_batch w)) (workers s)"
    have "pc_credits (stage ?x) \<le> total_of ?g (publishers s)"
      unfolding total_of_def using assms(2) by (intro member_le_sum) simp_all
    moreover have "total_of ?g ((publishers s)[p := y]) + pc_credits (stage ?x) = total_of ?g (publishers s) + pc_credits (stage y)"
      by (rule total_of_update [OF assms(2)])
    ultimately have o: "owed s = bus_paid (bus s) + pc_credits (stage ?x) + others" "owed ?s = bus_paid b + pc_credits (stage y) + others"
      by (simp_all add: owed_def others_def)
    have "covered (flow (bus s)) (bus_paid (bus s) + pc_credits (stage ?x) + others)"
      using assms(1) o(1) by (simp add: pool_ok_def)
    from assms(6) [OF this] show ?thesis using o(2) by simp
  qed
  ultimately show ?thesis using assms(1) shape by (auto simp: pool_ok_def)
qed

lemma publisher_move_ok:
  assumes "pool_ok events m s"
  shows "pool_ok events m (publisher_move s p n)"
proof (cases "p < length (publishers s)")
  case False
  then show ?thesis using assms by (simp add: publisher_move_def)
next
  case p: True
  let ?x = "publishers s ! p" and ?b = "bus s"
  have ok: "stage_ok ?b (stage ?x)" "shard_bus ?b \<noteq> None \<longrightarrow> queues ?b \<noteq> []" using assms p by (auto simp: pool_ok_def)
  show ?thesis
  proof (cases "stage ?x = Idle")
    case True
    show ?thesis
    proof (cases "todo ?x")
      case Nil
      then show ?thesis using assms True by (simp add: publisher_move_def)
    next
      case (Cons j rest)
      obtain k e where j: "j = (k, e)" by force
      obtain b pc where st: "start_publish ?b k e n = (b, pc)" by force
      then have core: "same_core ?b b" by (auto simp: start_publish_def)
      have "pc = Direct k e \<or> pc = Deduct k e \<and> sharded_event ?b e \<or> pc = Route k e False"
        using st by (auto simp: start_publish_def split: if_splits)
      then have pc: "pc_events p pc = {#(p, e)#}" "pc_credits pc = 0" "stage_ok b pc"
        using core sharded_event_cong [of b ?b] by (auto simp: same_core_def)
      have "pool_ok events m (s\<lparr>bus := b, publishers := (publishers s)[p := \<lparr>todo = rest, stage = pc\<rparr>]\<rparr>)"
        by (rule publisher_update [OF assms p same_core_shape [OF core]])
          (use core pc True Cons j same_core_events [OF core] in \<open>simp_all add: publisher_events_def same_core_def ac_simps\<close>)
      then show ?thesis using p True Cons j st by (simp add: publisher_move_def)
    qed
  next
    case False
    obtain b pc where st: "publish_step ?b p (stage ?x) n = (b, pc)" by force
    have "pool_ok events m (s\<lparr>bus := b, publishers := (publishers s)[p := ?x\<lparr>stage := pc\<rparr>]\<rparr>)"
    proof (rule publisher_update [OF assms p])
      show "same_shape ?b b" "stage_ok b (stage (?x\<lparr>stage := pc\<rparr>))" using publish_step_shape [OF st ok(2,1)] by simp_all
      show "bus_events b + publisher_events p (?x\<lparr>stage := pc\<rparr>) = bus_events ?b + publisher_events p ?x"
        using publish_step_events [OF st ok(2)] by (simp add: publisher_events_def)
      show "covered (flow b) (bus_paid b + pc_credits (stage (?x\<lparr>stage := pc\<rparr>)) + rest) \<and> max_credits (flow b) = max_credits (flow ?b)"
        if "covered (flow ?b) (bus_paid ?b + pc_credits (stage ?x) + rest)" for rest
        using publish_step_credits [OF st ok(2,1) that] by simp
    qed
    then show ?thesis using p False st by (cases "stage ?x") (simp_all add: publisher_move_def)
  qed
qed

lemma worker_move_ok:
  assumes "pool_ok events m s"
  shows "pool_ok events m (worker_move s i)"
proof (cases "i < length (workers s)")
  case False
  then show ?thesis using assms by (simp add: worker_move_def)
next
  case i: True
  let ?w = "workers s ! i" and ?b = "bus s"
  obtain b w where st: "worker_step ?b i ?w = (b, w)" by force
  have len: "i < length (queues ?b)" and u: "\<forall>qs \<in> set (queues ?b). unordered qs" and w: "worker_ok ?w"
    using assms i by (auto simp: pool_ok_def)
  let ?s = "s\<lparr>bus := b, workers := (workers s)[i := w]\<rparr>" and ?g = "\<lambda>i w. paid_in (worker_batch w)"
  note step = worker_step_ok [OF st len u w]
  have shape: "same_shape ?b b" "worker_ok w" "bus_events b + worker_events w = bus_events ?b + worker_events ?w"
    "max_credits (flow b) = max_credits (flow ?b)" using step [of 0] by simp_all
  have "stage_ok b (stage x)" if "x \<in> set (publishers s)" for x
    using that assms stage_ok_mono [of ?b b] shape(1) by (auto simp: pool_ok_def same_shape_def)
  moreover have "worker_ok x" if "x \<in> set ((workers s)[i := w])" for x
  proof -
    have "x = w \<or> x \<in> set (workers s)" using that set_update_subset_insert by fastforce
    then show ?thesis using assms shape(2) by (auto simp: pool_ok_def)
  qed
  moreover have "all_events ?s = all_events s"
  proof -
    have "total_of (\<lambda>i. worker_events) ((workers s)[i := w]) + worker_events ?w = total_of (\<lambda>i. worker_events) (workers s) + worker_events w"
      by (rule total_of_update [OF i])
    then have "bus_events b + total_of (\<lambda>i. worker_events) ((workers s)[i := w]) + worker_events ?w =
        bus_events ?b + total_of (\<lambda>i. worker_events) (workers s) + worker_events ?w"
      using shape(3) by (metis add.assoc add.commute)
    then show ?thesis by (simp add: all_events_def worker_events_def [abs_def] ac_simps)
  qed
  moreover have "covered (flow b) (owed ?s)"
  proof -
    define others where "others = total_of ?g (workers s) - paid_in (worker_batch ?w) + total_of (\<lambda>i x. pc_credits (stage x)) (publishers s)"
    have "paid_in (worker_batch ?w) \<le> total_of ?g (workers s)"
      unfolding total_of_def using i by (intro member_le_sum) simp_all
    moreover have "total_of ?g ((workers s)[i := w]) + paid_in (worker_batch ?w) = total_of ?g (workers s) + paid_in (worker_batch w)"
      by (rule total_of_update [OF i])
    ultimately have o: "owed s = bus_paid ?b + paid_in (worker_batch ?w) + others" "owed ?s = bus_paid b + paid_in (worker_batch w) + others"
      by (simp_all add: owed_def others_def)
    then show ?thesis using assms step [of others] by (simp add: pool_ok_def)
  qed
  ultimately have "pool_ok events m ?s" using assms shape by (auto simp: pool_ok_def same_shape_def)
  then show ?thesis using i st by (simp add: worker_move_def)
qed

lemma core_move_ok:
  assumes "pool_ok events m s" "same_core (bus s) b"
  shows "pool_ok events m (s\<lparr>bus := b\<rparr>)"
proof -
  have "stage_ok b (stage x)" if "x \<in> set (publishers s)" for x
    using that assms stage_ok_mono [of "bus s" b] by (auto simp: pool_ok_def same_core_def)
  then show ?thesis using assms same_core_events [OF assms(2)]
    unfolding pool_ok_def all_events_def owed_def same_core_def by auto
qed

lemma enable_move_ok:
  assumes "pool_ok events m s"
  shows "pool_ok events m (enable_move s has_runtime n)"
proof (cases "enable_sharding (bus s) has_runtime n")
  case (Inl err)
  then show ?thesis using assms by (simp add: enable_move_def)
next
  case (Inr b)
  let ?n = "max n 1" and ?ws = "replicate (max n 1) (Collect [])"
  have b: "shard_bus (bus s) = None" "b = (bus s)\<lparr>shard_bus := Some (sharded_new n SHARD_CAPACITY)\<rparr>"
    using Inr by (simp_all add: enable_sharding_def split: if_splits)
  have q: "queues b = replicate ?n []" "queues (bus s) = []" using b by (simp_all add: queues_def sharded_new_def Let_def)
  have old: "workers s = []" using assms q(2) by (simp add: pool_ok_def)
  have z: "total_of (\<lambda>i q. image_mset fst (mset q)) (queues b) = {#}" "total_of (\<lambda>i. paid_in) (queues b) = 0"
    "total_of (\<lambda>i w. image_mset fst (mset (worker_left w))) ?ws = {#}" "total_of (\<lambda>i w. paid_in (worker_batch w)) ?ws = 0"
    unfolding q(1) by (rule total_of_empty, simp add: paid_in_def)+
  have e: "total_of g ([] :: 'a list) = 0" for g :: "nat \<Rightarrow> 'a \<Rightarrow> 'b :: comm_monoid_add" by (simp add: total_of_def)
  have "stage_ok b (stage x)" if "x \<in> set (publishers s)" for x
    using that assms stage_ok_mono [of "bus s" b] b by (auto simp: pool_ok_def)
  moreover have "all_events (s\<lparr>bus := b, workers := ?ws\<rparr>) = all_events s"
    using b z by (simp add: all_events_def bus_events_def q(2) old e)
  moreover have "owed (s\<lparr>bus := b, workers := ?ws\<rparr>) = owed s"
    using z by (simp add: owed_def bus_paid_def q(2) old e)
  moreover have "worker_ok (Collect [])" by (simp add: worker_ok_def unordered_def)
  ultimately have "pool_ok events m (s\<lparr>bus := b, workers := ?ws\<rparr>)"
    using assms b q(1) by (simp add: pool_ok_def unordered_def)
  then show ?thesis using Inr by (simp add: enable_move_def)
qed

lemma bus_move_ok:
  assumes "pool_ok events m s"
  shows "pool_ok events m (bus_move s mv)"
proof (cases mv)
  case SubscribeCritical
  have "same_core (bus s) (subscribe_critical_events (bus s))" by (simp add: same_core_def subscribe_critical_events_def queues_def)
  then show ?thesis using core_move_ok [OF assms] SubscribeCritical by simp
next
  case (ReceiveCritical i)
  then show ?thesis using core_move_ok [OF assms]
    by (simp add: change_channel_def Let_def) (auto simp: same_core_def queues_def)
next
  case (DropCritical i)
  then show ?thesis using core_move_ok [OF assms]
    by (simp add: change_channel_def Let_def) (auto simp: same_core_def queues_def)
next
  case (ReleaseCredit n)
  let ?b = "(bus s)\<lparr>flow := release_credits (flow (bus s)) n\<rparr>"
  have "queues ?b = queues (bus s)" by (simp add: queues_def)
  moreover have "stage_ok ?b (stage x)" if "x \<in> set (publishers s)" for x
    using that assms stage_ok_mono [of "bus s" ?b] by (auto simp: pool_ok_def)
  moreover have "covered (flow (bus s)) (0 + owed s)" using assms by (simp add: pool_ok_def)
  then have "covered (release_credits (flow (bus s)) n) (owed s)" by (rule covered_release [THEN conjunct1]) simp
  ultimately show ?thesis using ReleaseCredit assms
    by (auto simp: pool_ok_def all_events_def owed_def bus_events_def bus_paid_def)
qed (simp_all add: publisher_move_ok worker_move_ok enable_move_ok assms)

text \<open>The jobs of all publishers, and a pool in which nothing is left to do.\<close>

definition published :: "(publish_kind \<times> nexus_event) list list \<Rightarrow> tagged multiset" where
  "published jobs = mset (concat (map (\<lambda>p. map (\<lambda>j. (p, snd j)) (jobs ! p)) [0..<length jobs]))"

definition quiet :: "bus_pool \<Rightarrow> bool" where
  "quiet s \<longleftrightarrow> (\<forall>x \<in> set (publishers s). todo x = [] \<and> stage x = Idle) \<and>
     (\<forall>qs \<in> set (queues (bus s)). qs = []) \<and> (\<forall>w \<in> set (workers s). w = Collect [])"

lemma total_of_list: "total_of g xs = sum_list (map (\<lambda>i. g i (xs ! i)) [0..<length xs])"
  by (simp add: total_of_def interv_sum_list_conv_sum_set_nat atLeast0LessThan)

lemma start_ok: "pool_ok (published jobs) DEFAULT_CREDITS (start_bus_pool policy jobs)"
proof -
  let ?s = "start_bus_pool policy jobs"
  have b: "queues (bus ?s) = []" "shard_bus (bus ?s) = None" "sent (bus ?s) = []" "downsampled (bus ?s) = []"
    "flow (bus ?s) = credit_flow_new" "workers ?s = []"
    by (simp_all add: start_bus_pool_def bus_with_policy_def queues_def)
  have e: "total_of g ([] :: 'a list) = 0" for g :: "nat \<Rightarrow> 'a \<Rightarrow> 'b :: comm_monoid_add" by (simp add: total_of_def)
  have "total_of publisher_events (publishers ?s) = published jobs"
  proof -
    have "publisher_events i (publishers ?s ! i) = mset (map (\<lambda>j. (i, snd j)) (jobs ! i))" if "i < length jobs" for i
      using that by (simp add: start_bus_pool_def publisher_events_def image_mset.compositionality comp_def)
    then have "map (\<lambda>i. publisher_events i (publishers ?s ! i)) [0..<length jobs] = map (\<lambda>i. mset (map (\<lambda>j. (i, snd j)) (jobs ! i))) [0..<length jobs]"
      by simp
    moreover have "length (publishers ?s) = length jobs" by (simp add: start_bus_pool_def)
    ultimately show ?thesis unfolding total_of_list published_def mset_concat by (simp only: map_map comp_def)
  qed
  then have "all_events ?s = published jobs" by (simp add: all_events_def bus_events_def b e)
  moreover have "covered credit_flow_new n" for n
    by (simp add: covered_def credit_flow_new_def credit_with_capacity_def)
  ultimately show ?thesis using b
    by (auto simp: pool_ok_def start_bus_pool_def credit_flow_new_def credit_with_capacity_def)
qed

interpretation bus_system: invariant_system "\<lambda>s. \<exists>policy. s = start_bus_pool policy jobs" "\<lambda>s t. \<exists>mv. t = bus_move s mv"
  "pool_ok (published jobs) DEFAULT_CREDITS" for jobs
proof (unfold_locales, goal_cases)
  case 1
  then show ?case using start_ok by blast
next
  case 2
  then show ?case using bus_move_ok by blast
qed

lemma bus_run_steps: "(\<lambda>s t. \<exists>mv. t = bus_move s mv)\<^sup>*\<^sup>* s (foldl bus_move s moves)"
proof (induction moves rule: rev_induct)
  case (snoc mv moves)
  then show ?case by (auto intro: rtranclp.rtrancl_into_rtrancl)
qed simp

lemma bus_run_ok: "pool_ok (published jobs) DEFAULT_CREDITS (foldl bus_move (start_bus_pool policy jobs) moves)"
  using bus_system.inv_reachable [OF _ bus_run_steps] by blast

lemma quiet_totals:
  assumes "quiet s"
  shows "all_events s = mset (sent (bus s)) + mset (downsampled (bus s))" "owed s = 0"
proof -
  have p: "todo (publishers s ! i) = []" "stage (publishers s ! i) = Idle" if "i < length (publishers s)" for i
    using assms nth_mem [OF that] by (auto simp: quiet_def)
  have q: "queues (bus s) ! i = []" if "i < length (queues (bus s))" for i using assms nth_mem [OF that] by (auto simp: quiet_def)
  have w: "workers s ! i = Collect []" if "i < length (workers s)" for i using assms nth_mem [OF that] by (auto simp: quiet_def)
  show "all_events s = mset (sent (bus s)) + mset (downsampled (bus s))"
    by (simp add: all_events_def bus_events_def total_of_empty p q w publisher_events_def)
  show "owed s = 0" by (simp add: owed_def bus_paid_def total_of_empty p q w paid_in_def)
qed

section \<open>The order of single-stream events\<close>

fun pc_hand :: "publish_pc \<Rightarrow> nexus_event list" where
  "pc_hand (Deduct k e) = [e]"
| "pc_hand (Route k e paid) = [e]"
| "pc_hand (Borrow k e paid) = [e]"
| "pc_hand (Retry k e paid) = [e]"
| "pc_hand (GiveBack r) = (case r of None \<Rightarrow> [] | Some (k, e, paid) \<Rightarrow> [e])"
| "pc_hand (Refund k e paid) = [e]"
| "pc_hand (Direct k e) = [e]"
| "pc_hand _ = []"

text \<open>Events that neither go to a shard nor can be down-sampled.\<close>

definition steady :: "event_bus \<Rightarrow> nexus_event \<Rightarrow> bool" where
  "steady b e \<longleftrightarrow> event_lane e \<noteq> Unordered \<and> (ds_params b = None \<or> severity e = Critical)"

definition sent_by :: "nat \<Rightarrow> event_bus \<Rightarrow> nexus_event list" where
  "sent_by p b = map snd (filter (\<lambda>x. fst x = p) (sent b))"

definition stream :: "nat \<Rightarrow> bus_pool \<Rightarrow> nexus_event list" where
  "stream p s = filter (steady (bus s)) (sent_by p (bus s) @ pc_hand (stage (publishers s ! p)) @ map snd (todo (publishers s ! p)))"

lemma push_sent: "push_event b p e paid = Some b' \<Longrightarrow> sent b' = sent b \<and> ds_params b' = ds_params b \<and> downsampled b' = downsampled b"
  by (auto simp: push_event_def split: option.splits)

lemma publish_step_stream:
  assumes "publish_step b p pc n = (b', pc')" "stage_ok b pc"
  shows "ds_params b' = ds_params b \<and>
    filter (steady b) (sent_by p b' @ pc_hand pc') = filter (steady b) (sent_by p b @ pc_hand pc) \<and>
    (p' \<noteq> p \<longrightarrow> sent_by p' b' = sent_by p' b) \<and> (ds_params b = None \<longrightarrow> downsampled b' = downsampled b)"
proof (cases pc)
  case (Route k e paid)
  show ?thesis
  proof (cases "sharded_event b e")
    case True
    then have "\<not> steady b e" by (simp add: sharded_event_def steady_def)
    then show ?thesis using assms(1) Route True push_sent [of b p e paid]
      by (auto simp: sent_by_def split: option.splits)
  next
    case False
    then show ?thesis using assms(1) Route by auto
  qed
next
  case (Retry k e paid)
  then have "\<not> steady b e" using assms(2) by (simp add: sharded_event_def steady_def)
  then show ?thesis using assms(1) Retry push_sent [of b p e paid] by (auto simp: sent_by_def split: option.splits)
next
  case (Direct k e)
  obtain c where c: "same_core b c"
    "b' = c\<lparr>sent := sent c @ [(p, e)]\<rparr> \<or> b' = c\<lparr>downsampled := downsampled c @ [(p, e)]\<rparr> \<and> ds_params b \<noteq> None \<and> severity e \<noteq> Critical"
    using assms(1) Direct send_direct_core [of b p k e n] by (metis Pair_inject publish_step.simps(9))
  then show ?thesis using assms(1) Direct by (auto simp: same_core_def sent_by_def steady_def)
next
  case (Counted idx borrowed)
  then show ?thesis using assms(1) by (auto simp: sent_by_def)
next
  case (GiveBack r)
  then show ?thesis using assms(1) by (auto simp: sent_by_def split: option.splits prod.splits)
qed (insert assms(1), auto simp: sent_by_def split: if_splits prod.splits)

lemma worker_step_stream:
  assumes "worker_step b i w = (b', w')" "worker_ok w"
  shows "ds_params b' = ds_params b \<and> filter (steady b) (sent_by p b') = filter (steady b) (sent_by p b) \<and>
    downsampled b' = downsampled b"
  using assms(1)
proof (cases rule: worker_step_cases)
  case (4 sb batch k)
  have "event_lane (snd (fst (batch ! k))) = Unordered" using assms(2) 4 nth_mem [OF 4(3)] by (auto simp: worker_ok_def unordered_def)
  then show ?thesis using 4 by (simp add: sent_by_def steady_def)
qed (simp_all add: sent_by_def)

lemma core_stream: "same_core b b' \<Longrightarrow> ds_params b' = ds_params b \<and> sent_by p b' = sent_by p b \<and> downsampled b' = downsampled b"
  by (simp add: same_core_def sent_by_def)

lemma steady_cong: "ds_params b' = ds_params b \<Longrightarrow> steady b' = steady b"
  by (simp add: steady_def fun_eq_iff)

text \<open>A move keeps the stream of every publisher, and the default policies down-sample nothing.\<close>

definition streams_kept :: "bus_pool \<Rightarrow> bus_pool \<Rightarrow> bool" where
  "streams_kept s t \<longleftrightarrow> length (publishers t) = length (publishers s) \<and> ds_params (bus t) = ds_params (bus s) \<and>
     (\<forall>p < length (publishers s). stream p t = stream p s) \<and>
     (ds_params (bus s) = None \<longrightarrow> downsampled (bus t) = downsampled (bus s))"

lemma publisher_streams:
  assumes "p < length (publishers s)" "ds_params b = ds_params (bus s)"
    "\<And>p'. p' \<noteq> p \<Longrightarrow> sent_by p' b = sent_by p' (bus s)" "ds_params (bus s) = None \<longrightarrow> downsampled b = downsampled (bus s)"
    "filter (steady (bus s)) (sent_by p b @ pc_hand (stage y) @ map snd (todo y)) = stream p s"
  shows "streams_kept s (s\<lparr>bus := b, publishers := (publishers s)[p := y]\<rparr>)"
  using assms steady_cong [OF assms(2)] by (auto simp: streams_kept_def stream_def nth_list_update)

lemma publisher_move_streams:
  assumes "pool_ok events m s"
  shows "streams_kept s (publisher_move s p n)"
proof (cases "p < length (publishers s)")
  case False
  then show ?thesis by (simp add: publisher_move_def streams_kept_def)
next
  case p: True
  let ?x = "publishers s ! p" and ?b = "bus s"
  have ok: "stage_ok ?b (stage ?x)" using assms p by (auto simp: pool_ok_def)
  show ?thesis
  proof (cases "stage ?x = Idle")
    case True
    show ?thesis
    proof (cases "todo ?x")
      case Nil
      then show ?thesis using True by (simp add: publisher_move_def streams_kept_def)
    next
      case (Cons j rest)
      obtain k e where j: "j = (k, e)" by force
      obtain b pc where st: "start_publish ?b k e n = (b, pc)" by force
      then have core: "same_core ?b b" and hand: "pc_hand pc = [e]" by (auto simp: start_publish_def)
      have "streams_kept s (s\<lparr>bus := b, publishers := (publishers s)[p := \<lparr>todo = rest, stage = pc\<rparr>]\<rparr>)"
        using p core_stream [OF core] hand True Cons j by (intro publisher_streams) (simp_all add: stream_def)
      then show ?thesis using p True Cons j st by (simp add: publisher_move_def)
    qed
  next
    case False
    obtain b pc where st: "publish_step ?b p (stage ?x) n = (b, pc)" by force
    have f: "filter (steady ?b) (sent_by p b @ pc_hand pc) = filter (steady ?b) (sent_by p ?b @ pc_hand (stage ?x))"
      using publish_step_stream [OF st ok] by blast
    have "streams_kept s (s\<lparr>bus := b, publishers := (publishers s)[p := ?x\<lparr>stage := pc\<rparr>]\<rparr>)"
      using p publish_step_stream [OF st ok] f by (intro publisher_streams) (simp_all add: stream_def)
    then show ?thesis using p False st by (cases "stage ?x") (simp_all add: publisher_move_def)
  qed
qed

lemma other_streams:
  assumes "publishers t = publishers s" "ds_params (bus t) = ds_params (bus s)" "downsampled (bus t) = downsampled (bus s)"
    "\<And>p. filter (steady (bus s)) (sent_by p (bus t)) = filter (steady (bus s)) (sent_by p (bus s))"
  shows "streams_kept s t"
  using assms steady_cong [OF assms(2)] by (simp add: streams_kept_def stream_def)

lemma bus_move_streams:
  assumes "pool_ok events m s"
  shows "streams_kept s (bus_move s mv)"
proof (cases mv)
  case (PublisherMoves p n)
  then show ?thesis using publisher_move_streams [OF assms] by simp
next
  case (WorkerMoves i)
  show ?thesis
  proof (cases "i < length (workers s)")
    case True
    obtain b w where st: "worker_step (bus s) i (workers s ! i) = (b, w)" by force
    have "worker_ok (workers s ! i)" using assms True by (auto simp: pool_ok_def)
    from worker_step_stream [OF st this] show ?thesis using WorkerMoves True st
      by (intro other_streams) (simp_all add: worker_move_def)
  qed (use WorkerMoves in \<open>simp add: worker_move_def streams_kept_def\<close>)
next
  case (EnableSharding has_runtime n)
  then show ?thesis
    by (intro other_streams) (auto simp: enable_move_def enable_sharding_def sent_by_def split: if_splits)
qed (auto intro!: other_streams simp: subscribe_critical_events_def change_channel_def sent_by_def Let_def)

lemma run_streams:
  "streams_kept (start_bus_pool policy jobs) (foldl bus_move (start_bus_pool policy jobs) moves)"
proof (induction moves rule: rev_induct)
  case Nil
  then show ?case by (simp add: streams_kept_def)
next
  case (snoc mv moves)
  then show ?case using bus_move_streams [OF bus_run_ok [of jobs policy moves], of mv] by (simp add: streams_kept_def)
qed

section \<open>An example\<close>

text \<open>One publisher sends an event of a session and then an unordered one, which goes through the only shard.\<close>

definition demo_event :: "string option \<Rightarrow> string \<Rightarrow> nexus_event" where
  "demo_event session text =
     \<lparr>type_name = ''T'', severity = Normal, session_field = session, alert_rule = None, correlation_id = None,
      on_critical_list = False, payload = text\<rparr>"

definition demo_jobs :: "(publish_kind \<times> nexus_event) list list" where
  "demo_jobs = [[(Single, demo_event (Some ''s'') ''a''), (Single, demo_event None ''b'')]]"

definition demo_moves :: "move list" where
  "demo_moves =
     [EnableSharding True 1, PublisherMoves 0 0, PublisherMoves 0 0, PublisherMoves 0 0, PublisherMoves 0 0, PublisherMoves 0 0, PublisherMoves 0 0, PublisherMoves 0 0,
      WorkerMoves 0, WorkerMoves 0, WorkerMoves 0, WorkerMoves 0]"

lemmas bus_eval = demo_moves_def demo_jobs_def demo_event_def start_bus_pool_def bus_with_policy_def enable_move_def enable_sharding_def
  sharded_new_def SHARD_CAPACITY_def publisher_move_def start_publish_def count_published_def sharded_event_def event_lane_def
  send_direct_def sample_backpressure_def ds_admit_def credit_flow_new_def credit_with_capacity_def DEFAULT_CREDITS_def acquire_def
  push_event_def try_push_def event_shard_def shard_index_def count_push_def worker_move_def worker_step_def SHARD_WORKER_BATCH_def
  release_credits_def quiet_def queues_def

lemma bus_demo_run:
  "quiet (foldl bus_move (start_bus_pool DropOldest demo_jobs) demo_moves)"
  "sent (bus (foldl bus_move (start_bus_pool DropOldest demo_jobs) demo_moves)) =
     [(0, demo_event (Some ''s'') ''a''), (0, demo_event None ''b'')]"
  by (simp_all add: bus_eval)

section \<open>Properties\<close>

text \<open>
  C8: the bus delivers everything once. Let publishers, shard workers, consumers of critical channels and the
  start of sharding interleave in any way. When all are done, every published event has been sent to the
  broadcast channel or down-sampled, each as often as it was published, and nothing is down-sampled
  without the policy that asks for it.
\<close>

theorem bus_delivers_everything:
  assumes "s = foldl bus_move (start_bus_pool policy jobs) moves" "quiet s"
  shows "mset (sent (bus s)) + mset (downsampled (bus s)) = published jobs \<and>
    (downsample_params policy = None \<longrightarrow> downsampled (bus s) = [])"
proof -
  have "all_events s = published jobs" using bus_run_ok [of jobs policy moves] assms(1) by (simp add: pool_ok_def)
  then show ?thesis using quiet_totals(1) [OF assms(2)] run_streams [of policy jobs moves] assms(1)
    by (simp add: streams_kept_def start_bus_pool_def bus_with_policy_def)
qed

theorem bus_delivers_everything_witness:
  "mset [(0 :: nat, demo_event (Some ''s'') ''a''), (0, demo_event None ''b'')] = published demo_jobs"
  using bus_delivers_everything [OF refl bus_demo_run(1)] bus_demo_run(2) by (metis add.right_neutral downsample_params.simps(3) mset.simps(1))

text \<open>
  C9: credits are neither multiplied nor lost. Under every interleaving the pool never holds more than its
  256 credits, what is missing is covered by events in flight and borrowed credits, and when all
  are done the pool is full again.
\<close>

theorem credits_return:
  assumes "s = foldl bus_move (start_bus_pool policy jobs) moves"
  shows "unat (credits (flow (bus s))) \<le> 256 \<and> 256 \<le> unat (credits (flow (bus s))) + owed s \<and>
    (quiet s \<longrightarrow> credits (flow (bus s)) = 256)"
proof -
  have c: "unat (credits (flow (bus s))) \<le> 256 \<and> 256 \<le> unat (credits (flow (bus s))) + owed s"
  proof -
    have "max_credits (flow (bus s)) = 256" "covered (flow (bus s)) (owed s)"
      using bus_run_ok [of jobs policy moves] assms by (simp_all add: pool_ok_def DEFAULT_CREDITS_def)
    then show ?thesis by (simp add: covered_def)
  qed
  moreover have "credits (flow (bus s)) = 256" if "quiet s"
  proof (rule word_unat_eq_iff [THEN iffD2])
    show "unat (credits (flow (bus s))) = unat (256 :: u64)" using c quiet_totals(2) [OF that] by simp
  qed
  ultimately show ?thesis by blast
qed

theorem credits_return_witness:
  "credits (flow (bus (foldl bus_move (start_bus_pool DropOldest demo_jobs) demo_moves))) = 256"
  using credits_return [OF refl, of DropOldest demo_jobs demo_moves] bus_demo_run(1) by simp



section \<open>What the accounts do not say\<close>

text \<open>The credit a worker returns for an event nobody paid for is a new one.\<close>

lemma unpaid_batch_adds_credits:
  assumes "shard_bus b = Some sb" "flow b = \<lparr>credits = 0, max_credits = 256\<rparr>"
  shows "credits (flow (fst (worker_step b i (Merge [(x, False)] 1)))) = 1"
  using assms by (simp add: worker_step_def release_credits_def saturating_add_def min_def)

text \<open>A worker that takes an event before its publisher has counted it makes the depth of the shard wrap.\<close>

lemma depth_wraps:
  "map_option depths (shard_bus (bus (foldl bus_move (start_bus_pool DropOldest demo_jobs) (take 7 demo_moves @ [WorkerMoves 0])))) = Some [- 1]"
  by (simp add: bus_eval)


end
