(* ===== verification/Checkpoint.thy ===== *)
theory Checkpoint
  imports Quest_Dag Sensitive "HOL-Library.AList"
begin

text \<open>
  Checkpoints of quests: \<^verbatim>\<open>quest-engine/src/checkpoint.rs\<close> over a directory of files. A directory of a quest is
  an association list from file names to bytes; the operating system answers in an environment: the
  clock, the generated identifier, how many bytes a write gets to the disk, the order in which a
  directory is listed, and which removals fail. MessagePack and SHA-256 are the record \<open>msgpack\<close>. Error
  messages are short tags.
\<close>

section \<open>Data\<close>

datatype thinking_mode = Fast | Standard | Deep

record quest =
  quest_id :: string
  title :: string
  tasks :: "task list"
  thinking_mode :: thinking_mode
  quest_checkpoint_id :: "string option"
  priority :: "8 word"

record checkpoint =
  cp_quest_id :: string
  checkpoint_id :: string
  memory_snapshot_hash :: string
  serialized_state :: bytes
  created_at :: int
  cp_description :: "string option"

definition checkpoint_new :: "int \<Rightarrow> string \<Rightarrow> string \<Rightarrow> string \<Rightarrow> bytes \<Rightarrow> checkpoint" where
  "checkpoint_new now q i h st =
     \<lparr>cp_quest_id = q, checkpoint_id = i, memory_snapshot_hash = h, serialized_state = st, created_at = now,
      cp_description = None\<rparr>"

definition checkpoint_with_description ::
  "int \<Rightarrow> string \<Rightarrow> string \<Rightarrow> string \<Rightarrow> bytes \<Rightarrow> string \<Rightarrow> checkpoint" where
  "checkpoint_with_description now q i h st desc = (checkpoint_new now q i h st)\<lparr>cp_description := Some desc\<rparr>"

record msgpack =
  quest_to_vec :: "quest \<Rightarrow> (string, bytes) result"
  quest_from_slice :: "bytes \<Rightarrow> (string, quest) result"
  cp_to_vec :: "checkpoint \<Rightarrow> (string, bytes) result"
  cp_from_slice :: "bytes \<Rightarrow> (string, checkpoint) result"
  sha256_hex :: "bytes \<Rightarrow> string"
  cp_lossy :: "bytes \<Rightarrow> string"
  cp_lowercase :: "string \<Rightarrow> string"

text \<open>What is read back is what was written, and a file that was cut off does not decode.\<close>

definition msgpack_ok :: "msgpack \<Rightarrow> bool" where
  "msgpack_ok mp \<longleftrightarrow>
     (\<forall>cp bs. cp_to_vec mp cp = Inr bs \<longrightarrow>
        cp_from_slice mp bs = Inr cp \<and> (\<forall>k < length bs. \<exists>e. cp_from_slice mp (take k bs) = Inl e)) \<and>
     (\<forall>q bs. quest_to_vec mp q = Inr bs \<longrightarrow> quest_from_slice mp bs = Inr q)"

type_synonym files = "(string \<times> bytes) list"
type_synonym checkpoint_dir = "string \<rightharpoonup> files"

record cp_env =
  now :: int
  fresh_uuid :: string
  mkdir_fails :: bool
  disk_room :: nat
  list_fails :: bool
  dir_order :: "string list \<Rightarrow> string list"
  remove_fails :: "string \<Rightarrow> bool"

section \<open>File names\<close>

text \<open>\<^verbatim>\<open>Path::file_stem\<close> and \<^verbatim>\<open>Path::extension\<close>.\<close>

definition split_at_dot :: "string \<Rightarrow> string \<times> string option" where
  "split_at_dot name =
     (let ext = rev (takeWhile (\<lambda>c. c \<noteq> CHR ''.'') (rev name)); n = length name - length ext
      in if n \<le> 1 \<or> name = ''..'' then (name, None) else (take (n - 1) name, Some ext))"

definition bin_name :: "string \<Rightarrow> string" where
  "bin_name i = i @ ''.bin''"

definition bin_ids :: "(string list \<Rightarrow> string list) \<Rightarrow> files \<Rightarrow> string list" where
  "bin_ids order fs =
     map (\<lambda>n. fst (split_at_dot n)) (filter (\<lambda>n. snd (split_at_dot n) = Some ''bin'') (order (map fst fs)))"

section \<open>Operations\<close>

definition load_blocking :: "msgpack \<Rightarrow> bytes option \<Rightarrow> (quest_error, checkpoint) result" where
  "load_blocking mp file_bytes =
     (case file_bytes of
        None \<Rightarrow> Inl (CheckpointNotFound ''read'')
      | Some bs \<Rightarrow>
          (case cp_from_slice mp bs of
             Inl e \<Rightarrow> Inl (SerializationError e)
           | Inr cp \<Rightarrow>
               if sha256_hex mp (serialized_state cp) \<noteq> memory_snapshot_hash cp then Inl CheckpointCorrupted else Inr cp))"

definition load_checkpoint ::
  "msgpack \<Rightarrow> checkpoint_dir \<Rightarrow> string \<Rightarrow> string \<Rightarrow> (quest_error, checkpoint) result" where
  "load_checkpoint mp d q i = load_blocking mp (case d q of None \<Rightarrow> None | Some fs \<Rightarrow> map_of fs (bin_name i))"

definition verify_integrity :: "msgpack \<Rightarrow> checkpoint \<Rightarrow> (quest_error, unit) result" where
  "verify_integrity mp cp =
     (if sha256_hex mp (serialized_state cp) \<noteq> memory_snapshot_hash cp then Inl CheckpointCorrupted else Inr ())"

text \<open>The files that load, in the order of the identifiers; the others are skipped.\<close>

definition load_all :: "msgpack \<Rightarrow> files \<Rightarrow> string list \<Rightarrow> checkpoint list" where
  "load_all mp fs stems =
     List.map_filter (\<lambda>i. case load_blocking mp (map_of fs (bin_name i)) of Inl _ \<Rightarrow> None | Inr cp \<Rightarrow> Some cp) stems"

definition list_checkpoints :: "cp_env \<Rightarrow> checkpoint_dir \<Rightarrow> string \<Rightarrow> (quest_error, string list) result" where
  "list_checkpoints env d q =
     (case d q of
        None \<Rightarrow> Inr []
      | Some fs \<Rightarrow> if list_fails env then Inl (CheckpointSaveFailed ''readdir'') else Inr (bin_ids (dir_order env) fs))"

text \<open>\<^verbatim>\<open>max_by_key\<close> returns the last one of several greatest elements.\<close>

definition later :: "checkpoint option \<Rightarrow> checkpoint \<Rightarrow> checkpoint option" where
  "later best cp =
     (case best of None \<Rightarrow> Some cp | Some b \<Rightarrow> if created_at b \<le> created_at cp then Some cp else Some b)"

definition load_latest ::
  "msgpack \<Rightarrow> cp_env \<Rightarrow> checkpoint_dir \<Rightarrow> string \<Rightarrow> (quest_error, checkpoint option) result" where
  "load_latest mp env d q =
     (case d q of
        None \<Rightarrow> Inr None
      | Some fs \<Rightarrow>
          if list_fails env then Inl (CheckpointSaveFailed ''readdir'')
          else Inr (foldl later None (load_all mp fs (bin_ids (dir_order env) fs))))"

definition prune_old ::
  "msgpack \<Rightarrow> cp_env \<Rightarrow> checkpoint_dir \<Rightarrow> string \<Rightarrow> nat \<Rightarrow> checkpoint_dir \<times> (quest_error, unit) result" where
  "prune_old mp env d q keep =
     (case d q of
        None \<Rightarrow> (d, Inr ())
      | Some fs \<Rightarrow>
          if list_fails env then (d, Inl (CheckpointSaveFailed ''readdir''))
          else (let stems = bin_ids (dir_order env) fs
                in if length stems \<le> keep then (d, Inr ())
                   else (let found = map (\<lambda>cp. (checkpoint_id cp, created_at cp)) (load_all mp fs stems);
                             old = drop keep (sort_key (\<lambda>p. - snd p) found)
                         in (d(q \<mapsto> foldl (\<lambda>fs p. if remove_fails env (fst p) then fs else AList.delete (bin_name (fst p)) fs) fs old),
                             Inr ()))))"

definition save_blocking ::
  "msgpack \<Rightarrow> cp_env \<Rightarrow> checkpoint_dir \<Rightarrow> nat \<Rightarrow> checkpoint \<Rightarrow> checkpoint_dir \<times> (quest_error, checkpoint) result" where
  "save_blocking mp env d max_keep cp =
     (if mkdir_fails env then (d, Inl (CheckpointSaveFailed ''mkdir''))
      else (let q = cp_quest_id cp;
                fs = (case d q of None \<Rightarrow> [] | Some fs \<Rightarrow> fs);
                d = d(q \<mapsto> fs)
            in case cp_to_vec mp cp of
                 Inl e \<Rightarrow> (d, Inl (SerializationError e))
               | Inr bs \<Rightarrow>
                   if is_blocked (scan (cp_lowercase mp) (cp_lossy mp bs) write_policy)
                   then (d, Inl (CheckpointSaveFailed ''sensitive''))
                   else if disk_room env < length bs
                   then (d(q \<mapsto> AList.update (bin_name (checkpoint_id cp)) (take (disk_room env) bs) fs),
                         Inl (CheckpointSaveFailed ''write''))
                   else (fst (prune_old mp env (d(q \<mapsto> AList.update (bin_name (checkpoint_id cp)) bs fs)) q max_keep),
                         Inr cp)))"

definition save_cp ::
  "msgpack \<Rightarrow> cp_env \<Rightarrow> checkpoint_dir \<Rightarrow> nat \<Rightarrow> quest \<Rightarrow> checkpoint_dir \<times> (quest_error, checkpoint) result" where
  "save_cp mp env d max_keep quest =
     (case quest_to_vec mp quest of
        Inl e \<Rightarrow> (d, Inl (SerializationError e))
      | Inr st \<Rightarrow>
          save_blocking mp env d max_keep
            (checkpoint_new (now env) (quest_id quest) (''cp-'' @ fresh_uuid env) (sha256_hex mp st) st))"

definition DEFAULT_MAX_KEEP :: nat where "DEFAULT_MAX_KEEP = 5"

text \<open>A history of saves: the directory it leaves, and the checkpoints it returned, the newest first.\<close>

fun save_all ::
  "msgpack \<Rightarrow> nat \<Rightarrow> checkpoint_dir \<times> checkpoint list \<Rightarrow> (cp_env \<times> quest) list \<Rightarrow> checkpoint_dir \<times> checkpoint list" where
  "save_all mp keep (d, H) [] = (d, H)"
| "save_all mp keep (d, H) ((env, q) # jobs) =
     (case save_cp mp env d keep q of
        (d', Inl _) \<Rightarrow> save_all mp keep (d', H) jobs
      | (d', Inr cp) \<Rightarrow> save_all mp keep (d', cp # H) jobs)"

section \<open>What a directory holds\<close>

definition cps_held :: "msgpack \<Rightarrow> files \<Rightarrow> checkpoint set" where
  "cps_held mp fs = {cp. \<exists>n bs. (n, bs) \<in> set fs \<and> load_blocking mp (Some bs) = Inr cp}"

text \<open>The stack of the checkpoints returned so far, newest first.\<close>

definition stack_ok :: "checkpoint list \<Rightarrow> bool" where
  "stack_ok H \<longleftrightarrow> sorted_wrt (\<lambda>a b. created_at b < created_at a) H \<and> distinct (map checkpoint_id H)"

text \<open>
  The directory of a quest against the stack: every file bears an identifier used before; a file that loads is
  one of the stack under its own name; the newest \<open>keep\<close> of the stack are there.
\<close>

definition dir_inv :: "msgpack \<Rightarrow> nat \<Rightarrow> string set \<Rightarrow> checkpoint list \<Rightarrow> files \<Rightarrow> bool" where
  "dir_inv mp keep U H fs \<longleftrightarrow>
     distinct (map fst fs) \<and>
     (\<forall>(n, bs) \<in> set fs. (\<exists>i \<in> U. i \<noteq> [] \<and> n = bin_name i) \<and>
        (\<forall>cp. load_blocking mp (Some bs) = Inr cp \<longrightarrow> cp \<in> set H \<and> n = bin_name (checkpoint_id cp))) \<and>
     set (take keep H) \<subseteq> cps_held mp fs"

lemma split_bin_name: "i \<noteq> [] \<Longrightarrow> split_at_dot (bin_name i) = (i, Some ''bin'')"
  by (auto simp: split_at_dot_def bin_name_def Let_def)

lemma bin_name_inj [simp]: "bin_name i = bin_name j \<longleftrightarrow> i = j"
  by (simp add: bin_name_def)

lemma bin_ids_names:
  assumes "\<forall>n \<in> set (map fst fs). \<exists>i. i \<noteq> [] \<and> n = bin_name i" "\<And>ns. mset (order ns) = mset ns"
  shows "map bin_name (bin_ids order fs) = order (map fst fs)"
proof -
  have *: "\<exists>i. i \<noteq> [] \<and> n = bin_name i" if "n \<in> set (order (map fst fs))" for n
    using assms(1) that mset_eq_setD [OF assms(2)] by blast
  have "map bin_name (map (\<lambda>n. fst (split_at_dot n)) (filter (\<lambda>n. snd (split_at_dot n) = Some ''bin'') ns)) = ns"
    if "\<forall>n \<in> set ns. \<exists>i. i \<noteq> [] \<and> n = bin_name i" for ns
    using that by (induction ns) (auto simp: split_bin_name)
  then show ?thesis using * by (simp add: bin_ids_def)
qed

lemma ids_of_loads:
  assumes "\<And>i cp. i \<in> set is \<Longrightarrow> f i = Some cp \<Longrightarrow> checkpoint_id cp = i"
  shows "map checkpoint_id (List.map_filter f is) = filter (\<lambda>i. f i \<noteq> None) is"
  using assms by (induction "is") (auto split: option.splits)

lemma load_all_held:
  assumes "dir_inv mp keep U H fs" "\<And>ns. mset (order ns) = mset ns"
  shows "set (load_all mp fs (bin_ids order fs)) = cps_held mp fs"
    "distinct (map checkpoint_id (load_all mp fs (bin_ids order fs)))"
    "length (bin_ids order fs) = length fs"
proof -
  let ?is = "bin_ids order fs"
  let ?f = "\<lambda>i. case load_blocking mp (map_of fs (bin_name i)) of Inl _ \<Rightarrow> None | Inr cp \<Rightarrow> Some cp"
  have d: "distinct (map fst fs)" using assms(1) by (simp add: dir_inv_def)
  have names: "map bin_name ?is = order (map fst fs)"
    by (rule bin_ids_names) (use assms in \<open>auto simp: dir_inv_def\<close>)
  have perm: "mset (map bin_name ?is) = mset (map fst fs)" unfolding names by (rule assms(2))
  then show "length ?is = length fs" using mset_eq_length by fastforce
  have at: "?f i = Some cp \<longleftrightarrow> (\<exists>bs. (bin_name i, bs) \<in> set fs \<and> load_blocking mp (Some bs) = Inr cp)" for i cp
  proof (cases "map_of fs (bin_name i)")
    case None
    then have "(bin_name i, bs) \<notin> set fs" for bs using d by (metis map_of_is_SomeI option.distinct(1))
    then show ?thesis using None by (simp add: load_blocking_def)
  next
    case (Some bs)
    then have "(bin_name i, x) \<in> set fs \<longleftrightarrow> x = bs" for x using d by (metis map_of_is_SomeI map_of_SomeD option.inject)
    then show ?thesis using Some by (simp split: sum.split)
  qed
  show "set (load_all mp fs ?is) = cps_held mp fs"
  proof (intro equalityI subsetI)
    fix cp assume "cp \<in> set (load_all mp fs ?is)"
    then obtain i where "i \<in> set ?is" "?f i = Some cp" by (auto simp: load_all_def List.map_filter_def)
    then show "cp \<in> cps_held mp fs" unfolding at cps_held_def by blast
  next
    fix cp assume "cp \<in> cps_held mp fs"
    then obtain n bs where n: "(n, bs) \<in> set fs" "load_blocking mp (Some bs) = Inr cp" by (auto simp: cps_held_def)
    then have "n \<in> set (map bin_name ?is)" using mset_eq_setD [OF perm] by force
    then obtain i where i: "i \<in> set ?is" "n = bin_name i" by auto
    then have "?f i = Some cp" using n unfolding at by blast
    then show "cp \<in> set (load_all mp fs ?is)" using i(1) by (force simp: load_all_def List.map_filter_def)
  qed
  have "checkpoint_id cp = i" if "?f i = Some cp" for i cp
    using that assms(1) unfolding at by (fastforce simp: dir_inv_def)
  then have ids: "map checkpoint_id (load_all mp fs ?is) = filter (\<lambda>i. ?f i \<noteq> None) ?is"
    unfolding load_all_def by (rule ids_of_loads)
  have "distinct (map bin_name ?is)" using d mset_eq_imp_distinct_iff [OF perm] by simp
  then have "distinct ?is" by (simp add: distinct_map)
  then show "distinct (map checkpoint_id (load_all mp fs ?is))" unfolding ids by simp
qed

lemma latest_max:
  "xs \<noteq> [] \<Longrightarrow> \<exists>m \<in> set xs. foldl later None xs = Some m \<and> (\<forall>x \<in> set xs. created_at x \<le> created_at m)"
proof (induction xs rule: rev_induct)
  case (snoc x xs)
  show ?case
  proof (cases "xs = []")
    case False
    then show ?thesis using snoc.IH by (force simp: later_def)
  qed (simp add: later_def)
qed simp

lemma latest_newest:
  assumes "cp \<in> set xs" "\<And>x. x \<in> set xs \<Longrightarrow> x \<noteq> cp \<Longrightarrow> created_at x < created_at cp"
  shows "foldl later None xs = Some cp"
proof -
  obtain m where "m \<in> set xs" "foldl later None xs = Some m" "created_at cp \<le> created_at m"
    using latest_max [of xs] assms(1) by (cases xs) auto
  then show ?thesis using assms(2) [of m] by (cases "m = cp") auto
qed

section \<open>Saving and pruning\<close>

lemma held_filter: "cps_held mp (filter P fs) = {cp. \<exists>n bs. (n, bs) \<in> set fs \<and> P (n, bs) \<and> load_blocking mp (Some bs) = Inr cp}"
  by (auto simp: cps_held_def)

lemma removals:
  "foldl (\<lambda>fs p. if fails (fst p) then fs else AList.delete (bin_name (fst p)) fs) fs old =
     filter (\<lambda>x. \<forall>p \<in> set old. fails (fst p) \<or> fst x \<noteq> bin_name (fst p)) fs"
proof (induction old arbitrary: fs)
  case (Cons p old)
  show ?case
    by (simp add: Cons.IH AList.delete_eq) (intro impI filter_cong refl, auto simp: split_def)
qed simp

text \<open>The files of a consistent directory, sorted by age, are the stack without the lost ones.\<close>

lemma stack_sorted:
  assumes "dir_inv mp keep U H fs" "stack_ok H" "\<And>ns. mset (order ns) = mset ns"
  shows "sort_key (\<lambda>p. - snd p) (map (\<lambda>cp. (checkpoint_id cp, created_at cp)) (load_all mp fs (bin_ids order fs))) =
    map (\<lambda>cp. (checkpoint_id cp, created_at cp)) (filter (\<lambda>cp. cp \<in> cps_held mp fs) H)"
proof (rule sort_key_inj_key_eq)
  let ?xs = "load_all mp fs (bin_ids order fs)" and ?ys = "filter (\<lambda>cp. cp \<in> cps_held mp fs) H"
  note l = load_all_held [OF assms(1,3)]
  have sub: "cps_held mp fs \<subseteq> set H" using assms(1) by (auto simp: dir_inv_def cps_held_def)
  have "distinct ?xs" "distinct ?ys" using l(2) assms(2) by (auto simp: distinct_map stack_ok_def)
  moreover have "set ?xs = set ?ys" using l(1) sub by auto
  ultimately have "mset ?xs = mset ?ys" using set_eq_iff_mset_eq_distinct by blast
  then show "mset (map (\<lambda>cp. (checkpoint_id cp, created_at cp)) ?xs) = mset (map (\<lambda>cp. (checkpoint_id cp, created_at cp)) ?ys)"
    by (simp del: mset_filter)
  have s: "sorted_wrt (\<lambda>a b. created_at b < created_at a) ?ys"
    using assms(2) by (simp add: stack_ok_def sorted_wrt_filter)
  then show "sorted (map (\<lambda>p. - snd p) (map (\<lambda>cp. (checkpoint_id cp, created_at cp)) ?ys))"
    by (simp add: sorted_map o_def) (erule sorted_wrt_mono_rel [rotated], simp)
  have "inj_on created_at (set H)"
  proof -
    have "distinct (map created_at H)" using assms(2) unfolding stack_ok_def
      by (induction H) (auto simp: less_le)
    then show ?thesis by (simp add: distinct_map)
  qed
  then show "inj_on (\<lambda>p. - snd p) (set (map (\<lambda>cp. (checkpoint_id cp, created_at cp)) ?xs))"
    using l(1) sub by (auto simp: inj_on_def)
qed

lemma filter_take: "\<forall>x \<in> set (take k xs). P x \<Longrightarrow> drop k (filter P xs) = filter P (drop k xs)"
proof -
  assume a: "\<forall>x \<in> set (take k xs). P x"
  have "filter P xs = filter P (take k xs) @ filter P (drop k xs)" by (simp flip: filter_append)
  also have "filter P (take k xs) = take k xs" using a by (simp add: filter_id_conv)
  finally show ?thesis by (cases "k \<le> length xs") simp_all
qed

lemma in_take_or_drop: "x \<in> set xs \<Longrightarrow> x \<in> set (take k xs) \<or> x \<in> set (drop k xs)"
  by (metis Un_iff append_take_drop_id set_append)

lemma prune_ok:
  assumes i: "dir_inv mp keep U H fs" and s: "stack_ok H" and o: "\<And>ns. mset (dir_order env ns) = mset ns" and d: "d q = Some fs"
  shows "\<exists>fs'. fst (prune_old mp env d q keep) = d(q \<mapsto> fs') \<and> dir_inv mp keep U H fs' \<and>
    (\<not> list_fails env \<longrightarrow> (\<forall>i. \<not> remove_fails env i) \<longrightarrow> cps_held mp fs' = set (take keep H))"
proof -
  let ?p = "\<lambda>cp. (checkpoint_id cp, created_at cp)"
  have sub: "cps_held mp fs \<subseteq> set H" and top: "set (take keep H) \<subseteq> cps_held mp fs"
    using i by (auto simp: dir_inv_def cps_held_def)
  have inj: "checkpoint_id a = checkpoint_id b \<longleftrightarrow> a = b" if "a \<in> set H" "b \<in> set H" for a b
    using s that by (auto simp: stack_ok_def distinct_map inj_on_def)
  consider "list_fails env" | "\<not> list_fails env" "length fs \<le> keep" | "\<not> list_fails env" "keep < length fs" by linarith
  then show ?thesis
  proof cases
    case 1
    then show ?thesis using i d by (intro exI [of _ fs]) (simp add: prune_old_def fun_upd_idem)
  next
    case 2
    have "length (filter (\<lambda>cp. cp \<in> cps_held mp fs) H) \<le> length fs"
    proof -
      have "length (filter (\<lambda>cp. cp \<in> cps_held mp fs) H) = length (load_all mp fs (bin_ids (dir_order env) fs))"
        using arg_cong [OF stack_sorted [OF i s o], of length] by simp
      also have "\<dots> \<le> length (bin_ids (dir_order env) fs)" by (simp add: load_all_def List.map_filter_def)
      finally show ?thesis using load_all_held(3) [OF i o] by simp
    qed
    then have "drop keep (filter (\<lambda>cp. cp \<in> cps_held mp fs) H) = []" using 2 by simp
    then have "filter (\<lambda>cp. cp \<in> cps_held mp fs) (drop keep H) = []"
      using filter_take [of keep H "\<lambda>cp. cp \<in> cps_held mp fs"] subsetD [OF top] by simp
    then have "cps_held mp fs = set (take keep H)"
      using sub top in_take_or_drop [of _ H keep] by (fastforce simp: filter_empty_conv)
    then show ?thesis using 2 i d load_all_held(3) [OF i o]
      by (intro exI [of _ fs]) (simp add: prune_old_def fun_upd_idem)
  next
    case 3
    define old where "old = filter (\<lambda>cp. cp \<in> cps_held mp fs) (drop keep H)"
    have "drop keep (filter (\<lambda>cp. cp \<in> cps_held mp fs) H) = old"
      unfolding old_def by (rule filter_take) (use top in auto)
    then have dropped: "drop keep (map ?p (filter (\<lambda>cp. cp \<in> cps_held mp fs) H)) = map ?p old" by (simp add: drop_map)
    define fs' where "fs' = filter (\<lambda>x. \<forall>cp \<in> set old. remove_fails env (checkpoint_id cp) \<or> fst x \<noteq> bin_name (checkpoint_id cp)) fs"
    have run: "fst (prune_old mp env d q keep) = d(q \<mapsto> fs')"
      using 3 d load_all_held(3) [OF i o] by (simp add: prune_old_def Let_def stack_sorted [OF i s o] dropped removals fs'_def)
    have name: "n = bin_name (checkpoint_id cp)" "cp \<in> set H" if "(n, bs) \<in> set fs" "load_blocking mp (Some bs) = Inr cp" for n bs cp
      using i that by (auto simp: dir_inv_def)
    have held': "cps_held mp fs' = {cp \<in> cps_held mp fs. cp \<in> set old \<longrightarrow> remove_fails env (checkpoint_id cp)}"
    proof -
      have "cps_held mp fs' = {cp. \<exists>n bs. (n, bs) \<in> set fs \<and> load_blocking mp (Some bs) = Inr cp \<and>
          (\<forall>c \<in> set old. remove_fails env (checkpoint_id c) \<or> checkpoint_id cp \<noteq> checkpoint_id c)}"
        unfolding fs'_def held_filter using name by fastforce
      moreover have "(\<forall>c \<in> set old. remove_fails env (checkpoint_id c) \<or> checkpoint_id cp \<noteq> checkpoint_id c) \<longleftrightarrow>
          (cp \<in> set old \<longrightarrow> remove_fails env (checkpoint_id cp))" if "cp \<in> set H" for cp
        using inj [OF that] by (auto simp: old_def dest: in_set_dropD)
      ultimately show ?thesis using name(2) unfolding cps_held_def by blast
    qed
    have apart: "set (take keep H) \<inter> set old = {}"
      using s by (auto simp: stack_ok_def old_def distinct_map dest: set_take_disj_set_drop_if_distinct [of H keep keep])
    have "dir_inv mp keep U H fs'"
      using i top apart unfolding dir_inv_def held' by (auto simp: fs'_def distinct_map_filter)
    moreover have "cps_held mp fs' = set (take keep H)" if "\<forall>i. \<not> remove_fails env i"
    proof -
      have "cp \<in> set (take keep H) \<or> cp \<in> set old" if "cp \<in> cps_held mp fs" for cp
        using that sub in_take_or_drop [of cp H keep] by (auto simp: old_def)
      then show ?thesis using that top apart unfolding held' by blast
    qed
    ultimately show ?thesis using run by blast
  qed
qed

definition files_in :: "checkpoint_dir \<Rightarrow> string \<Rightarrow> files" where
  "files_in d q = (case d q of None \<Rightarrow> [] | Some fs \<Rightarrow> fs)"

lemma files_in_upd [simp]: "files_in (d(q \<mapsto> fs)) x = (if x = q then fs else files_in d x)"
  by (simp add: files_in_def)

lemma update_fresh: "n \<notin> fst ` set fs \<Longrightarrow> AList.update n bs fs = fs @ [(n, bs)]"
  by (induction fs) auto

lemma held_append [simp]: "cps_held mp (fs @ [(n, bs)]) = cps_held mp fs \<union> {cp. load_blocking mp (Some bs) = Inr cp}"
  by (auto simp: cps_held_def)

lemma dir_inv_append:
  assumes "dir_inv mp keep U H fs" "i \<noteq> []" "i \<notin> U"
    "\<And>cp. load_blocking mp (Some bs) = Inr cp \<Longrightarrow> cp \<in> set H' \<and> checkpoint_id cp = i" "set H \<subseteq> set H'"
    "set (take keep H') \<subseteq> cps_held mp (fs @ [(bin_name i, bs)])"
  shows "dir_inv mp keep (insert i U) H' (fs @ [(bin_name i, bs)])"
proof -
  have "bin_name i \<notin> fst ` set fs" using assms(1,3) by (fastforce simp: dir_inv_def)
  then show ?thesis using assms unfolding dir_inv_def by fastforce
qed

lemma save_step:
  assumes mp: "msgpack_ok mp" and o: "\<And>ns. mset (dir_order env ns) = mset ns"
    and i: "dir_inv mp keep U H (files_in d (cp_quest_id cp))" and s: "stack_ok H" "checkpoint_id ` set H \<subseteq> U"
    and new: "checkpoint_id cp \<notin> U" "checkpoint_id cp \<noteq> []" "\<forall>h \<in> set H. created_at h < created_at cp"
    and hash: "sha256_hex mp (serialized_state cp) = memory_snapshot_hash cp"
    and run: "save_blocking mp env d keep cp = (d', r)"
  shows "(\<forall>x. x \<noteq> cp_quest_id cp \<longrightarrow> d' x = d x) \<and>
    (case r of
       Inl _ \<Rightarrow> dir_inv mp keep (insert (checkpoint_id cp) U) H (files_in d' (cp_quest_id cp)) \<and>
         cps_held mp (files_in d' (cp_quest_id cp)) = cps_held mp (files_in d (cp_quest_id cp))
     | Inr cp' \<Rightarrow> cp' = cp \<and> dir_inv mp keep (insert (checkpoint_id cp) U) (cp # H) (files_in d' (cp_quest_id cp)) \<and>
         (\<not> list_fails env \<longrightarrow> (\<forall>i. \<not> remove_fails env i) \<longrightarrow>
            cps_held mp (files_in d' (cp_quest_id cp)) = set (take keep (cp # H))))"
proof -
  let ?q = "cp_quest_id cp" and ?U = "insert (checkpoint_id cp) U"
  have weaker: "dir_inv mp keep ?U H (files_in d ?q)" using i by (fastforce simp: dir_inv_def)
  have fresh: "bin_name (checkpoint_id cp) \<notin> fst ` set (files_in d ?q)" using i new(1) by (fastforce simp: dir_inv_def)
  consider "mkdir_fails env" | e where "\<not> mkdir_fails env" "cp_to_vec mp cp = Inl e" | bs where "\<not> mkdir_fails env" "cp_to_vec mp cp = Inr bs"
    by (cases "cp_to_vec mp cp") auto
  then show ?thesis
  proof cases
    case 1
    then show ?thesis using run weaker by (auto simp: save_blocking_def)
  next
    case 2
    then show ?thesis using run weaker by (auto simp: save_blocking_def Let_def files_in_def)
  next
    case (3 bs)
    let ?fs = "files_in d ?q"
    have fs: "(case d ?q of None \<Rightarrow> [] | Some fs \<Rightarrow> fs) = ?fs" by (simp add: files_in_def)
    have load: "load_blocking mp (Some bs) = Inr cp" using mp 3(2) hash by (simp add: load_blocking_def msgpack_ok_def)
    consider "is_blocked (scan (cp_lowercase mp) (cp_lossy mp bs) write_policy)"
      | "\<not> is_blocked (scan (cp_lowercase mp) (cp_lossy mp bs) write_policy)" "disk_room env < length bs"
      | "\<not> is_blocked (scan (cp_lowercase mp) (cp_lossy mp bs) write_policy)" "\<not> disk_room env < length bs" by blast
    then show ?thesis
    proof cases
      case 1
      then show ?thesis using run 3 weaker by (auto simp: save_blocking_def Let_def fs)
    next
      case 2
      let ?torn = "take (disk_room env) bs"
      have "d' = d(?q \<mapsto> ?fs @ [(bin_name (checkpoint_id cp), ?torn)])" "\<exists>e. r = Inl e"
        using run 3 2 by (auto simp: save_blocking_def Let_def fs update_fresh [OF fresh])
      moreover have torn: "load_blocking mp (Some ?torn) \<noteq> Inr x" for x
        using mp 3(2) 2(2) by (fastforce simp: msgpack_ok_def load_blocking_def split: sum.split)
      moreover have "dir_inv mp keep ?U H (?fs @ [(bin_name (checkpoint_id cp), ?torn)])"
        by (rule dir_inv_append [OF i new(2,1)]) (use torn i in \<open>auto simp: dir_inv_def\<close>)
      ultimately show ?thesis by auto
    next
      case room: 3
      let ?d = "d(?q \<mapsto> ?fs @ [(bin_name (checkpoint_id cp), bs)])"
      have out: "d' = fst (prune_old mp env ?d ?q keep)" "r = Inr cp"
        using run 3 room by (auto simp: save_blocking_def Let_def fs update_fresh [OF fresh])
      have "set (take keep (cp # H)) \<subseteq> insert cp (set (take keep H))"
        using set_take_subset_set_take [of "keep - 1" keep H] by (cases keep) auto
      then have j: "dir_inv mp keep ?U (cp # H) (?fs @ [(bin_name (checkpoint_id cp), bs)])"
        by (intro dir_inv_append [OF i new(2,1)]) (use load i in \<open>auto simp: dir_inv_def\<close>)
      have "stack_ok (cp # H)" using s new(1,3) by (auto simp: stack_ok_def)
      from prune_ok [OF j this o, of ?d ?q] show ?thesis unfolding out by auto
    qed
  qed
qed

section \<open>Any directory\<close>

lemma held_mono: "set fs \<subseteq> set fs' \<Longrightarrow> cps_held mp fs \<subseteq> cps_held mp fs'"
  by (auto simp: cps_held_def)

lemma set_update: "set (AList.update n bs fs) \<subseteq> insert (n, bs) (set fs)"
  by (induction fs) auto

lemma prune_subset: "set (files_in (fst (prune_old mp env d q keep)) x) \<subseteq> set (files_in d x)"
  by (auto simp: prune_old_def Let_def removals files_in_def split: option.split)

text \<open>What a save can add.\<close>

lemma saved_held:
  assumes mp: "msgpack_ok mp" and new: "c \<in> cps_held mp (files_in (fst (save_cp mp env d keep qst)) x)" "c \<notin> cps_held mp (files_in d x)"
  shows "x = quest_id qst \<and> quest_from_slice mp (serialized_state c) = Inr qst"
proof (cases "quest_to_vec mp qst")
  case (Inl e)
  then show ?thesis using new by (simp add: save_cp_def)
next
  case (Inr st)
  define cp where "cp = checkpoint_new (now env) (quest_id qst) (''cp-'' @ fresh_uuid env) (sha256_hex mp st) st"
  let ?n = "bin_name (checkpoint_id cp)" and ?fs = "files_in d (quest_id qst)"
  have cpf: "cp_quest_id cp = quest_id qst" "serialized_state cp = st" by (simp_all add: cp_def checkpoint_new_def)
  have run: "fst (save_cp mp env d keep qst) = fst (save_blocking mp env d keep cp)" using Inr by (simp add: save_cp_def cp_def)
  have torn: "load_blocking mp (Some (take k bs)) \<noteq> Inr y" if "cp_to_vec mp cp = Inr bs" "k < length bs" for k bs y
    using mp that by (fastforce simp: msgpack_ok_def load_blocking_def split: sum.split)
  have fs: "(case d (quest_id qst) of None \<Rightarrow> [] | Some fs \<Rightarrow> fs) = ?fs" by (simp add: files_in_def)
  have "set (files_in (fst (save_blocking mp env d keep cp)) x) \<subseteq> set (files_in d x) \<or>
    x = quest_id qst \<and> (\<exists>k bs. cp_to_vec mp cp = Inr bs \<and> (k < length bs \<or> k = length bs) \<and>
      set (files_in (fst (save_blocking mp env d keep cp)) x) \<subseteq> insert (?n, take k bs) (set ?fs))"
  proof (cases "cp_to_vec mp cp")
    case (Inl e)
    then show ?thesis by (cases "x = quest_id qst") (simp_all add: save_blocking_def Let_def cpf fs)
  next
    case (Inr bs)
    note [simp] = save_blocking_def Let_def cpf fs Inr
    show ?thesis
    proof (cases "x = quest_id qst")
      case False
      then show ?thesis using prune_subset [of mp env "d(quest_id qst \<mapsto> AList.update ?n bs ?fs)" "quest_id qst" keep x] by simp
    next
      case True
      consider "mkdir_fails env" | "\<not> mkdir_fails env" "is_blocked (scan (cp_lowercase mp) (cp_lossy mp bs) write_policy)"
        | "\<not> mkdir_fails env" "\<not> is_blocked (scan (cp_lowercase mp) (cp_lossy mp bs) write_policy)" "disk_room env < length bs"
        | "\<not> mkdir_fails env" "\<not> is_blocked (scan (cp_lowercase mp) (cp_lossy mp bs) write_policy)" "\<not> disk_room env < length bs"
        by blast
      then show ?thesis
      proof cases
        case 3
        then show ?thesis using True set_update [of ?n "take (disk_room env) bs" ?fs] by auto
      next
        case 4
        have "set (files_in (fst (save_blocking mp env d keep cp)) x) \<subseteq> insert (?n, take (length bs) bs) (set ?fs)"
          using 4 True prune_subset [of mp env "d(quest_id qst \<mapsto> AList.update ?n bs ?fs)" "quest_id qst" keep x]
            set_update [of ?n bs ?fs] by auto
        then show ?thesis using True Inr by blast
      qed (use True in auto)
    qed
  qed
  moreover have "\<not> set (files_in (fst (save_blocking mp env d keep cp)) x) \<subseteq> set (files_in d x)"
    using new held_mono [of "files_in (fst (save_blocking mp env d keep cp)) x" "files_in d x" mp] unfolding run by blast
  ultimately obtain k bs where x: "x = quest_id qst" and bs: "cp_to_vec mp cp = Inr bs" "k < length bs \<or> k = length bs"
    "set (files_in (fst (save_blocking mp env d keep cp)) x) \<subseteq> insert (?n, take k bs) (set ?fs)"
    by blast
  have "cps_held mp (files_in (fst (save_blocking mp env d keep cp)) x) \<subseteq> cps_held mp (?fs @ [(?n, take k bs)])"
    by (rule held_mono) (use bs(3) in simp)
  then have l: "load_blocking mp (Some (take k bs)) = Inr c" using new unfolding run x by auto
  then have "k = length bs" using torn [OF bs(1)] bs(2) by blast
  then have "c = cp" using l mp bs(1) by (auto simp: load_blocking_def msgpack_ok_def split: if_splits)
  then show ?thesis using x mp Inr by (simp add: cpf msgpack_ok_def)
qed

lemma latest_held: "load_latest mp env d q = Inr (Some cp) \<Longrightarrow> cp \<in> cps_held mp (files_in d q)"
proof -
  assume l: "load_latest mp env d q = Inr (Some cp)"
  then obtain fs where fs: "d q = Some fs" "foldl later None (load_all mp fs (bin_ids (dir_order env) fs)) = Some cp"
    by (auto simp: load_latest_def split: option.splits if_splits)
  then have "cp \<in> set (load_all mp fs (bin_ids (dir_order env) fs))"
    using latest_max [of "load_all mp fs (bin_ids (dir_order env) fs)"] by fastforce
  then obtain i where "load_blocking mp (map_of fs (bin_name i)) = Inr cp"
    by (auto simp: load_all_def List.map_filter_def split: sum.splits)
  then show ?thesis using fs(1) map_of_SomeD [of fs "bin_name i"]
    by (auto simp: cps_held_def files_in_def load_blocking_def split: option.splits)
qed

section \<open>Histories of saves\<close>

definition of_quest :: "string \<Rightarrow> checkpoint list \<Rightarrow> checkpoint list" where
  "of_quest q H = filter (\<lambda>cp. cp_quest_id cp = q) H"

definition saves_ok :: "(cp_env \<times> quest) list \<Rightarrow> bool" where
  "saves_ok jobs \<longleftrightarrow> sorted_wrt (<) (map (\<lambda>j. now (fst j)) jobs) \<and> distinct (map (\<lambda>j. fresh_uuid (fst j)) jobs) \<and>
     (\<forall>j \<in> set jobs. \<forall>ns. mset (dir_order (fst j) ns) = mset ns)"

definition store_inv :: "msgpack \<Rightarrow> nat \<Rightarrow> string set \<Rightarrow> checkpoint_dir \<Rightarrow> checkpoint list \<Rightarrow> bool" where
  "store_inv mp keep U d H \<longleftrightarrow>
     stack_ok H \<and> checkpoint_id ` set H \<subseteq> U \<and> (\<forall>x. dir_inv mp keep U (of_quest x H) (files_in d x))"

lemma of_quest_Cons: "of_quest x (cp # H) = (if x = cp_quest_id cp then cp # of_quest x H else of_quest x H)"
  by (auto simp: of_quest_def)

lemma stack_ok_of_quest: "stack_ok H \<Longrightarrow> stack_ok (of_quest x H)"
  by (simp add: stack_ok_def of_quest_def sorted_wrt_filter distinct_map_filter)

lemma dir_inv_mono: "dir_inv mp keep U H fs \<Longrightarrow> U \<subseteq> V \<Longrightarrow> dir_inv mp keep V H fs"
  by (fastforce simp: dir_inv_def)

lemma save_cp_step:
  assumes mp: "msgpack_ok mp" and o: "\<And>ns. mset (dir_order env ns) = mset ns" and i: "store_inv mp keep U d H"
    and new: "''cp-'' @ fresh_uuid env \<notin> U" "\<forall>h \<in> set H. created_at h < now env"
    and run: "save_cp mp env d keep qst = (d', r)"
  shows "case r of
      Inl _ \<Rightarrow> store_inv mp keep (insert (''cp-'' @ fresh_uuid env) U) d' H \<and>
        (\<forall>x. cps_held mp (files_in d' x) = cps_held mp (files_in d x))
    | Inr cp \<Rightarrow> store_inv mp keep (insert (''cp-'' @ fresh_uuid env) U) d' (cp # H) \<and> created_at cp = now env \<and>
        cp_quest_id cp = quest_id qst \<and> quest_from_slice mp (serialized_state cp) = Inr qst \<and>
        (\<forall>x. x \<noteq> quest_id qst \<longrightarrow> files_in d' x = files_in d x) \<and>
        (\<not> list_fails env \<longrightarrow> (\<forall>i. \<not> remove_fails env i) \<longrightarrow>
           cps_held mp (files_in d' (quest_id qst)) = set (take keep (of_quest (quest_id qst) (cp # H))))"
proof (cases "quest_to_vec mp qst")
  case (Inl e)
  then show ?thesis using run i by (fastforce simp: save_cp_def store_inv_def intro: dir_inv_mono)
next
  case (Inr st)
  define cp where "cp = checkpoint_new (now env) (quest_id qst) (''cp-'' @ fresh_uuid env) (sha256_hex mp st) st"
  note f = cp_def checkpoint_new_def
  have cpf: "cp_quest_id cp = quest_id qst" "checkpoint_id cp = ''cp-'' @ fresh_uuid env" "created_at cp = now env"
    "serialized_state cp = st" "memory_snapshot_hash cp = sha256_hex mp st"
    by (simp_all add: f)
  have run': "save_blocking mp env d keep cp = (d', r)" using run Inr by (simp add: save_cp_def cp_def)
  have q: "quest_from_slice mp st = Inr qst" using mp Inr by (simp add: msgpack_ok_def)
  let ?H = "of_quest (quest_id qst) H"
  have sub: "set ?H \<subseteq> set H" by (auto simp: of_quest_def)
  have step: "(\<forall>x. x \<noteq> cp_quest_id cp \<longrightarrow> d' x = d x) \<and>
    (case r of
       Inl _ \<Rightarrow> dir_inv mp keep (insert (checkpoint_id cp) U) ?H (files_in d' (cp_quest_id cp)) \<and>
         cps_held mp (files_in d' (cp_quest_id cp)) = cps_held mp (files_in d (cp_quest_id cp))
     | Inr cp' \<Rightarrow> cp' = cp \<and> dir_inv mp keep (insert (checkpoint_id cp) U) (cp # ?H) (files_in d' (cp_quest_id cp)) \<and>
         (\<not> list_fails env \<longrightarrow> (\<forall>i. \<not> remove_fails env i) \<longrightarrow>
            cps_held mp (files_in d' (cp_quest_id cp)) = set (take keep (cp # ?H))))"
  proof (rule save_step [OF mp o _ _ _ _ _ _ _ run'])
    show "dir_inv mp keep U ?H (files_in d (cp_quest_id cp))" "stack_ok ?H" "checkpoint_id ` set ?H \<subseteq> U"
      using i sub by (auto simp: store_inv_def cpf stack_ok_of_quest)
    show "\<forall>h \<in> set ?H. created_at h < created_at cp" using new(2) sub by (auto simp: cpf)
  qed (use new(1) in \<open>simp_all add: cpf\<close>)
  then have other: "files_in d' x = files_in d x" if "x \<noteq> quest_id qst" for x using that by (simp add: files_in_def cpf)
  have keepi: "dir_inv mp keep (insert (checkpoint_id cp) U) (of_quest x H) (files_in d' x)" if "x \<noteq> quest_id qst" for x
    using i dir_inv_mono [of mp keep U "of_quest x H" "files_in d x"] by (simp add: store_inv_def other [OF that] subset_insertI)
  show ?thesis
  proof (cases r)
    case (Inl e)
    then have "cps_held mp (files_in d' x) = cps_held mp (files_in d x)" for x using step other by (cases "x = quest_id qst") (simp_all add: cpf)
    moreover have "dir_inv mp keep (insert (checkpoint_id cp) U) (of_quest x H) (files_in d' x)" for x
      using step keepi Inl by (cases "x = quest_id qst") (simp_all add: cpf)
    ultimately show ?thesis using Inl i by (auto simp: store_inv_def cpf)
  next
    case (Inr cp')
    then have "cp' = cp" using step by simp
    moreover have "dir_inv mp keep (insert (checkpoint_id cp) U) (of_quest x (cp # H)) (files_in d' x)" for x
      using step keepi Inr by (cases "x = quest_id qst") (simp_all add: cpf of_quest_Cons)
    moreover have "stack_ok (cp # H)" using i new by (auto simp: store_inv_def stack_ok_def cpf)
    ultimately show ?thesis using Inr i step other q by (auto simp: store_inv_def cpf of_quest_Cons)
  qed
qed

definition loss_free :: "cp_env \<Rightarrow> bool" where
  "loss_free env \<longleftrightarrow> \<not> list_fails env \<and> (\<forall>i. \<not> remove_fails env i)"

lemma save_all_run:
  assumes mp: "msgpack_ok mp" and run: "save_all mp keep (d, H) jobs = (d', H')" and i: "store_inv mp keep U d H" and j: "saves_ok jobs"
    and new: "\<forall>j \<in> set jobs. ''cp-'' @ fresh_uuid (fst j) \<notin> U \<and> (\<forall>h \<in> set H. created_at h < now (fst j))"
    and origin: "\<forall>cp \<in> set H. \<exists>qst \<in> Q. quest_id qst = cp_quest_id cp \<and> quest_from_slice mp (serialized_state cp) = Inr qst"
  shows "(\<exists>V. store_inv mp keep V d' H') \<and>
    (\<forall>cp \<in> set H'. \<exists>qst \<in> Q \<union> snd ` set jobs. quest_id qst = cp_quest_id cp \<and> quest_from_slice mp (serialized_state cp) = Inr qst) \<and>
    ((\<forall>j \<in> set jobs. loss_free (fst j)) \<longrightarrow> (\<forall>x. cps_held mp (files_in d x) = set (take keep (of_quest x H))) \<longrightarrow>
      (\<forall>x. cps_held mp (files_in d' x) = set (take keep (of_quest x H'))))"
  using run i j new origin
proof (induction jobs arbitrary: d H U Q)
  case Nil
  then show ?case by auto
next
  case (Cons job jobs)
  obtain env qst where job: "job = (env, qst)" by force
  obtain d1 r where s: "save_cp mp env d keep qst = (d1, r)" by force
  let ?U = "insert (''cp-'' @ fresh_uuid env) U"
  have o: "mset (dir_order env ns) = mset ns" for ns using Cons.prems(3) job by (auto simp: saves_ok_def)
  have ok: "saves_ok jobs" and later: "\<forall>j \<in> set jobs. now env < now (fst j) \<and> fresh_uuid (fst j) \<noteq> fresh_uuid env"
    using Cons.prems(3) unfolding job saves_ok_def by force+
  have new1: "''cp-'' @ fresh_uuid env \<notin> U" "\<forall>h \<in> set H. created_at h < now env" using Cons.prems(4) job by auto
  note step = save_cp_step [OF mp o Cons.prems(2) new1 s]
  show ?case
  proof (cases r)
    case (Inl e)
    then have st: "store_inv mp keep ?U d1 H" "\<forall>x. cps_held mp (files_in d1 x) = cps_held mp (files_in d x)" using step by auto
    have run1: "save_all mp keep (d1, H) jobs = (d', H')" using Cons.prems(1) s Inl by (simp add: job)
    have "\<forall>j \<in> set jobs. ''cp-'' @ fresh_uuid (fst j) \<notin> ?U \<and> (\<forall>h \<in> set H. created_at h < now (fst j))"
      using Cons.prems(4) later by auto
    from Cons.IH [OF run1 st(1) ok this Cons.prems(5)] show ?thesis using st(2) by auto
  next
    case (Inr cp)
    then have st: "store_inv mp keep ?U d1 (cp # H)" "created_at cp = now env" "cp_quest_id cp = quest_id qst"
      "quest_from_slice mp (serialized_state cp) = Inr qst" "\<And>x. x \<noteq> quest_id qst \<Longrightarrow> files_in d1 x = files_in d x"
      "loss_free env \<Longrightarrow> cps_held mp (files_in d1 (quest_id qst)) = set (take keep (of_quest (quest_id qst) (cp # H)))"
      using step by (auto simp: loss_free_def)
    have run1: "save_all mp keep (d1, cp # H) jobs = (d', H')" using Cons.prems(1) s Inr by (simp add: job)
    have n: "\<forall>j \<in> set jobs. ''cp-'' @ fresh_uuid (fst j) \<notin> ?U \<and> (\<forall>h \<in> set (cp # H). created_at h < now (fst j))"
      using Cons.prems(4) later st(2) by auto
    have f: "\<forall>c \<in> set (cp # H). \<exists>qst \<in> insert qst Q. quest_id qst = cp_quest_id c \<and> quest_from_slice mp (serialized_state c) = Inr qst"
      using Cons.prems(5) st(3,4) by auto
    have "\<forall>x. cps_held mp (files_in d1 x) = set (take keep (of_quest x (cp # H)))"
      if "loss_free env" "\<forall>x. cps_held mp (files_in d x) = set (take keep (of_quest x H))"
    proof
      fix x show "cps_held mp (files_in d1 x) = set (take keep (of_quest x (cp # H)))"
        using st(3,5,6) that by (cases "x = quest_id qst") (simp_all add: of_quest_Cons)
    qed
    then show ?thesis using Cons.IH [OF run1 st(1) ok n f] by (auto simp: job)
  qed
qed

lemma start_inv: "store_inv mp keep {} Map.empty []" "cps_held mp (files_in Map.empty x) = {}"
  by (simp_all add: store_inv_def stack_ok_def dir_inv_def files_in_def of_quest_def cps_held_def)

lemma latest_of_history:
  assumes "0 < keep" "store_inv mp keep U d H" "\<not> list_fails env" "\<And>ns. mset (dir_order env ns) = mset ns"
  shows "load_latest mp env d q = Inr (case of_quest q H of [] \<Rightarrow> None | cp # _ \<Rightarrow> Some cp)"
proof (cases "d q")
  case None
  then have "set (take keep (of_quest q H)) = {}"
    using assms(2) by (auto simp: store_inv_def dir_inv_def files_in_def cps_held_def dest!: spec [of _ q])
  then have "of_quest q H = []" using assms(1) by simp
  then show ?thesis using None by (simp add: load_latest_def)
next
  case (Some fs)
  have i: "dir_inv mp keep U (of_quest q H) fs" and s: "stack_ok (of_quest q H)"
    using assms(2) Some stack_ok_of_quest by (auto simp: store_inv_def files_in_def dest!: spec [of _ q])
  note l = load_all_held(1) [OF i assms(4)]
  have sub: "cps_held mp fs \<subseteq> set (of_quest q H)" using i by (auto simp: dir_inv_def cps_held_def)
  show ?thesis
  proof (cases "of_quest q H")
    case Nil
    then have "load_all mp fs (bin_ids (dir_order env) fs) = []" using l sub by simp
    then show ?thesis using Some Nil assms(3) by (simp add: load_latest_def)
  next
    case (Cons cp rest)
    have "cp \<in> cps_held mp fs" using i Cons assms(1) by (cases keep) (auto simp: dir_inv_def)
    moreover have "created_at x < created_at cp" if "x \<in> cps_held mp fs" "x \<noteq> cp" for x
      using that sub s Cons by (auto simp: stack_ok_def)
    ultimately have "foldl later None (load_all mp fs (bin_ids (dir_order env) fs)) = Some cp"
      by (intro latest_newest) (simp_all add: l)
    then show ?thesis using Some Cons assms(3) by (simp add: load_latest_def)
  qed
qed

text \<open>A file that holds another state under the hash of the saved one is not loaded, up to a collision.\<close>

lemma altered_state_noticed:
  assumes "cp_from_slice mp bs = Inr (cp\<lparr>serialized_state := st\<rparr>)" "memory_snapshot_hash cp = sha256_hex mp (serialized_state cp)"
  shows "load_blocking mp (Some bs) = Inl CheckpointCorrupted \<or> sha256_hex mp st = sha256_hex mp (serialized_state cp)"
  using assms by (simp add: load_blocking_def)

text \<open>A file that bears no identifier of a checkpoint that loads is never removed.\<close>

lemma damaged_files_stay:
  assumes "(bin_name i, bs) \<in> set fs" "d q = Some fs" "\<And>x cp. load_blocking mp x = Inr cp \<Longrightarrow> checkpoint_id cp \<noteq> i"
  shows "\<exists>fs'. fst (prune_old mp env d q keep) q = Some fs' \<and> (bin_name i, bs) \<in> set fs'"
proof -
  have "fst p \<noteq> i"
    if "p \<in> set (drop keep (sort_key (\<lambda>p. - snd p) (map (\<lambda>cp. (checkpoint_id cp, created_at cp)) (load_all mp fs stems))))" for p stems
    using in_set_dropD [OF that] assms(3) by (force simp: load_all_def List.map_filter_def split: sum.splits)
  then show ?thesis using assms(1,2) by (force simp: prune_old_def Let_def removals)
qed

section \<open>A small history\<close>

definition demo_quest :: "byte \<Rightarrow> quest" where
  "demo_quest b =
     \<lparr>quest_id = ''q'', title = ''t'', tasks = [], thinking_mode = Standard, quest_checkpoint_id = None, priority = b\<rparr>"

definition demo_uuid :: "byte \<Rightarrow> string" where
  "demo_uuid b = (if b = 1 then ''a'' else if b = 2 then ''b'' else ''c'')"

definition demo_cp :: "byte \<Rightarrow> checkpoint" where
  "demo_cp b = checkpoint_new (uint b) ''q'' (''cp-'' @ demo_uuid b) ''h'' [b]"

definition demo_mp :: msgpack where
  "demo_mp =
     \<lparr>quest_to_vec = \<lambda>q. if q = demo_quest (priority q) then Inr [priority q] else Inl ''quest'',
      quest_from_slice = \<lambda>bs. case bs of [b] \<Rightarrow> Inr (demo_quest b) | _ \<Rightarrow> Inl ''quest'',
      cp_to_vec = \<lambda>cp. if serialized_state cp \<noteq> [] \<and> cp = demo_cp (hd (serialized_state cp)) then Inr (serialized_state cp) else Inl ''cp'',
      cp_from_slice = \<lambda>bs. case bs of [b] \<Rightarrow> Inr (demo_cp b) | _ \<Rightarrow> Inl ''cp'',
      sha256_hex = \<lambda>_. ''h'', cp_lossy = \<lambda>_. '''', cp_lowercase = \<lambda>_. ''''\<rparr>"

definition demo_cp_env :: "byte \<Rightarrow> nat \<Rightarrow> cp_env" where
  "demo_cp_env b room =
     \<lparr>now = uint b, fresh_uuid = demo_uuid b, mkdir_fails = False, disk_room = room, list_fails = False, dir_order = rev,
      remove_fails = \<lambda>_. False\<rparr>"

definition demo_saves :: "(cp_env \<times> quest) list" where
  "demo_saves = [(demo_cp_env 1 8, demo_quest 1), (demo_cp_env 2 8, demo_quest 2), (demo_cp_env 3 0, demo_quest 3)]"

lemma demo_mp_ok: "msgpack_ok demo_mp"
proof -
  have "cp_from_slice demo_mp bs = Inr cp \<and> (\<forall>k < length bs. \<exists>e. cp_from_slice demo_mp (take k bs) = Inl e)"
    if "cp_to_vec demo_mp cp = Inr bs" for cp bs
  proof -
    have a: "bs = serialized_state cp" "cp = demo_cp (hd bs)" using that by (auto simp: demo_mp_def split: if_splits)
    have "bs = [hd bs]" by (subst a(1), subst a(2)) (simp add: demo_cp_def checkpoint_new_def)
    then show ?thesis using a(2) by (cases bs) (auto simp: demo_mp_def)
  qed
  moreover have "quest_from_slice demo_mp bs = Inr q" if "quest_to_vec demo_mp q = Inr bs" for q bs
    using that by (auto simp: demo_mp_def split: if_splits)
  ultimately show ?thesis by (simp add: msgpack_ok_def)
qed

lemma demo_saves_ok: "saves_ok demo_saves" "\<forall>j \<in> set demo_saves. loss_free (fst j)"
  by (simp_all add: saves_ok_def demo_saves_def demo_cp_env_def demo_uuid_def loss_free_def)

lemma demo_not_blocked [simp]: "\<not> is_blocked (scan (\<lambda>_. []) t write_policy)"
  by (rule unmarked_not_blocked) simp

lemma demo_history: "save_all demo_mp 1 (Map.empty, []) demo_saves =
    ([''q'' \<mapsto> [(''cp-b.bin'', [2]), (''cp-c.bin'', [])]], [demo_cp 2, demo_cp 1])"
  by (simp add: demo_saves_def save_cp_def save_blocking_def demo_mp_def demo_cp_env_def demo_quest_def demo_cp_def demo_uuid_def
    checkpoint_new_def prune_old_def bin_ids_def split_at_dot_def bin_name_def load_all_def load_blocking_def Let_def AList.delete_eq)

section \<open>Properties\<close>





section \<open>A clock that goes back\<close>

text \<open>The save returns its checkpoint and has removed it again, because an older one bears a later time.\<close>

lemma save_with_earlier_clock:
  "save_cp demo_mp (demo_cp_env 1 8) [''q'' \<mapsto> [(''cp-b.bin'', [2])]] 1 (demo_quest 1) = ([''q'' \<mapsto> [(''cp-b.bin'', [2])]], Inr (demo_cp 1))"
  by (simp add: save_cp_def save_blocking_def demo_mp_def demo_cp_env_def demo_quest_def demo_cp_def demo_uuid_def
    checkpoint_new_def prune_old_def bin_ids_def split_at_dot_def bin_name_def load_all_def load_blocking_def Let_def AList.delete_eq)

end
