(* ===== verification/Quest_Engine.thy ===== *)
theory Quest_Engine
  imports Checkpoint
begin

text \<open>
  The quest engine of \<^verbatim>\<open>quest-engine/src/engine.rs\<close> with the control events of \<^verbatim>\<open>control.rs\<close>: the registry of
  quests, the tasks an intent is cut into, their states, automatic checkpoints and the restart from
  them. Strings are their UTF-8 bytes. The events the engine publishes are kept in a list; publishing never
  fails. The answers of the thinking-mode governor are arguments, where it is configured, and the
  floating-point measurements of coordination costs, which no other operation reads, are left out.
\<close>

section \<open>Cutting an intent into sentences\<close>

text \<open>The first of the given byte sequences that starts the text, cut off.\<close>

definition after_any :: "string list \<Rightarrow> string \<Rightarrow> string option" where
  "after_any pats s = map_option (\<lambda>p. drop (length p) s) (List.find (\<lambda>p. take (length p) s = p) pats)"

definition SENTENCE_ENDS :: "string list" where
  "SENTENCE_ENDS = [[CHR 0xE3, CHR 0x80, CHR 0x82], ''!'', ''?'', ''.'', [CHR 0xEF, CHR 0xBC, CHR 0x9F], [CHR 0xEF, CHR 0xBC, CHR 0x81]]"

text \<open>The characters \<^verbatim>\<open>str::trim\<close> removes: those with the Unicode property \<^verbatim>\<open>White_Space\<close>.\<close>

definition WHITE_SPACE :: "string list" where
  "WHITE_SPACE =
     [[CHR 0x09], [CHR 0x0A], [CHR 0x0B], [CHR 0x0C], [CHR 0x0D], [CHR 0x20], [CHR 0xC2, CHR 0x85], [CHR 0xC2, CHR 0xA0],
      [CHR 0xE1, CHR 0x9A, CHR 0x80], [CHR 0xE2, CHR 0x80, CHR 0x80], [CHR 0xE2, CHR 0x80, CHR 0x81],
      [CHR 0xE2, CHR 0x80, CHR 0x82], [CHR 0xE2, CHR 0x80, CHR 0x83], [CHR 0xE2, CHR 0x80, CHR 0x84],
      [CHR 0xE2, CHR 0x80, CHR 0x85], [CHR 0xE2, CHR 0x80, CHR 0x86], [CHR 0xE2, CHR 0x80, CHR 0x87],
      [CHR 0xE2, CHR 0x80, CHR 0x88], [CHR 0xE2, CHR 0x80, CHR 0x89], [CHR 0xE2, CHR 0x80, CHR 0x8A],
      [CHR 0xE2, CHR 0x80, CHR 0xA8], [CHR 0xE2, CHR 0x80, CHR 0xA9], [CHR 0xE2, CHR 0x80, CHR 0xAF],
      [CHR 0xE2, CHR 0x81, CHR 0x9F], [CHR 0xE3, CHR 0x80, CHR 0x80]]"

lemma after_any_shorter: "after_any pats s = Some r \<Longrightarrow> \<forall>p \<in> set pats. p \<noteq> [] \<Longrightarrow> s \<noteq> [] \<Longrightarrow> length r < length s"
  by (auto simp: after_any_def find_Some_iff)

lemma ends_nonempty: "\<forall>p \<in> set SENTENCE_ENDS. p \<noteq> []" "\<forall>p \<in> set WHITE_SPACE. p \<noteq> []" "\<forall>p \<in> set (map rev WHITE_SPACE). p \<noteq> []"
  by (simp_all add: SENTENCE_ENDS_def WHITE_SPACE_def)

text \<open>\<open>word\<close> is the part read so far, backwards.\<close>

function split_text :: "string \<Rightarrow> string \<Rightarrow> string list" where
  "split_text word [] = [rev word]"
| "split_text word (c # cs) =
     (case after_any SENTENCE_ENDS (c # cs) of
        Some rest \<Rightarrow> rev word # split_text [] rest
      | None \<Rightarrow> split_text (c # word) cs)"
  by pat_completeness auto
termination
  by (relation "measure (\<lambda>(_, s). length s)") (auto dest: after_any_shorter [OF _ ends_nonempty(1)])

function strip_any :: "string list \<Rightarrow> string \<Rightarrow> string" where
  "strip_any pats s =
     (if s = [] \<or> \<not> (\<forall>p \<in> set pats. p \<noteq> []) then s
      else case after_any pats s of Some rest \<Rightarrow> strip_any pats rest | None \<Rightarrow> s)"
  by pat_completeness auto
termination
  by (relation "measure (\<lambda>(_, s). length s)") (auto dest: after_any_shorter)

declare strip_any.simps [simp del]

definition trim :: "string \<Rightarrow> string" where
  "trim s = rev (strip_any (map rev WHITE_SPACE) (rev (strip_any WHITE_SPACE s)))"

definition split_sentences :: "string \<Rightarrow> string list" where
  "split_sentences text_in = filter (\<lambda>s. s \<noteq> []) (map trim (split_text [] text_in))"

definition continuation :: "char \<Rightarrow> bool" where
  "continuation c = ((of_char c :: nat) div 64 = 2)"

fun take_chars :: "nat \<Rightarrow> string \<Rightarrow> string" where
  "take_chars n [] = []"
| "take_chars n (c # cs) =
     (if continuation c then c # take_chars n cs
      else case n of 0 \<Rightarrow> [] | Suc m \<Rightarrow> c # take_chars m cs)"

definition extract_title :: "string \<Rightarrow> string" where
  "extract_title raw_text =
     (let first_sentence = trim (hd (split_text [] raw_text))
      in if length first_sentence \<le> 50 then first_sentence else take_chars 50 first_sentence)"

fun decimal :: "nat \<Rightarrow> string" where
  "decimal n = (if n < 10 then [char_of (48 + n)] else decimal (n div 10) @ [char_of (48 + n mod 10)])"

declare decimal.simps [simp del]

definition hex_digit :: "nat \<Rightarrow> char" where
  "hex_digit n = (if n < 10 then char_of (48 + n) else char_of (87 + n))"

definition simple_hash :: "string \<Rightarrow> string" where
  "simple_hash input =
     (let hash = foldl (\<lambda>hash b. xor hash (ucast (b :: byte)) * 0x100000001b3) (0xcbf29ce484222325 :: u64) (str_bytes input)
      in map (\<lambda>i. hex_digit (unat hash div 16 ^ i mod 16)) (rev [0..<16]))"

section \<open>State\<close>

record quest_config =
  max_tasks_per_quest :: u32
  checkpoint_interval :: u32

definition quest_config_default :: quest_config where
  "quest_config_default = \<lparr>max_tasks_per_quest = 16, checkpoint_interval = 3\<rparr>"

text \<open>Those of the events of the bus that the engine publishes, and below those it reacts to.\<close>

datatype quest_event =
    QuestCreated string string u32
  | QuestProgressUpdated string u32 u32
  | CheckpointSaved string string string
  | CheckpointLoaded string string
  | ExecutionCompleted string string
  | ThinkingModeSwitched string thinking_mode thinking_mode string
  | QuestPaused string string
  | QuestResumed string string
  | QuestCancelled string string
  | QuestPriorityAdjusted string "8 word" string

datatype control_event =
    QuestPauseRequested string string
  | QuestResumeRequested string string
  | QuestCancelRequested string string
  | QuestPriorityChanged string "8 word" string
  | StopRulingIssued string string bool
  | OtherEvent

record quest_engine =
  quests :: "string \<rightharpoonup> quest"
  paused_quests :: "string set"
  engine_config :: quest_config
  checkpoint_manager :: "nat option"
  cp_store :: checkpoint_dir
  emitted :: "quest_event list"
  autosave_warnings :: nat

definition engine_new :: "quest_config \<Rightarrow> nat option \<Rightarrow> checkpoint_dir \<Rightarrow> quest_engine" where
  "engine_new cfg manager d =
     \<lparr>quests = Map.empty, paused_quests = {}, engine_config = cfg, checkpoint_manager = manager, cp_store = d,
      emitted = [], autosave_warnings = 0\<rparr>"

definition publish_event :: "quest_event \<Rightarrow> quest_engine \<Rightarrow> quest_engine" where
  "publish_event ev e = e\<lparr>emitted := emitted e @ [ev]\<rparr>"

section \<open>Creating quests\<close>

definition task_name :: "nat \<Rightarrow> string" where
  "task_name i = ''task-'' @ decimal i"

definition decompose :: "quest_config \<Rightarrow> string \<Rightarrow> task list" where
  "decompose cfg raw_text =
     (let sentences = take (unat (max_tasks_per_quest cfg)) (split_sentences raw_text)
      in if sentences = []
         then [\<lparr>task_id = ''task-0'', description = raw_text, status = TaskPending, dependencies = []\<rparr>]
         else map (\<lambda>(idx, s). \<lparr>task_id = task_name idx, description = s, status = TaskPending,
                dependencies = (if idx = 0 then [] else [task_name (idx - 1)])\<rparr>) (enumerate 0 sentences))"

text \<open>\<open>ttg\<close> is the mode a configured governor chose, if it chose one.\<close>

definition create_quest ::
  "quest_engine \<Rightarrow> string \<Rightarrow> string \<Rightarrow> thinking_mode option \<Rightarrow> quest_engine \<times> (quest_error, quest) result" where
  "create_quest e raw_text uuid ttg =
     (let ts = decompose (engine_config e) raw_text
      in case validate_dag ts of
           Some (Inr _) \<Rightarrow>
             (let q = ''quest-'' @ uuid;
                  qst = \<lparr>quest_id = q, title = extract_title raw_text, tasks = ts,
                    thinking_mode = (case ttg of Some m \<Rightarrow> m | None \<Rightarrow> Standard), quest_checkpoint_id = None, priority = 128\<rparr>
              in (publish_event (QuestCreated q (title qst) (of_nat (length ts))) (e\<lparr>quests := (quests e)(q \<mapsto> qst)\<rparr>), Inr qst))
         | Some (Inl err) \<Rightarrow> (e, Inl err)
         | None \<Rightarrow> (e, Inl CyclicDependency))"

section \<open>Checkpoints\<close>

definition save_checkpoint ::
  "msgpack \<Rightarrow> cp_env \<Rightarrow> quest_engine \<Rightarrow> string \<Rightarrow> quest_engine \<times> (quest_error, checkpoint) result" where
  "save_checkpoint mp env e q =
     (case checkpoint_manager e of
        None \<Rightarrow> (e, Inl (CheckpointSaveFailed ''checkpoints disabled''))
      | Some max_keep \<Rightarrow>
          (case quests e q of
             None \<Rightarrow> (e, Inl (QuestNotFound q))
           | Some qst \<Rightarrow>
               (case save_cp mp env (cp_store e) max_keep qst of
                  (d, Inl err) \<Rightarrow> (e\<lparr>cp_store := d\<rparr>, Inl err)
                | (d, Inr cp) \<Rightarrow>
                    (publish_event (CheckpointSaved q (checkpoint_id cp) (memory_snapshot_hash cp)) (e\<lparr>cp_store := d\<rparr>), Inr cp))))"

definition restore_from_checkpoint ::
  "msgpack \<Rightarrow> cp_env \<Rightarrow> quest_engine \<Rightarrow> string \<Rightarrow> quest_engine \<times> (quest_error, quest) result" where
  "restore_from_checkpoint mp env e q =
     (case checkpoint_manager e of
        None \<Rightarrow> (e, Inl (CheckpointNotFound ''checkpoints disabled''))
      | Some _ \<Rightarrow>
          (case load_latest mp env (cp_store e) q of
             Inl err \<Rightarrow> (e, Inl err)
           | Inr None \<Rightarrow> (e, Inl (CheckpointNotFound ''no checkpoint''))
           | Inr (Some cp) \<Rightarrow>
               (case quest_from_slice mp (serialized_state cp) of
                  Inl err \<Rightarrow> (e, Inl (SerializationError err))
                | Inr qst \<Rightarrow>
                    (publish_event (CheckpointLoaded q (checkpoint_id cp)) (e\<lparr>quests := (quests e)(q \<mapsto> qst)\<rparr>), Inr qst))))"

section \<open>Tasks\<close>

definition is_valid_transition :: "task_status \<Rightarrow> task_status \<Rightarrow> bool" where
  "is_valid_transition s t \<longleftrightarrow>
     (s, t) \<in> set [(TaskPending, TaskRunning), (TaskRunning, TaskCompleted), (TaskRunning, TaskFailed), (TaskPending, TaskPending),
       (TaskRunning, TaskRunning), (TaskCompleted, TaskCompleted), (TaskFailed, TaskFailed)]"

fun set_status :: "string \<Rightarrow> task_status \<Rightarrow> task list \<Rightarrow> task list" where
  "set_status i st [] = []"
| "set_status i st (t # ts) = (if task_id t = i then t\<lparr>status := st\<rparr> # ts else t # set_status i st ts)"

definition completed_tasks :: "task list \<Rightarrow> nat" where
  "completed_tasks ts = length (filter (\<lambda>t. status t = TaskCompleted) ts)"

definition all_terminal :: "task list \<Rightarrow> bool" where
  "all_terminal ts = list_all (\<lambda>t. status t = TaskCompleted \<or> status t = TaskFailed) ts"

definition complete_quest :: "quest_engine \<Rightarrow> string \<Rightarrow> quest_engine" where
  "complete_quest e q = publish_event (ExecutionCompleted q (simple_hash q)) e"

text \<open>A failed automatic save is logged as a warning.\<close>

definition auto_checkpoint :: "msgpack \<Rightarrow> cp_env \<Rightarrow> quest_engine \<Rightarrow> string \<Rightarrow> quest_engine" where
  "auto_checkpoint mp env e q =
     (case save_checkpoint mp env e q of
        (e', Inl _) \<Rightarrow> e'\<lparr>autosave_warnings := autosave_warnings e' + 1\<rparr>
      | (e', Inr _) \<Rightarrow> e')"

definition update_task_status ::
  "msgpack \<Rightarrow> cp_env \<Rightarrow> quest_engine \<Rightarrow> string \<Rightarrow> string \<Rightarrow> task_status \<Rightarrow> quest_engine \<times> (quest_error, unit) result" where
  "update_task_status mp env e q i st =
     (case quests e q of
        None \<Rightarrow> (e, Inl (QuestNotFound q))
      | Some qst \<Rightarrow>
          (case List.find (\<lambda>t. task_id t = i) (tasks qst) of
             None \<Rightarrow> (e, Inl (TaskNotFound i))
           | Some t \<Rightarrow>
               if \<not> is_valid_transition (status t) st then (e, Inl (InvalidStatus ''transition''))
               else (let ts = set_status i st (tasks qst);
                         total = of_nat (length ts) :: u32;
                         completed = of_nat (completed_tasks ts) :: u32;
                         e = e\<lparr>quests := (quests e)(q \<mapsto> qst\<lparr>tasks := ts\<rparr>)\<rparr>;
                         e = publish_event (QuestProgressUpdated q completed total) e;
                         interval = checkpoint_interval (engine_config e);
                         e = (if st = TaskCompleted \<and> 0 < interval \<and> 0 < completed \<and> completed mod interval = 0
                              then auto_checkpoint mp env e q else e);
                         e = (if all_terminal ts then complete_quest e q else e)
                     in (e, Inr ()))))"

section \<open>Thinking mode\<close>

definition apply_thinking_mode :: "quest_engine \<Rightarrow> string \<Rightarrow> thinking_mode \<Rightarrow> quest_engine \<times> (quest_error, unit) result" where
  "apply_thinking_mode e q m =
     (case quests e q of
        None \<Rightarrow> (e, Inl (QuestNotFound q))
      | Some qst \<Rightarrow> (e\<lparr>quests := (quests e)(q \<mapsto> qst\<lparr>thinking_mode := m\<rparr>)\<rparr>, Inr ()))"

text \<open>\<open>gov\<close> is the answer of a configured governor.\<close>

definition switch_thinking_mode ::
  "quest_engine \<Rightarrow> string \<Rightarrow> thinking_mode \<Rightarrow> (quest_error, thinking_mode) result option \<Rightarrow> quest_engine \<times> (quest_error, unit) result" where
  "switch_thinking_mode e q new_mode gov =
     (case gov of
        Some (Inl err) \<Rightarrow> (e, Inl err)
      | Some (Inr m) \<Rightarrow> apply_thinking_mode e q m
      | None \<Rightarrow>
          (case quests e q of
             None \<Rightarrow> (e, Inl (QuestNotFound q))
           | Some qst \<Rightarrow>
               if thinking_mode qst = new_mode then (e, Inr ())
               else (publish_event (ThinkingModeSwitched q (thinking_mode qst) new_mode ''manual_switch'')
                       (e\<lparr>quests := (quests e)(q \<mapsto> qst\<lparr>thinking_mode := new_mode\<rparr>)\<rparr>), Inr ())))"

definition ttg_auto_select ::
  "quest_engine \<Rightarrow> string \<Rightarrow> (quest_error, thinking_mode option) result option \<Rightarrow> quest_engine \<times> (quest_error, thinking_mode) result" where
  "ttg_auto_select e q gov =
     (case quests e q of
        None \<Rightarrow> (e, Inl (QuestNotFound q))
      | Some qst \<Rightarrow>
          (case gov of
             None \<Rightarrow> (e, Inr (thinking_mode qst))
           | Some (Inl err) \<Rightarrow> (e, Inl err)
           | Some (Inr None) \<Rightarrow> (e, Inr (thinking_mode qst))
           | Some (Inr (Some m)) \<Rightarrow>
               (case apply_thinking_mode e q m of (e', Inl err) \<Rightarrow> (e', Inl err) | (e', Inr _) \<Rightarrow> (e', Inr m))))"

definition ttg_on_budget_adjusted ::
  "quest_engine \<Rightarrow> string \<Rightarrow> (quest_error, thinking_mode option) result option \<Rightarrow> quest_engine \<times> (quest_error, unit) result" where
  "ttg_on_budget_adjusted e q gov =
     (case quests e q of
        None \<Rightarrow> (e, Inr ())
      | Some _ \<Rightarrow>
          (case gov of
             None \<Rightarrow> (e, Inr ())
           | Some (Inl err) \<Rightarrow> (e, Inl err)
           | Some (Inr None) \<Rightarrow> (e, Inr ())
           | Some (Inr (Some m)) \<Rightarrow> apply_thinking_mode e q m))"

section \<open>Control\<close>

definition pause_quest :: "quest_engine \<Rightarrow> string \<Rightarrow> string \<Rightarrow> quest_engine \<times> (quest_error, unit) result" where
  "pause_quest e q requested_by =
     (if quests e q = None then (e, Inl (QuestNotFound q))
      else (publish_event (QuestPaused q requested_by) (e\<lparr>paused_quests := insert q (paused_quests e)\<rparr>), Inr ()))"

definition resume_quest :: "quest_engine \<Rightarrow> string \<Rightarrow> string \<Rightarrow> quest_engine \<times> (quest_error, unit) result" where
  "resume_quest e q requested_by =
     (if quests e q = None then (e, Inl (QuestNotFound q))
      else (publish_event (QuestResumed q requested_by) (e\<lparr>paused_quests := paused_quests e - {q}\<rparr>), Inr ()))"

definition cancel_quest :: "quest_engine \<Rightarrow> string \<Rightarrow> string \<Rightarrow> quest_engine \<times> (quest_error, unit) result" where
  "cancel_quest e q requested_by =
     (if quests e q = None then (e, Inr ())
      else (publish_event (QuestCancelled q requested_by)
              (e\<lparr>quests := (quests e)(q := None), paused_quests := paused_quests e - {q}\<rparr>), Inr ()))"

definition adjust_priority :: "quest_engine \<Rightarrow> string \<Rightarrow> 8 word \<Rightarrow> string \<Rightarrow> quest_engine \<times> (quest_error, unit) result" where
  "adjust_priority e q new_priority requested_by =
     (case quests e q of
        None \<Rightarrow> (e, Inl (QuestNotFound q))
      | Some qst \<Rightarrow>
          (publish_event (QuestPriorityAdjusted q new_priority requested_by)
             (e\<lparr>quests := (quests e)(q \<mapsto> qst\<lparr>priority := new_priority\<rparr>)\<rparr>), Inr ()))"

definition is_paused :: "quest_engine \<Rightarrow> string \<Rightarrow> bool" where
  "is_paused e q = (q \<in> paused_quests e)"

fun handle_control_event :: "quest_engine \<Rightarrow> control_event \<Rightarrow> quest_engine \<times> (quest_error, unit) result" where
  "handle_control_event e (QuestPauseRequested q requested_by) = pause_quest e q requested_by"
| "handle_control_event e (QuestResumeRequested q requested_by) = resume_quest e q requested_by"
| "handle_control_event e (QuestCancelRequested q requested_by) = cancel_quest e q requested_by"
| "handle_control_event e (QuestPriorityChanged q p requested_by) = adjust_priority e q p requested_by"
| "handle_control_event e (StopRulingIssued q reason preserve_best) = cancel_quest e q ''stop_ruling''"
| "handle_control_event e OtherEvent = (e, Inr ())"

section \<open>Runs\<close>

datatype engine_op =
    CreateQuest string string "thinking_mode option"
  | UpdateTask cp_env string string task_status
  | CompleteQuest string
  | SwitchMode string thinking_mode "(quest_error, thinking_mode) result option"
  | AutoSelect string "(quest_error, thinking_mode option) result option"
  | BudgetAdjusted string "(quest_error, thinking_mode option) result option"
  | SaveCheckpoint cp_env string
  | RestoreCheckpoint cp_env string
  | Control control_event
  | Restart

text \<open>A restart of the process leaves the files.\<close>

fun engine_step :: "msgpack \<Rightarrow> quest_engine \<Rightarrow> engine_op \<Rightarrow> quest_engine" where
  "engine_step mp e (CreateQuest raw_text uuid ttg) = fst (create_quest e raw_text uuid ttg)"
| "engine_step mp e (UpdateTask env q i st) = fst (update_task_status mp env e q i st)"
| "engine_step mp e (CompleteQuest q) = complete_quest e q"
| "engine_step mp e (SwitchMode q m gov) = fst (switch_thinking_mode e q m gov)"
| "engine_step mp e (AutoSelect q gov) = fst (ttg_auto_select e q gov)"
| "engine_step mp e (BudgetAdjusted q gov) = fst (ttg_on_budget_adjusted e q gov)"
| "engine_step mp e (SaveCheckpoint env q) = fst (save_checkpoint mp env e q)"
| "engine_step mp e (RestoreCheckpoint env q) = fst (restore_from_checkpoint mp env e q)"
| "engine_step mp e (Control ev) = fst (handle_control_event e ev)"
| "engine_step mp e Restart = e\<lparr>quests := Map.empty, paused_quests := {}\<rparr>"

section \<open>Well-formed quests\<close>

definition chain :: "task list \<Rightarrow> bool" where
  "chain ts \<longleftrightarrow> (\<forall>i < length ts. task_id (ts ! i) = task_name i \<and>
     dependencies (ts ! i) = (if i = 0 then [] else [task_name (i - 1)]))"

definition task_limit :: "quest_config \<Rightarrow> nat" where
  "task_limit cfg = max 1 (unat (max_tasks_per_quest cfg))"

definition quest_ok :: "quest_config \<Rightarrow> string \<Rightarrow> quest \<Rightarrow> bool" where
  "quest_ok cfg q qst \<longleftrightarrow> quest_id qst = q \<and> chain (tasks qst) \<and> tasks qst \<noteq> [] \<and> length (tasks qst) \<le> task_limit cfg \<and>
     (\<forall>t \<in> set (tasks qst). status t \<in> {TaskPending, TaskRunning, TaskCompleted, TaskFailed})"

fun read_decimal :: "nat \<Rightarrow> string \<Rightarrow> nat" where
  "read_decimal a [] = a"
| "read_decimal a (c # cs) = read_decimal (10 * a + (of_char c - 48)) cs"

lemma read_decimal_append: "read_decimal a (xs @ ys) = read_decimal (read_decimal a xs) ys"
  by (induction xs arbitrary: a) simp_all

lemma digit_value: "n < 10 \<Longrightarrow> (of_char (char_of (48 + n) :: char) :: nat) = 48 + n"
  by (simp only: of_char_of) simp

lemma read_back: "read_decimal 0 (decimal n) = n"
proof (induction n rule: decimal.induct)
  case (1 n)
  show ?case
  proof (cases "n < 10")
    case True
    then show ?thesis using digit_value [OF True] by (simp add: decimal.simps [of n])
  next
    case False
    have "read_decimal 0 (decimal n) = read_decimal (n div 10) [char_of (48 + n mod 10)]"
      by (subst decimal.simps) (simp only: read_decimal_append if_False False 1 [OF False])
    also have "\<dots> = 10 * (n div 10) + n mod 10" using digit_value [of "n mod 10"] by simp
    finally show ?thesis by simp
  qed
qed

lemma task_name_inj [simp]: "task_name i = task_name j \<longleftrightarrow> i = j"
  by (metis read_back same_append_eq task_name_def)

lemma chain_accepted:
  assumes "chain ts"
  shows "validate_dag ts = Some (Inr ())"
proof (rule validate_accepts)
  have at: "task_id (ts ! i) = task_name i" "dependencies (ts ! i) = (if i = 0 then [] else [task_name (i - 1)])" if "i < length ts" for i
    using assms that by (auto simp: chain_def)
  show "distinct (map task_id ts)" by (auto simp: distinct_conv_nth at)
  show "no_dangling ts" unfolding no_dangling_def
  proof
    fix t assume "t \<in> set ts"
    then obtain i where i: "i < length ts" "t = ts ! i" by (auto simp: in_set_conv_nth)
    then have "ts ! (i - 1) \<in> set ts" "task_id (ts ! (i - 1)) = task_name (i - 1)" using at(1) [of "i - 1"] by simp_all
    then have "task_name (i - 1) \<in> ids ts" unfolding ids_def by (metis image_eqI set_map)
    then show "set (dependencies t) \<subseteq> ids ts" using i by (simp add: at)
  qed
  have edge: "\<exists>k. d = task_name k \<and> i = task_name (Suc k)" if e: "(d, i) \<in> dep_rel ts" for d i
  proof -
    obtain t where t: "t \<in> set ts" "task_id t = i" "d \<in> set (dependencies t)" using e by (auto simp: dep_rel_def deps_of_def)
    then obtain n where "n < length ts" "t = ts ! n" by (auto simp: in_set_conv_nth)
    then show ?thesis using t at [of n] by (cases n) auto
  qed
  have "\<exists>j k. a = task_name j \<and> b = task_name k \<and> j < k" if "(a, b) \<in> (dep_rel ts)\<^sup>+" for a b
    using that
  proof (induction rule: trancl_induct)
    case (base y)
    then show ?case using edge [OF base] by auto
  next
    case (step y z)
    then show ?case using edge [OF step(2)] by fastforce
  qed
  then show "acyclic (dep_rel ts)" by (fastforce simp: acyclic_def)
qed

lemma task_zero: "''task-0'' = task_name 0"
proof -
  have "char_of (48 :: nat) = CHR ''0''" by code_simp
  then show ?thesis by (simp add: task_name_def decimal.simps)
qed

lemma enumerate_Nil [simp]: "enumerate n xs = [] \<longleftrightarrow> xs = []"
  by (cases xs) simp_all

lemma decompose_ok:
  "chain (decompose cfg s) \<and> decompose cfg s \<noteq> [] \<and> length (decompose cfg s) \<le> task_limit cfg \<and>
   (\<forall>t \<in> set (decompose cfg s). status t = TaskPending)"
  by (auto simp: decompose_def Let_def chain_def task_limit_def task_zero nth_enumerate_eq in_set_enumerate_eq)

lemma set_status_map:
  "distinct (map task_id ts) \<Longrightarrow> set_status i st ts = map (\<lambda>t. if task_id t = i then t\<lparr>status := st\<rparr> else t) ts"
proof (induction ts)
  case (Cons t ts)
  have "map (\<lambda>t. if task_id t = i then t\<lparr>status := st\<rparr> else t) ts = ts" if "i \<notin> task_id ` set ts"
    using that by (auto intro!: map_idI)
  then show ?case using Cons by auto
qed simp

lemma set_status_nth:
  "length (set_status i st ts) = length ts"
  "n < length ts \<Longrightarrow> task_id (set_status i st ts ! n) = task_id (ts ! n) \<and>
     dependencies (set_status i st ts ! n) = dependencies (ts ! n) \<and> description (set_status i st ts ! n) = description (ts ! n)"
  "t \<in> set (set_status i st ts) \<Longrightarrow> status t = st \<or> t \<in> set ts"
proof -
  show "length (set_status i st ts) = length ts" by (induction ts) auto
  show "n < length ts \<Longrightarrow> task_id (set_status i st ts ! n) = task_id (ts ! n) \<and>
     dependencies (set_status i st ts ! n) = dependencies (ts ! n) \<and> description (set_status i st ts ! n) = description (ts ! n)"
    by (induction ts arbitrary: n) (auto simp: nth_Cons split: nat.splits)
  show "t \<in> set (set_status i st ts) \<Longrightarrow> status t = st \<or> t \<in> set ts" by (induction ts) (auto split: if_splits)
qed

lemma chain_set_status: "chain ts \<Longrightarrow> chain (set_status i st ts)"
  by (simp add: chain_def set_status_nth)

section \<open>The engine keeps quests well-formed\<close>

definition disk_ok :: "msgpack \<Rightarrow> quest_config \<Rightarrow> checkpoint_dir \<Rightarrow> bool" where
  "disk_ok mp cfg d \<longleftrightarrow>
     (\<forall>x. \<forall>cp \<in> cps_held mp (files_in d x). \<exists>qst. quest_from_slice mp (serialized_state cp) = Inr qst \<and> quest_ok cfg x qst)"

definition engine_ok :: "msgpack \<Rightarrow> quest_config \<Rightarrow> quest_engine \<Rightarrow> bool" where
  "engine_ok mp cfg e \<longleftrightarrow> engine_config e = cfg \<and> (\<forall>q qst. quests e q = Some qst \<longrightarrow> quest_ok cfg q qst) \<and> disk_ok mp cfg (cp_store e)"

named_theorems engine_defs

lemmas [engine_defs] = publish_event_def complete_quest_def apply_thinking_mode_def pause_quest_def resume_quest_def
  cancel_quest_def adjust_priority_def switch_thinking_mode_def ttg_auto_select_def ttg_on_budget_adjusted_def

lemma publish_fields [simp]:
  "quests (publish_event ev e) = quests e" "cp_store (publish_event ev e) = cp_store e"
  "engine_config (publish_event ev e) = engine_config e" "emitted (publish_event ev e) = emitted e @ [ev]"
  "checkpoint_manager (publish_event ev e) = checkpoint_manager e" "autosave_warnings (publish_event ev e) = autosave_warnings e"
  by (simp_all add: publish_event_def)

lemma complete_fields [simp]:
  "quests (complete_quest e q) = quests e" "cp_store (complete_quest e q) = cp_store e"
  "engine_config (complete_quest e q) = engine_config e"
  "checkpoint_manager (complete_quest e q) = checkpoint_manager e" "autosave_warnings (complete_quest e q) = autosave_warnings e"
  by (simp_all add: complete_quest_def)

lemma engine_ok_frame:
  "engine_config e' = engine_config e \<Longrightarrow> quests e' = quests e \<Longrightarrow> cp_store e' = cp_store e \<Longrightarrow> engine_ok mp cfg e' = engine_ok mp cfg e"
  by (simp add: engine_ok_def)

lemma engine_ok_quest:
  "engine_ok mp cfg e \<Longrightarrow> quest_ok cfg q qst \<Longrightarrow> engine_ok mp cfg (e\<lparr>quests := (quests e)(q \<mapsto> qst)\<rparr>)"
  by (simp add: engine_ok_def)

lemma quest_ok_mode [simp]: "quest_ok cfg q (qst\<lparr>thinking_mode := m\<rparr>) = quest_ok cfg q qst" "quest_ok cfg q (qst\<lparr>priority := p\<rparr>) = quest_ok cfg q qst"
  by (simp_all add: quest_ok_def)

lemma quest_ok_status:
  assumes "quest_ok cfg q qst" "List.find (\<lambda>t. task_id t = i) (tasks qst) = Some t" "is_valid_transition (status t) st"
  shows "quest_ok cfg q (qst\<lparr>tasks := set_status i st (tasks qst)\<rparr>)"
proof -
  have "set_status i st (tasks qst) \<noteq> []" using assms(1) set_status_nth(1) [of i st "tasks qst"] by (auto simp: quest_ok_def)
  moreover have "st \<in> {TaskPending, TaskRunning, TaskCompleted, TaskFailed}" using assms(3) by (auto simp: is_valid_transition_def)
  ultimately show ?thesis using assms(1) set_status_nth(3) by (fastforce simp: quest_ok_def chain_set_status set_status_nth(1))
qed

lemma save_checkpoint_ok:
  assumes "msgpack_ok mp" "engine_ok mp cfg e"
  shows "engine_ok mp cfg (fst (save_checkpoint mp env e q)) \<and> quests (fst (save_checkpoint mp env e q)) = quests e"
proof (cases "checkpoint_manager e = None \<or> quests e q = None")
  case True
  then show ?thesis using assms(2) by (auto simp: save_checkpoint_def split: option.split)
next
  case False
  then obtain k qst where k: "checkpoint_manager e = Some k" "quests e q = Some qst" by auto
  obtain d r where s: "save_cp mp env (cp_store e) k qst = (d, r)" by force
  have "quest_ok cfg (quest_id qst) qst" using assms(2) k(2) by (auto simp: engine_ok_def quest_ok_def)
  then have "disk_ok mp cfg d"
    using assms(2) saved_held [OF assms(1), of _ env "cp_store e" k qst] s
    unfolding disk_ok_def engine_ok_def by (metis fst_conv)
  then show ?thesis using assms(2) k s by (cases r) (simp_all add: save_checkpoint_def engine_ok_def)
qed

lemma auto_checkpoint_ok:
  assumes "msgpack_ok mp" "engine_ok mp cfg e"
  shows "engine_ok mp cfg (auto_checkpoint mp env e q) \<and> quests (auto_checkpoint mp env e q) = quests e"
  using save_checkpoint_ok [OF assms, of env q]
  by (cases "save_checkpoint mp env e q", cases "snd (save_checkpoint mp env e q)") (auto simp: auto_checkpoint_def engine_ok_def)

lemma restore_ok:
  assumes "engine_ok mp cfg e"
  shows "engine_ok mp cfg (fst (restore_from_checkpoint mp env e q))"
proof -
  have "quest_ok cfg q qst"
    if "load_latest mp env (cp_store e) q = Inr (Some cp)" "quest_from_slice mp (serialized_state cp) = Inr qst" for cp qst
    using assms latest_held [OF that(1)] that(2) by (fastforce simp: engine_ok_def disk_ok_def)
  then show ?thesis using assms
    by (auto simp: restore_from_checkpoint_def engine_ok_frame [OF publish_fields(3) publish_fields(1) publish_fields(2)] engine_ok_quest
        split: option.split sum.split)
qed

text \<open>An update that passes its checks, step by step.\<close>

lemma update_cases:
  obtains r where "update_task_status mp env e q i st = (e, Inl r)"
  | qst t ts e1 e2 where "quests e q = Some qst" "List.find (\<lambda>t. task_id t = i) (tasks qst) = Some t" "is_valid_transition (status t) st"
      "ts = set_status i st (tasks qst)"
      "e1 = publish_event (QuestProgressUpdated q (of_nat (completed_tasks ts)) (of_nat (length ts))) (e\<lparr>quests := (quests e)(q \<mapsto> qst\<lparr>tasks := ts\<rparr>)\<rparr>)"
      "e2 = (if st = TaskCompleted \<and> 0 < checkpoint_interval (engine_config e) \<and> 0 < (of_nat (completed_tasks ts) :: u32) \<and>
          of_nat (completed_tasks ts) mod checkpoint_interval (engine_config e) = 0 then auto_checkpoint mp env e1 q else e1)"
      "update_task_status mp env e q i st = (if all_terminal ts then complete_quest e2 q else e2, Inr ())"
proof (cases "quests e q")
  case None
  then show thesis using that(1) by (simp add: update_task_status_def)
next
  case (Some qst)
  show thesis
  proof (cases "List.find (\<lambda>t. task_id t = i) (tasks qst)")
    case None
    then show thesis using that(1) Some by (simp add: update_task_status_def)
  next
    case t: (Some t)
    show thesis
    proof (cases "is_valid_transition (status t) st")
      case False
      then show thesis using that(1) Some t by (simp add: update_task_status_def)
    next
      case True
      show thesis by (rule that(2) [OF Some t True refl refl refl]) (simp add: update_task_status_def Some t True Let_def)
    qed
  qed
qed

lemma update_ok:
  assumes "msgpack_ok mp" "engine_ok mp cfg e"
  shows "engine_ok mp cfg (fst (update_task_status mp env e q i st))"
proof (cases rule: update_cases [of mp env e q i st])
  case (2 qst t ts e1 e2)
  have "quest_ok cfg q qst" using assms(2) 2(1) by (simp add: engine_ok_def)
  then have "engine_ok mp cfg e1"
    using engine_ok_quest [OF assms(2)] quest_ok_status [OF _ 2(2,3)] 2(4,5) by (simp add: engine_ok_def)
  then have "engine_ok mp cfg e2" using auto_checkpoint_ok [OF assms(1)] 2(6) by simp
  then show ?thesis using 2(7) by (simp add: engine_ok_def)
qed (use assms in simp)

lemma create_ok:
  assumes "engine_ok mp cfg e"
  shows "engine_ok mp cfg (fst (create_quest e s uuid ttg)) \<and> is_Ok (snd (create_quest e s uuid ttg))"
proof -
  have "engine_config e = cfg" using assms by (simp add: engine_ok_def)
  then show ?thesis
    using assms decompose_ok [of cfg s] chain_accepted [of "decompose cfg s"]
    by (auto simp: create_quest_def Let_def engine_ok_def quest_ok_def)
qed

lemma engine_ok_step:
  assumes "msgpack_ok mp" "engine_ok mp cfg e"
  shows "engine_ok mp cfg (engine_step mp e op)"
proof (cases op)
  case (Control ev)
  then show ?thesis using assms(2) by (cases ev) (auto simp: engine_defs engine_ok_def split: option.split)
next
  case (CreateQuest s u ttg)
  then show ?thesis using create_ok [OF assms(2)] by simp
next
  case (UpdateTask env q i st)
  then show ?thesis using update_ok [OF assms] by simp
next
  case (SaveCheckpoint env q)
  then show ?thesis using save_checkpoint_ok [OF assms] by simp
next
  case (RestoreCheckpoint env q)
  then show ?thesis using restore_ok [OF assms(2)] by simp
next
  case (SwitchMode q m gov)
  then show ?thesis using assms(2) by (auto simp: engine_defs engine_ok_def split: option.split sum.split)
next
  case (AutoSelect q gov)
  then show ?thesis using assms(2) by (auto simp: engine_defs engine_ok_def split: option.split sum.split)
next
  case (BudgetAdjusted q gov)
  then show ?thesis using assms(2) by (auto simp: engine_defs engine_ok_def split: option.split sum.split)
qed (use assms(2) in \<open>simp_all add: engine_ok_def\<close>)

interpretation engine_system: invariant_system "\<lambda>e. msgpack_ok mp \<and> (\<exists>m. e = engine_new cfg m Map.empty)"
  "\<lambda>e t. \<exists>op. t = engine_step mp e op" "\<lambda>e. msgpack_ok mp \<and> engine_ok mp cfg e" for mp cfg
proof unfold_locales
  fix e assume "msgpack_ok mp \<and> (\<exists>m. e = engine_new cfg m Map.empty)"
  then show "msgpack_ok mp \<and> engine_ok mp cfg e"
    by (auto simp: engine_ok_def engine_new_def disk_ok_def start_inv(2))
qed (auto intro: engine_ok_step)

lemma engine_run_steps: "(\<lambda>e t. \<exists>op. t = engine_step mp e op)\<^sup>*\<^sup>* e (foldl (engine_step mp) e ops)"
proof (induction ops arbitrary: e)
  case (Cons op ops)
  then show ?case by (metis (mono_tags, lifting) converse_rtranclp_into_rtranclp foldl_Cons)
qed simp

lemma engine_run_ok:
  "msgpack_ok mp \<Longrightarrow> engine_ok mp cfg (foldl (engine_step mp) (engine_new cfg m Map.empty) ops)"
  using engine_system.inv_reachable [OF _ engine_run_steps, of mp "engine_new cfg m Map.empty" cfg] by blast

section \<open>Tasks move forward\<close>

fun forward :: "task_status \<Rightarrow> task_status \<Rightarrow> bool" where
  "forward TaskPending t = (t \<in> set [TaskPending, TaskRunning, TaskCompleted, TaskFailed])"
| "forward TaskRunning t = (t \<in> set [TaskRunning, TaskCompleted, TaskFailed])"
| "forward s t = (s = t)"

definition advanced :: "task list \<Rightarrow> task list \<Rightarrow> bool" where
  "advanced ts ts' \<longleftrightarrow> list_all2 (\<lambda>t t'. task_id t' = task_id t \<and> description t' = description t \<and>
     dependencies t' = dependencies t \<and> forward (status t) (status t')) ts ts'"

text \<open>The operations that put a quest into the registry.\<close>

fun brings_in :: "string \<Rightarrow> engine_op \<Rightarrow> bool" where
  "brings_in q (CreateQuest s uuid ttg) = (''quest-'' @ uuid = q)"
| "brings_in q (RestoreCheckpoint env x) = (x = q)"
| "brings_in q op = False"

lemma forward_refl [simp]: "forward s s"
  by (cases s) simp_all

lemma forward_trans: "forward r s \<Longrightarrow> forward s t \<Longrightarrow> forward r t"
  by (cases r; cases s) auto

lemma advanced_refl [simp]: "advanced ts ts"
  by (simp add: advanced_def list_all2_same)

lemma advanced_trans: "advanced ts ts' \<Longrightarrow> advanced ts' ts'' \<Longrightarrow> advanced ts ts''"
  unfolding advanced_def by (rule list_all2_trans) (auto intro: forward_trans)

lemma advanced_status:
  "List.find (\<lambda>t. task_id t = i) ts = Some t \<Longrightarrow> is_valid_transition (status t) st \<Longrightarrow> advanced ts (set_status i st ts)"
proof (induction ts)
  case (Cons x xs)
  have "forward (status t) st" using Cons.prems(2) by (auto simp: is_valid_transition_def)
  then show ?case using Cons by (auto simp: advanced_def list_all2_same split: if_splits)
qed simp

lemma save_quests [simp]: "quests (fst (save_checkpoint mp env e q)) = quests e"
  by (auto simp: save_checkpoint_def split: option.split sum.split prod.split)

lemma auto_quests [simp]: "quests (auto_checkpoint mp env e q) = quests e"
  using save_quests [of mp env e q]
  by (cases "save_checkpoint mp env e q", cases "snd (save_checkpoint mp env e q)") (auto simp: auto_checkpoint_def)

lemma step_advances:
  assumes "\<not> brings_in q op" "quests (engine_step mp e op) q = Some qst'"
  shows "\<exists>qst. quests e q = Some qst \<and> advanced (tasks qst) (tasks qst')"
proof (cases op)
  case (UpdateTask env x i st)
  show ?thesis
  proof (cases rule: update_cases [of mp env e x i st])
    case (2 qst t ts e1 e2)
    have "quests (engine_step mp e op) = (quests e)(x \<mapsto> qst\<lparr>tasks := ts\<rparr>)" using 2(5-7) UpdateTask by simp
    then show ?thesis using assms(2) 2(1,4) advanced_status [OF 2(2,3)] by (auto split: if_splits)
  qed (use assms(2) UpdateTask in simp)
next
  case (CreateQuest s uuid ttg)
  then show ?thesis using assms
    by (auto simp: create_quest_def Let_def split: option.splits sum.splits if_splits)
next
  case (RestoreCheckpoint env x)
  then show ?thesis using assms
    by (auto simp: restore_from_checkpoint_def split: option.splits sum.splits if_splits)
next
  case (Control ev)
  then show ?thesis using assms(2) by (cases ev) (auto simp: engine_defs split: option.splits if_splits)
next
  case (SwitchMode x m gov)
  then show ?thesis using assms(2) by (auto simp: engine_defs split: option.splits sum.splits if_splits)
next
  case (AutoSelect x gov)
  then show ?thesis using assms(2) by (auto simp: engine_defs split: option.splits sum.splits if_splits)
next
  case (BudgetAdjusted x gov)
  then show ?thesis using assms(2) by (auto simp: engine_defs split: option.splits sum.splits if_splits)
qed (use assms in simp_all)

lemma run_advances:
  assumes "\<forall>op \<in> set ops. \<not> brings_in q op" "quests (foldl (engine_step mp) e ops) q = Some qst'"
  shows "\<exists>qst. quests e q = Some qst \<and> advanced (tasks qst) (tasks qst')"
  using assms
proof (induction ops arbitrary: qst' rule: rev_induct)
  case (snoc op ops)
  have "quests (engine_step mp (foldl (engine_step mp) e ops) op) q = Some qst'" "\<not> brings_in q op" using snoc.prems by simp_all
  then obtain mid where "quests (foldl (engine_step mp) e ops) q = Some mid" "advanced (tasks mid) (tasks qst')"
    using step_advances by blast
  then show ?case using snoc.IH [of mid] snoc.prems(1) advanced_trans by fastforce
qed simp

section \<open>What a crash loses\<close>

fun saving_env :: "engine_op \<Rightarrow> cp_env option" where
  "saving_env (UpdateTask env q i st) = Some env"
| "saving_env (SaveCheckpoint env q) = Some env"
| "saving_env op = None"

fun listing_env :: "engine_op \<Rightarrow> cp_env option" where
  "listing_env (RestoreCheckpoint env q) = Some env"
| "listing_env op = saving_env op"

definition lists_all :: "cp_env \<Rightarrow> bool" where
  "lists_all env \<longleftrightarrow> (\<forall>ns. mset (dir_order env ns) = mset ns)"

text \<open>The clock advances from save to save and identifiers are fresh; a directory listing has every name once.\<close>

definition ops_ok :: "engine_op list \<Rightarrow> bool" where
  "ops_ok ops \<longleftrightarrow> sorted_wrt (<) (map now (List.map_filter saving_env ops)) \<and>
     distinct (map fresh_uuid (List.map_filter saving_env ops)) \<and>
     (\<forall>op \<in> set ops. \<forall>env. listing_env op = Some env \<longrightarrow> lists_all env)"

definition saved_enough :: "msgpack \<Rightarrow> nat \<Rightarrow> checkpoint list \<Rightarrow> string \<Rightarrow> nat \<Rightarrow> bool" where
  "saved_enough mp k H q c \<longleftrightarrow> c < k \<or>
     (\<exists>cp rest qst. of_quest q H = cp # rest \<and> quest_from_slice mp (serialized_state cp) = Inr qst \<and>
        c div k * k \<le> completed_tasks (tasks qst))"

definition covered_by :: "msgpack \<Rightarrow> nat \<Rightarrow> checkpoint list \<Rightarrow> (string \<rightharpoonup> quest) \<Rightarrow> bool" where
  "covered_by mp k H m \<longleftrightarrow> (\<forall>q qst. m q = Some qst \<longrightarrow> saved_enough mp k H q (completed_tasks (tasks qst)))"

definition recoverable :: "msgpack \<Rightarrow> quest_config \<Rightarrow> nat \<Rightarrow> string set \<Rightarrow> checkpoint list \<Rightarrow> quest_engine \<Rightarrow> bool" where
  "recoverable mp cfg keep U H e \<longleftrightarrow> engine_ok mp cfg e \<and> checkpoint_manager e = Some keep \<and>
     store_inv mp keep U (cp_store e) H \<and> covered_by mp (unat (checkpoint_interval cfg)) H (quests e)"

definition cp_name :: "cp_env \<Rightarrow> string" where
  "cp_name env = ''cp-'' @ fresh_uuid env"

lemma store_inv_mono: "store_inv mp keep U d H \<Longrightarrow> U \<subseteq> V \<Longrightarrow> store_inv mp keep V d H"
  unfolding store_inv_def by (blast intro: dir_inv_mono)

lemma covered_upd:
  "covered_by mp k H m \<Longrightarrow> saved_enough mp k H q (completed_tasks (tasks qst)) \<Longrightarrow> covered_by mp k H (m(q \<mapsto> qst))"
  by (simp add: covered_by_def)

lemma covered_saved:
  assumes "covered_by mp k H (m(q := None))" "m q = Some qst" "cp_quest_id cp = q" "quest_from_slice mp (serialized_state cp) = Inr qst"
  shows "covered_by mp k (cp # H) m"
proof -
  have "saved_enough mp k (cp # H) q (completed_tasks (tasks qst))"
    using assms(3,4) by (simp add: saved_enough_def of_quest_Cons)
  moreover have "saved_enough mp k (cp # H) x c = saved_enough mp k H x c" if "x \<noteq> q" for x c
    using that assms(3) by (simp add: saved_enough_def of_quest_Cons)
  moreover have "saved_enough mp k H x (completed_tasks (tasks y))" if "m x = Some y" "x \<noteq> q" for x y
    using assms(1) that by (simp add: covered_by_def)
  ultimately show ?thesis unfolding covered_by_def using assms(2) by (metis option.inject)
qed

text \<open>One save, automatic or not, whether or not the quest at hand is covered before.\<close>

lemma engine_save:
  assumes mp: "msgpack_ok mp" and e: "engine_ok mp cfg e" "checkpoint_manager e = Some keep" "store_inv mp keep U (cp_store e) H"
    and new: "cp_name env \<notin> U" "\<forall>h \<in> set H. created_at h < now env" "lists_all env"
    and run: "save_checkpoint mp env e q = (e', r)"
  shows "case r of
      Inl _ \<Rightarrow> store_inv mp keep (insert (cp_name env) U) (cp_store e') H
    | Inr cp \<Rightarrow> store_inv mp keep (insert (cp_name env) U) (cp_store e') (cp # H) \<and> created_at cp = now env \<and> cp_quest_id cp = q \<and>
        (\<exists>qst. quests e q = Some qst \<and> quest_from_slice mp (serialized_state cp) = Inr qst)"
proof (cases "quests e q")
  case None
  then show ?thesis using run e(2,3) by (auto simp: save_checkpoint_def intro: store_inv_mono)
next
  case (Some qst)
  obtain d s where s: "save_cp mp env (cp_store e) keep qst = (d, s)" by force
  have id: "quest_id qst = q" using e(1) Some by (simp add: engine_ok_def quest_ok_def)
  have o: "mset (dir_order env ns) = mset ns" for ns using new(3) by (simp add: lists_all_def)
  note step = save_cp_step [OF mp o e(3) new(1) [unfolded cp_name_def] new(2) s]
  show ?thesis
  proof (cases s)
    case (Inl err)
    then show ?thesis using step run e(2) Some s by (auto simp: save_checkpoint_def cp_name_def)
  next
    case (Inr cp)
    then have "e' = publish_event (CheckpointSaved q (checkpoint_id cp) (memory_snapshot_hash cp)) (e\<lparr>cp_store := d\<rparr>)" "r = Inr cp"
      using run e(2) Some s by (simp_all add: save_checkpoint_def)
    then show ?thesis using step Inr Some id by (simp add: cp_name_def)
  qed
qed

lemma auto_fields:
  "checkpoint_manager (fst (save_checkpoint mp env e q)) = checkpoint_manager e"
  "autosave_warnings (fst (save_checkpoint mp env e q)) = autosave_warnings e"
  by (auto simp: save_checkpoint_def split: option.split sum.split prod.split)

lemma auto_warnings: "autosave_warnings e \<le> autosave_warnings (auto_checkpoint mp env e q)"
proof (cases "save_checkpoint mp env e q")
  case (Pair e' r)
  then have "autosave_warnings e' = autosave_warnings e" using auto_fields(2) [of mp env e q] by simp
  then show ?thesis using Pair by (cases r) (simp_all add: auto_checkpoint_def)
qed

lemma warnings_grow: "autosave_warnings e \<le> autosave_warnings (engine_step mp e op)"
proof (cases op)
  case (UpdateTask env q i st)
  show ?thesis
  proof (cases rule: update_cases [of mp env e q i st])
    case (2 qst t ts e1 e2)
    have "autosave_warnings e1 = autosave_warnings e" using 2(5) by simp
    then have "autosave_warnings e \<le> autosave_warnings e2" using 2(6) auto_warnings [of e1 mp env q] by simp
    then show ?thesis using 2(7) UpdateTask by simp
  qed (use UpdateTask in simp)
next
  case (Control ev)
  then show ?thesis by (cases ev) (auto simp: engine_defs split: option.split)
next
  case (CreateQuest s uuid ttg)
  then show ?thesis by (simp add: create_quest_def Let_def split: option.split sum.split)
next
  case (RestoreCheckpoint env q)
  then show ?thesis by (simp add: restore_from_checkpoint_def split: option.split sum.split)
qed (simp_all add: auto_fields engine_defs split: option.split sum.split)

lemma completed_set_status:
  assumes "List.find (\<lambda>t. task_id t = i) ts = Some t" "is_valid_transition (status t) st"
  shows "completed_tasks (set_status i st ts) = completed_tasks ts + of_bool (status t = TaskRunning \<and> st = TaskCompleted)"
  using assms
proof (induction ts)
  case (Cons x xs)
  then show ?case by (auto simp: completed_tasks_def is_valid_transition_def split: if_splits)
qed simp

lemma due_iff:
  assumes "c < 2 ^ 32" "0 < w"
  shows "0 < (of_nat c :: u32) \<and> (of_nat c :: u32) mod w = 0 \<longleftrightarrow> 0 < c \<and> c mod unat w = 0"
proof -
  have c: "unat (of_nat c :: u32) = c" using assms(1) by (simp add: unat_of_nat)
  have "(of_nat c :: u32) mod w = 0 \<longleftrightarrow> c mod unat w = 0" by (simp add: word_unat_eq_iff unat_mod_distrib c)
  moreover have "0 < (of_nat c :: u32) \<longleftrightarrow> 0 < c" by (simp add: word_less_nat_alt c)
  ultimately show ?thesis by simp
qed

lemma not_due:
  assumes "saved_enough mp k H q c" "c' = c \<or> c' = Suc c \<and> c' mod k \<noteq> 0"
  shows "saved_enough mp k H q c'"
proof (cases "c' = c")
  case False
  then have c': "c' = Suc c" "Suc c mod k \<noteq> 0" using assms(2) by auto
  then have "Suc c div k = c div k" by (simp add: div_Suc)
  moreover have "Suc c < k" if "c < k" using that c'(2) by (cases "Suc c = k") auto
  ultimately show ?thesis using assms(1) c'(1) by (auto simp: saved_enough_def)
qed (use assms in simp)

definition fresh_for :: "string set \<Rightarrow> checkpoint list \<Rightarrow> cp_env \<Rightarrow> bool" where
  "fresh_for U H env \<longleftrightarrow> cp_name env \<notin> U \<and> (\<forall>h \<in> set H. created_at h < now env) \<and> lists_all env"

lemma recoverable_mono: "recoverable mp cfg keep U H e \<Longrightarrow> U \<subseteq> V \<Longrightarrow> recoverable mp cfg keep V H e"
  by (auto simp: recoverable_def intro: store_inv_mono)

lemma update_recoverable:
  assumes mp: "msgpack_ok mp" and k: "0 < checkpoint_interval cfg" and e: "recoverable mp cfg keep U H e" and f: "fresh_for U H env"
    and e': "e' = fst (update_task_status mp env e q i st)" "autosave_warnings e' = autosave_warnings e"
  shows "\<exists>H'. recoverable mp cfg keep (insert (cp_name env) U) H' e' \<and> (H' = H \<or> (\<exists>cp. H' = cp # H \<and> created_at cp = now env))"
proof (cases rule: update_cases [of mp env e q i st])
  case (1 r)
  then show ?thesis using e e'(1) recoverable_mono [OF e, of "insert (cp_name env) U"] by auto
next
  case (2 qst t ts e1 e2)
  let ?k = "unat (checkpoint_interval cfg)" and ?c = "completed_tasks ts"
  have ok: "engine_ok mp cfg e" and man: "checkpoint_manager e = Some keep" and st: "store_inv mp keep U (cp_store e) H"
    and cov: "covered_by mp ?k H (quests e)" and cfg: "engine_config e = cfg"
    using e by (auto simp: recoverable_def engine_ok_def)
  have qok: "quest_ok cfg q qst" using ok 2(1) by (simp add: engine_ok_def)
  have ok1: "engine_ok mp cfg e1"
    using engine_ok_quest [OF ok quest_ok_status [OF qok 2(2,3)]] 2(4,5) by (simp add: engine_ok_def)
  have ok': "engine_ok mp cfg e'" using update_ok [OF mp ok] e'(1) by simp
  have e1: "quests e1 = (quests e)(q \<mapsto> qst\<lparr>tasks := ts\<rparr>)" "checkpoint_manager e1 = Some keep" "cp_store e1 = cp_store e"
    "autosave_warnings e1 = autosave_warnings e"
    using 2(5) man by simp_all
  have c: "?c = completed_tasks (tasks qst) + of_bool (status t = TaskRunning \<and> st = TaskCompleted)"
    using completed_set_status [OF 2(2,3)] 2(4) by simp
  have "?c \<le> length ts" by (simp add: completed_tasks_def)
  also have "\<dots> \<le> task_limit cfg" using qok 2(4) by (simp add: quest_ok_def set_status_nth(1))
  also have "\<dots> < 2 ^ 32" using unsigned_less [of "max_tasks_per_quest cfg"] by (simp add: task_limit_def)
  finally have "?c < 2 ^ 32" .
  note due = due_iff [OF this k]
  have e'f: "quests e' = quests e2" "checkpoint_manager e' = checkpoint_manager e2" "cp_store e' = cp_store e2"
    "autosave_warnings e' = autosave_warnings e2"
    using e'(1) 2(7) by simp_all
  show ?thesis
  proof (cases "st = TaskCompleted \<and> 0 < ?c \<and> ?c mod ?k = 0")
    case False
    then have "e2 = e1" using 2(6) due k cfg by auto
    moreover have "saved_enough mp ?k H q ?c"
    proof (rule not_due)
      show "saved_enough mp ?k H q (completed_tasks (tasks qst))" using cov 2(1) by (simp add: covered_by_def)
      show "?c = completed_tasks (tasks qst) \<or> ?c = Suc (completed_tasks (tasks qst)) \<and> ?c mod ?k \<noteq> 0" using c False by auto
    qed
    ultimately have "recoverable mp cfg keep U H e'"
      using ok' e1 e'f st covered_upd [OF cov] by (simp add: recoverable_def)
    then show ?thesis using recoverable_mono by blast
  next
    case True
    then have e2: "e2 = auto_checkpoint mp env e1 q" using 2(6) due k cfg by auto
    obtain e3 r where s: "save_checkpoint mp env e1 q = (e3, r)" by force
    have e3: "quests e3 = quests e1" "checkpoint_manager e3 = Some keep" "autosave_warnings e3 = autosave_warnings e1"
      using save_quests [of mp env e1 q] auto_fields [of mp env e1 q] s e1 by simp_all
    have store: "store_inv mp keep U (cp_store e1) H" using st e1 by simp
    have new: "cp_name env \<notin> U" "\<forall>h \<in> set H. created_at h < now env" "lists_all env" using f by (simp_all add: fresh_for_def)
    note saved = engine_save [OF mp ok1 e1(2) store new s]
    show ?thesis
    proof (cases r)
      case (Inl err)
      then have "autosave_warnings e2 = autosave_warnings e + 1" using e2 s e3 e1 by (simp add: auto_checkpoint_def)
      then show ?thesis using e'(2) e'f(4) by simp
    next
      case (Inr cp)
      then have "e2 = e3" using e2 s by (simp add: auto_checkpoint_def)
      have "covered_by mp ?k H ((quests e1)(q := None))" using cov e1 by (auto simp: covered_by_def)
      then have "covered_by mp ?k (cp # H) (quests e1)"
        using covered_saved [of mp ?k H "quests e1" q _ cp] saved Inr by auto
      then have "recoverable mp cfg keep (insert (cp_name env) U) (cp # H) e'"
        using ok' e'f e3 \<open>e2 = e3\<close> saved Inr by (simp add: recoverable_def)
      then show ?thesis using saved Inr by auto
    qed
  qed
qed

definition names_of :: "engine_op \<Rightarrow> string set" where
  "names_of op = (case saving_env op of None \<Rightarrow> {} | Some env \<Rightarrow> {cp_name env})"

lemma same_files_recoverable:
  assumes "msgpack_ok mp" "recoverable mp cfg keep U H e" "cp_store (engine_step mp e op) = cp_store e"
    "checkpoint_manager (engine_step mp e op) = checkpoint_manager e"
    "\<And>q qst'. quests (engine_step mp e op) q = Some qst' \<Longrightarrow>
       saved_enough mp (unat (checkpoint_interval cfg)) H q (completed_tasks (tasks qst'))"
  shows "recoverable mp cfg keep U H (engine_step mp e op)"
  using assms engine_ok_step by (simp add: recoverable_def covered_by_def)

lemma restore_recoverable:
  assumes mp: "msgpack_ok mp" and keep: "0 < keep" and e: "recoverable mp cfg keep U H e" and l: "lists_all env"
  shows "recoverable mp cfg keep U H (fst (restore_from_checkpoint mp env e q))"
proof -
  let ?e' = "engine_step mp e (RestoreCheckpoint env q)"
  have st: "store_inv mp keep U (cp_store e) H" and man: "checkpoint_manager e = Some keep"
    and cov: "covered_by mp (unat (checkpoint_interval cfg)) H (quests e)"
    using e by (auto simp: recoverable_def)
  have latest: "of_quest q H = cp # tl (of_quest q H)" if "load_latest mp env (cp_store e) q = Inr (Some cp)" for cp
  proof -
    have "\<not> list_fails env" using that by (auto simp: load_latest_def split: option.splits if_splits)
    then show ?thesis using latest_of_history [OF keep st, of env q] l that by (auto simp: lists_all_def split: list.splits)
  qed
  have "saved_enough mp (unat (checkpoint_interval cfg)) H x (completed_tasks (tasks y))" if y: "quests ?e' x = Some y" for x y
  proof (cases "quests e x = Some y")
    case False
    then obtain cp where "x = q" "load_latest mp env (cp_store e) q = Inr (Some cp)" "quest_from_slice mp (serialized_state cp) = Inr y"
      using y man by (auto simp: restore_from_checkpoint_def split: option.splits sum.splits if_splits)
    then show ?thesis using latest [of cp] by (auto simp: saved_enough_def)
  qed (use cov in \<open>auto simp: covered_by_def\<close>)
  then show ?thesis
    using same_files_recoverable [OF mp e, of "RestoreCheckpoint env q"]
    by (simp add: restore_from_checkpoint_def split: option.split sum.split)
qed

lemma step_recoverable:
  assumes mp: "msgpack_ok mp" and k: "0 < checkpoint_interval cfg" and keep: "0 < keep" and e: "recoverable mp cfg keep U H e"
    and f: "\<And>env. saving_env op = Some env \<Longrightarrow> fresh_for U H env" and l: "\<And>env. listing_env op = Some env \<Longrightarrow> lists_all env"
    and w: "autosave_warnings (engine_step mp e op) = autosave_warnings e"
  shows "\<exists>H'. recoverable mp cfg keep (U \<union> names_of op) H' (engine_step mp e op) \<and>
    (H' = H \<or> (\<exists>cp env. saving_env op = Some env \<and> H' = cp # H \<and> created_at cp = now env))"
proof -
  let ?k = "unat (checkpoint_interval cfg)"
  have cov: "saved_enough mp ?k H q (completed_tasks (tasks qst))" if "quests e q = Some qst" for q qst
    using e that by (simp add: recoverable_def covered_by_def)
  have kept: "\<exists>H'. recoverable mp cfg keep (U \<union> names_of op) H' (engine_step mp e op) \<and>
      (H' = H \<or> (\<exists>cp env. saving_env op = Some env \<and> H' = cp # H \<and> created_at cp = now env))"
    if "recoverable mp cfg keep U H (engine_step mp e op)"
    using that recoverable_mono [OF that, of "U \<union> names_of op"] by blast
  show ?thesis
  proof (cases op)
    case (UpdateTask env q i st)
    then show ?thesis using update_recoverable [OF mp k e, of env _ q i st] f [of env] w by (auto simp: names_of_def)
  next
    case (SaveCheckpoint env q)
    have e0: "engine_ok mp cfg e" "checkpoint_manager e = Some keep" "store_inv mp keep U (cp_store e) H"
      "covered_by mp ?k H ((quests e)(q := None))" using e by (auto simp: recoverable_def covered_by_def)
    have new: "cp_name env \<notin> U" "\<forall>h \<in> set H. created_at h < now env" "lists_all env"
      using f [of env] SaveCheckpoint by (simp_all add: fresh_for_def)
    obtain e' r where s: "save_checkpoint mp env e q = (e', r)" by force
    note saved = engine_save [OF mp e0(1-3) new s]
    have e': "engine_ok mp cfg e'" "quests e' = quests e" "checkpoint_manager e' = Some keep"
      using save_checkpoint_ok [OF mp e0(1), of env q] auto_fields(1) [of mp env e q] e0(2) s by simp_all
    show ?thesis
    proof (cases r)
      case (Inl err)
      then have "recoverable mp cfg keep (insert (cp_name env) U) H e'" using saved e' e by (simp add: recoverable_def)
      then show ?thesis using SaveCheckpoint s by (auto simp: names_of_def)
    next
      case (Inr cp)
      then have "covered_by mp ?k (cp # H) (quests e)" using covered_saved [OF e0(4)] saved by auto
      then have "recoverable mp cfg keep (insert (cp_name env) U) (cp # H) e'" using saved e' Inr by (simp add: recoverable_def)
      then show ?thesis using SaveCheckpoint s saved Inr by (auto simp: names_of_def)
    qed
  next
    case (RestoreCheckpoint env q)
    then show ?thesis using restore_recoverable [OF mp keep e, of env q] l [of env] kept by simp
  next
    case (CreateQuest s uuid ttg)
    have "completed_tasks (decompose c s) = 0" for c using decompose_ok [of c s] by (auto simp: completed_tasks_def filter_empty_conv)
    moreover have "0 < ?k" using k by (simp add: unat_gt_0)
    ultimately show ?thesis using CreateQuest cov
      by (intro kept same_files_recoverable [OF mp e])
        (auto simp: create_quest_def Let_def saved_enough_def split: option.splits sum.splits if_splits)
  next
    case (Control ev)
    then show ?thesis using cov
      by (intro kept same_files_recoverable [OF mp e]; cases ev) (auto simp: engine_defs split: option.splits if_splits)
  next
    case (SwitchMode q m gov)
    then show ?thesis using cov
      by (intro kept same_files_recoverable [OF mp e]) (auto simp: engine_defs split: option.splits sum.splits if_splits)
  next
    case (AutoSelect q gov)
    then show ?thesis using cov
      by (intro kept same_files_recoverable [OF mp e]) (auto simp: engine_defs split: option.splits sum.splits if_splits)
  next
    case (BudgetAdjusted q gov)
    then show ?thesis using cov
      by (intro kept same_files_recoverable [OF mp e]) (auto simp: engine_defs split: option.splits sum.splits if_splits)
  qed (use cov in \<open>(intro kept same_files_recoverable [OF mp e]; simp)+\<close>)
qed

lemma warnings_run: "autosave_warnings e \<le> autosave_warnings (foldl (engine_step mp) e ops)"
proof (induction ops arbitrary: e)
  case (Cons op ops)
  then show ?case using warnings_grow [of e mp op] order_trans by fastforce
qed simp

lemma run_recoverable:
  assumes mp: "msgpack_ok mp" and k: "0 < checkpoint_interval cfg" and keep: "0 < keep" and "recoverable mp cfg keep U H e" "ops_ok ops"
    "\<forall>env \<in> set (List.map_filter saving_env ops). cp_name env \<notin> U \<and> (\<forall>h \<in> set H. created_at h < now env)"
    "autosave_warnings (foldl (engine_step mp) e ops) = autosave_warnings e"
  shows "\<exists>V H'. recoverable mp cfg keep V H' (foldl (engine_step mp) e ops)"
  using assms(4-)
proof (induction ops arbitrary: U H e)
  case (Cons op ops)
  let ?e = "engine_step mp e op"
  have w: "autosave_warnings ?e = autosave_warnings e"
    using warnings_grow [of e mp op] warnings_run [of ?e mp ops] Cons.prems(4) by simp
  have l: "lists_all env" if "listing_env op = Some env" for env using Cons.prems(2) that by (simp add: ops_ok_def)
  have f: "fresh_for U H env" if "saving_env op = Some env" for env
  proof -
    have "listing_env op = Some env" using that by (cases op) simp_all
    then show ?thesis using Cons.prems(3) that l by (simp add: fresh_for_def)
  qed
  obtain H' where H': "recoverable mp cfg keep (U \<union> names_of op) H' ?e"
    "H' = H \<or> (\<exists>cp env. saving_env op = Some env \<and> H' = cp # H \<and> created_at cp = now env)"
    using step_recoverable [OF mp k keep Cons.prems(1) f l w] by blast
  have ok: "ops_ok ops" using Cons.prems(2) by (cases "saving_env op") (simp_all add: ops_ok_def)
  have apart: "now a < now b \<and> cp_name a \<noteq> cp_name b"
    if "saving_env op = Some a" "b \<in> set (List.map_filter saving_env ops)" for a b
    using Cons.prems(2) that by (force simp: ops_ok_def cp_name_def)
  have "cp_name env \<notin> U \<union> names_of op \<and> (\<forall>h \<in> set H'. created_at h < now env)"
    if "env \<in> set (List.map_filter saving_env ops)" for env
  proof -
    have "env \<in> set (List.map_filter saving_env (op # ops))" using that by (simp split: option.split)
    then have "cp_name env \<notin> U \<and> (\<forall>h \<in> set H. created_at h < now env)" using Cons.prems(3) by blast
    then show ?thesis using H'(2) apart [OF _ that] by (auto simp: names_of_def split: option.split)
  qed
  then show ?case using Cons.IH [OF H'(1) ok] Cons.prems(4) w by simp
qed auto

section \<open>A quest of one task\<close>

definition demo_cfg :: quest_config where
  "demo_cfg = \<lparr>max_tasks_per_quest = 16, checkpoint_interval = 1\<rparr>"

definition demo_intent :: string where "demo_intent = ''build. ''"

definition demo_task :: "task_status \<Rightarrow> task" where
  "demo_task st = \<lparr>task_id = ''task-0'', description = ''build'', status = st, dependencies = []\<rparr>"

definition demo_build :: "task_status \<Rightarrow> quest" where
  "demo_build st = \<lparr>quest_id = ''quest-u'', title = ''build'', tasks = [demo_task st],
     thinking_mode = Standard, quest_checkpoint_id = None, priority = 128\<rparr>"

definition build_cp :: checkpoint where
  "build_cp = checkpoint_new 2 ''quest-u'' ''cp-b'' ''h'' [1]"

text \<open>A codec that knows one quest and one checkpoint.\<close>

definition build_mp :: msgpack where
  "build_mp =
     \<lparr>quest_to_vec = \<lambda>q. if q = demo_build TaskCompleted then Inr [1] else Inl ''quest'',
      quest_from_slice = \<lambda>bs. if bs = [1] then Inr (demo_build TaskCompleted) else Inl ''quest'',
      cp_to_vec = \<lambda>cp. if cp = build_cp then Inr [1] else Inl ''cp'',
      cp_from_slice = \<lambda>bs. if bs = [1] then Inr build_cp else Inl ''cp'',
      sha256_hex = \<lambda>_. ''h'', cp_lossy = \<lambda>_. '''', cp_lowercase = \<lambda>_. ''''\<rparr>"

definition demo_ops :: "engine_op list" where
  "demo_ops = [CreateQuest demo_intent ''u'' None, UpdateTask (demo_cp_env 1 8) ''quest-u'' ''task-0'' TaskRunning,
     UpdateTask (demo_cp_env 2 8) ''quest-u'' ''task-0'' TaskCompleted]"

lemma build_mp_ok: "msgpack_ok build_mp"
  by (simp add: msgpack_ok_def build_mp_def split: if_splits)

lemma demo_ops_ok: "ops_ok demo_ops"
  by (simp add: ops_ok_def demo_ops_def demo_cp_env_def demo_uuid_def lists_all_def)

lemma demo_sentences: "split_sentences demo_intent = [''build'']" "extract_title demo_intent = ''build''"
  by (code_simp, code_simp)

lemma demo_created: "fst (create_quest (engine_new demo_cfg (Some 2) Map.empty) demo_intent ''u'' None) =
    publish_event (QuestCreated ''quest-u'' ''build'' 1) ((engine_new demo_cfg (Some 2) Map.empty)\<lparr>quests := [''quest-u'' \<mapsto> demo_build TaskPending]\<rparr>)"
proof -
  have "decompose demo_cfg demo_intent = [demo_task TaskPending]"
    by (simp add: decompose_def demo_sentences Let_def demo_cfg_def demo_task_def task_zero)
  moreover have "validate_dag [demo_task TaskPending] = Some (Inr ())"
    by (rule chain_accepted) (simp add: chain_def demo_task_def task_zero)
  ultimately show ?thesis by (simp add: create_quest_def engine_new_def Let_def demo_sentences demo_build_def)
qed

lemma demo_running: "fst (update_task_status build_mp (demo_cp_env 1 8)
      (publish_event ev ((engine_new demo_cfg (Some 2) Map.empty)\<lparr>quests := [''quest-u'' \<mapsto> demo_build TaskPending]\<rparr>)) ''quest-u'' ''task-0'' TaskRunning) =
    publish_event (QuestProgressUpdated ''quest-u'' 0 1)
      (publish_event ev ((engine_new demo_cfg (Some 2) Map.empty)\<lparr>quests := [''quest-u'' \<mapsto> demo_build TaskRunning]\<rparr>))"
  by (simp add: update_task_status_def demo_build_def demo_task_def is_valid_transition_def all_terminal_def completed_tasks_def
    Let_def publish_event_def)

lemma demo_save: "save_cp build_mp (demo_cp_env 2 8) Map.empty 2 (demo_build TaskCompleted) =
    ([''quest-u'' \<mapsto> [(''cp-b.bin'', [1])]], Inr build_cp)"
proof -
  have "quest_to_vec build_mp (demo_build TaskCompleted) = Inr [1]" "sha256_hex build_mp [1] = ''h''"
    "now (demo_cp_env 2 8) = 2" "quest_id (demo_build TaskCompleted) = ''quest-u''" "fresh_uuid (demo_cp_env 2 8) = ''b''"
    by (simp_all add: build_mp_def demo_cp_env_def demo_build_def demo_uuid_def)
  then have "save_cp build_mp (demo_cp_env 2 8) Map.empty 2 (demo_build TaskCompleted) =
      save_blocking build_mp (demo_cp_env 2 8) Map.empty 2 build_cp"
    by (simp add: save_cp_def build_cp_def)
  also have "\<dots> = ([''quest-u'' \<mapsto> [(''cp-b.bin'', [1])]], Inr build_cp)"
    by (simp add: save_blocking_def build_mp_def build_cp_def checkpoint_new_def demo_cp_env_def prune_old_def bin_ids_def
        split_at_dot_def bin_name_def Let_def)
  finally show ?thesis .
qed

lemma demo_finish:
  assumes "e = publish_event p (publish_event ev ((engine_new demo_cfg (Some 2) Map.empty)\<lparr>quests := [''quest-u'' \<mapsto> demo_build TaskRunning]\<rparr>))"
    and "e' = fst (update_task_status build_mp (demo_cp_env 2 8) e ''quest-u'' ''task-0'' TaskCompleted)"
  shows "quests e' = [''quest-u'' \<mapsto> demo_build TaskCompleted]" "autosave_warnings e' = 0"
    "cp_store e' = [''quest-u'' \<mapsto> [(''cp-b.bin'', [1])]]" "checkpoint_manager e' = Some 2"
proof -
  have b: "demo_build TaskRunning\<lparr>tasks := [demo_task TaskCompleted]\<rparr> = demo_build TaskCompleted"
    "tasks (demo_build TaskRunning) = [demo_task TaskRunning]" by (simp_all add: demo_build_def)
  have t: "status (demo_task st) = st" "task_id (demo_task st) = ''task-0''" "demo_task TaskRunning\<lparr>status := st\<rparr> = demo_task st" for st
    by (simp_all add: demo_task_def)
  have "e' = complete_quest (auto_checkpoint build_mp (demo_cp_env 2 8)
      (publish_event (QuestProgressUpdated ''quest-u'' 1 1) (e\<lparr>quests := [''quest-u'' \<mapsto> demo_build TaskCompleted]\<rparr>)) ''quest-u'') ''quest-u''"
    unfolding assms by (simp add: update_task_status_def b t is_valid_transition_def completed_tasks_def all_terminal_def Let_def
      engine_new_def demo_cfg_def)
  then show "quests e' = [''quest-u'' \<mapsto> demo_build TaskCompleted]" "autosave_warnings e' = 0"
    "cp_store e' = [''quest-u'' \<mapsto> [(''cp-b.bin'', [1])]]" "checkpoint_manager e' = Some 2"
    by (simp_all add: auto_checkpoint_def save_checkpoint_def assms(1) engine_new_def demo_save)
qed

lemma demo_engine:
  defines "e \<equiv> foldl (engine_step build_mp) (engine_new demo_cfg (Some 2) Map.empty) demo_ops"
  shows "quests e = [''quest-u'' \<mapsto> demo_build TaskCompleted]" "autosave_warnings e = 0"
    "cp_store e = [''quest-u'' \<mapsto> [(''cp-b.bin'', [1])]]" "checkpoint_manager e = Some 2"
  using demo_finish [OF refl refl] by (simp_all add: e_def demo_ops_def demo_created demo_running)

section \<open>Properties\<close>



text \<open>
  C13: tasks only move forward. Between two moments of a run in which a quest is neither created anew nor
  restored from a checkpoint, its tasks keep names, texts and dependencies, and each task stays in
  its state or moves from pending to running and from running to completed or failed.
\<close>

theorem tasks_move_forward:
  assumes "quests e q = Some qst" "\<forall>op \<in> set ops. \<not> brings_in q op" "quests (foldl (engine_step mp) e ops) q = Some qst'"
  shows "advanced (tasks qst) (tasks qst')"
  using run_advances [OF assms(2,3)] assms(1) by auto

theorem tasks_move_forward_witness:
  "advanced [demo_task TaskPending] [demo_task TaskCompleted]"
proof -
  let ?e = "fst (create_quest (engine_new demo_cfg (Some 2) Map.empty) demo_intent ''u'' None)"
  have "quests ?e ''quest-u'' = Some (demo_build TaskPending)" by (simp add: demo_created)
  moreover have "\<forall>op \<in> set (tl demo_ops). \<not> brings_in ''quest-u'' op" by (simp add: demo_ops_def)
  moreover have "quests (foldl (engine_step build_mp) ?e (tl demo_ops)) ''quest-u'' = Some (demo_build TaskCompleted)"
    using demo_engine(1) by (simp add: demo_ops_def)
  ultimately have "advanced (tasks (demo_build TaskPending)) (tasks (demo_build TaskCompleted))" by (rule tasks_move_forward)
  then show ?thesis by (simp add: demo_build_def)
qed



section \<open>Completion is reported again\<close>

text \<open>A task that is completed may be reported completed again; the whole quest is then announced as executed once more.\<close>

lemma completion_reported_again:
  assumes "quests e q = Some qst" "List.find (\<lambda>t. task_id t = i) (tasks qst) = Some t" "status t = TaskCompleted" "all_terminal (tasks qst)"
  shows "snd (update_task_status mp env e q i TaskCompleted) = Inr () \<and>
    last (emitted (fst (update_task_status mp env e q i TaskCompleted))) = ExecutionCompleted q (simple_hash q)"
proof -
  have v: "is_valid_transition (status t) TaskCompleted" using assms(3) by (simp add: is_valid_transition_def)
  have "all_terminal (set_status i TaskCompleted (tasks qst))"
    using assms(4) set_status_nth(3) by (fastforce simp: all_terminal_def list_all_iff)
  then show ?thesis
    using assms(1,2) v by (simp add: update_task_status_def Let_def complete_quest_def)
qed

end
