(* ===== verification/Spec2Isabelle.thy ===== *)
theory Spec2Isabelle
  imports Writer_Props Sched_Concurrent Sched_Shadow Mesh_Safety Mesh_Endpoint Fork_Replay Session_Rebuild Audit_Chain Exec_Policy Causal Quest_Dag Sse_Stream Conversation Capability Shadow_Breaker Event_Bus Quest_Engine
begin

text \<open>
  The control plane of the Chimera CLI, as Isabelle definitions translated from \<^verbatim>\<open>src/crates\<close>, with
  the theorems that make it correct. Each definition bears the name of the Rust item it models, up to
  a suffix or prefix where the name is taken.

  \<^bold>\<open>The program's parts and their theories.\<close> The command line plans a user intent as a graph of tasks,
  schedules the tasks on peer agents, checks every command against a policy, records every execution
  in an audit chain and every session event in a log on disk; components talk over an event bus.

  \<^item> \<^verbatim>\<open>Prelude\<close>: machine integers, results, little-endian bytes, and the contract of a state machine with
    an invariant, which schedulers, audit chain, server registry, token registry, bus and quest engine interpret.
  \<^item> \<^verbatim>\<open>Sched_Governor\<close> (mas-sched/broker_guardrail.rs): the claim-rate guard. \<^verbatim>\<open>Sched\<close> (mas-sched/scheduler.rs,
    nexus-contracts/scheduler_contract.rs): the lease table with its quota counters; the three locks are
    taken one after the other, and this theory runs each method at once. \<^verbatim>\<open>Sched_Concurrent\<close> splits
    \<^verbatim>\<open>claim\<close> at its lock boundaries and interleaves threads. \<^verbatim>\<open>Sched_Shadow\<close> (shadow.rs, claim_pilot.rs): the
    recording wrapper over any scheduler, its replay gate, and the broker of the pilot.
  \<^item> \<^verbatim>\<open>Quest_Dag\<close> (quest-engine/dag.rs): Kahn's algorithm over the task graph. \<^verbatim>\<open>Checkpoint\<close> (quest-engine/checkpoint.rs): the
    checkpoints of quests over a directory of files. \<^verbatim>\<open>Quest_Engine\<close> (quest-engine/engine.rs, control.rs): the registry of
    quests, their tasks and automatic checkpoints.
  \<^item> \<^verbatim>\<open>Exec_Policy\<close> (seccore/execpolicy.rs): glob matcher, rule engine, the six permission modes, decision
    counters, single-use tokens. \<^verbatim>\<open>Merkle\<close> and \<^verbatim>\<open>Audit_Chain\<close> (seccore/merkle.rs, audit.rs): the hash tree
    and the chain of audit blocks.
  \<^item> \<^verbatim>\<open>Sensitive\<close> (nexus-contracts/sensitive.rs): the scanner every write point calls. \<^verbatim>\<open>Segment\<close>
    (session-store/segment.rs): framed records on the bytes of one file, with write faults and recovery.
    \<^verbatim>\<open>Replay\<close> (session-store/replay.rs): the k-way merge over the segments of a session.
    \<^verbatim>\<open>Session_Tree\<close> (session-store/tree.rs): the index over the segments, its two tables as lists of rows,
    forks, lineage queries and rebuild; \<^verbatim>\<open>Session_Fork\<close>, \<^verbatim>\<open>Session_Rebuild\<close> and \<^verbatim>\<open>Fork_Replay\<close> (which joins index and
    merge) hold its theorems. \<^verbatim>\<open>Session_Writer\<close> (session-store/writer.rs): the batching writer over files and
    index; \<^verbatim>\<open>Writer_Log\<close> (the log of one session under a flush), \<^verbatim>\<open>Writer_Store\<close> (the invariant of the whole store)
    and \<^verbatim>\<open>Writer_Props\<close> hold its theorems.
  \<^item> \<^verbatim>\<open>Mesh_Wal\<close>, \<^verbatim>\<open>Mesh_Tx\<close>, \<^verbatim>\<open>Mesh_Safety\<close> (mcp-mesh/mesh.rs, quantum/transaction.rs, quantum/wal.rs): the
    two-phase commit over the servers of the tool mesh, its write-ahead log, recovery and
    compensation. A phase is the list of its effects, so that a timeout or a crash is a prefix of it.
    \<^verbatim>\<open>Mesh_Registry\<close> and \<^verbatim>\<open>Mesh_Endpoint\<close> (mcp-mesh/server_registry.rs and the check before a
    connection in quantum/participant_client.rs): the registry of servers and the check of their endpoints,
    with the address parser of the Rust standard library written out.
  \<^item> \<^verbatim>\<open>Sse\<close>, \<^verbatim>\<open>Sse_Stream\<close> (mca-gateway/sse.rs): the parser of server-sent events and the normaliser of
    three provider dialects to one event type. \<^verbatim>\<open>Conversation\<close> (mca-gateway/token_estimate.rs,
    conversation_trim.rs): token estimates and the trimming of a conversation to a budget.
  \<^item> \<^verbatim>\<open>Float32\<close>: rounding to single precision. \<^verbatim>\<open>Capability\<close> (nexus-contracts/capability_token.rs,
    decay-engine/capability_registry.rs): the tokens that gate learned policies, and their registry.
    \<^verbatim>\<open>Shadow_Breaker\<close> (decay-engine/shadow_breaker.rs): the fail-closed gate of learned updates.
  \<^item> \<^verbatim>\<open>Event_Bus\<close> (event-bus/bus.rs, shard.rs, credit_flow.rs, backpressure.rs): publishing, sharding and
    the credits, with publishers and shard workers interleaved at their atomic accesses.
  \<^item> \<^verbatim>\<open>Causal\<close> (event-bus/causal.rs): vector clocks and the causal delivery buffer.

  \<^bold>\<open>Correspondence.\<close> A struct is a record, an enum a datatype, a method a function from the state to
  the state and the result; a panic-free early return is a branch. A \<^verbatim>\<open>HashMap\<close> is a map (or an
  association list where the order of iteration shows), a \<^verbatim>\<open>BTreeMap\<close> a sorted association list, an atomic
  counter or a locked field the value it guards. Widths are kept where the arithmetic can wrap or
  saturate (window counters, pilot counters, quota); counters that the code widens to \<^verbatim>\<open>u64\<close> and that
  only count calls or records are natural numbers. The clock is an argument of every operation that
  reads it. Strings are lists of bytes.

  \<^bold>\<open>Parameters.\<close> Third-party and Unicode code is an argument: SHA-256 (any function from bytes to
  strings), \<^verbatim>\<open>serde_json\<close> (the record \<^verbatim>\<open>codec\<close>, with the hypothesis that decoding an encoded record
  returns it, where a theorem needs it; \<^verbatim>\<open>wal_codec\<close> likewise), the answers of
  remote participants and the order in which they arrive (the record \<^verbatim>\<open>network\<close>), \<^verbatim>\<open>str::to_lowercase\<close>, UTF-8 repair (the record \<^verbatim>\<open>text_lib\<close> of the stream
  parser), JSON access (the record \<^verbatim>\<open>json_api\<close>), generated identifiers, the time
  stamps, MessagePack (the record \<^verbatim>\<open>msgpack\<close>), the answers of the operating system to a save (\<^verbatim>\<open>cp_env\<close>), the
  decisions of the thinking-mode governor, and the length of the broadcast channel at the moments the bus samples it. A SQL statement is written out as the list function it denotes.
  Collision resistance is never assumed: the binding theorems exhibit a collision.

  \<^bold>\<open>Lemma groups.\<close> The session log: crash safety
  (C1), reading back (C27), the merge of the segments
  (C6); forks in the index and in the replay (C15, C16), and its rebuild
  (C28); the writer in front of both: what a flush does (C2), a restart
  (C5), when a flush returns and what a failed one loses (C25, C26). The tool mesh: agreement and crash atomicity of two-phase commit
  (C4, C3); the endpoints of its servers
  (lemmas of \<^verbatim>\<open>Mesh_Endpoint\<close>). The scheduler: window bound, counters equal
  leases, the decision table, the refinement of \<^verbatim>\<open>claim\<close> by its lock-by-lock steps and the
  race they admit, the replay gate (C29 to C32, C7). Hash tree and
  audit chain: binding up to collisions and the chain invariant (C14,
  C33). Then the task graph, the policy (the dynamic program equals the recursive glob
  language), clocks and buffer, the scanner, the model gateway (chunk independence, frames and tool calls of a stream:
  C17 to C19; the capability tokens (well-formedness, cooldown, progress: C21 to C23) and the breaker
  (C24), trimming equals greedy selection: C20), the bus under interleaving (nothing is lost or sent twice, credits return, order of the single
  stream: C8 to C10), quests and checkpoints (what a crash loses, which checkpoints
  are kept and loaded, the states of tasks: C11 to C13, C34, C35), and in this theory the join of scanner and segment file.
  Each theory also has the lemmas on the remaining branches that are not listed as properties.

  \<^bold>\<open>Interfaces.\<close> \<^verbatim>\<open>invariant_system\<close> is the contract of a state machine,
  \<^verbatim>\<open>peer_scheduler\<close> that of the scheduler trait its clients rely on, \<^verbatim>\<open>framing\<close> that of a
  self-delimiting frame format, \<^verbatim>\<open>incremental\<close> that of a cutter of frames from a growing buffer and \<^verbatim>\<open>min_heap\<close> that of a priority queue; each is interpreted on the
  model of the code, and the properties rest on the interpreted facts.

  \<^bold>\<open>Termination and fuel.\<close> Loops with a decreasing measure are functions with a termination proof (the
  recovery scan and the reader shrink the unread bytes, the tree reduction the layer, the merge the
  unread records). The loop of a flush need not end, so it is a \<^verbatim>\<open>partial_function\<close>, and C25 says when it does. The queue loop of Kahn's algorithm runs on one round per task and one more, which C37
  shows is enough: every round moves one identifier to the order, and identifiers never repeat.

  \<^bold>\<open>Not modelled.\<close> Floating-point scores other than the levels of capability tokens (risk, decay, affinity, embeddings), the
  scheduler and the channels of tokio themselves, operating-system sandboxing, terminal interfaces and serialisation formats. Within
  the modelled files: \<^verbatim>\<open>add_asa_audit\<close> and the hash of its result, the out-of-order ratio of the replay,
  directory listing and path building, display and debug formats.

  \<^bold>\<open>Left for an extension.\<close> The quota contracts of the
  gateway, the thinking-mode governor (floating point), the interleaving of calls of the quest engine, whose
  \<^verbatim>\<open>wal.rs\<close> is not a module of its crate, the wait for credits with a deadline and the receivers of the bus: the last two depend on the
  wake-up rules of tokio, which are not part of the repository.
\<close>

section \<open>Properties across components\<close>

text \<open>
  C40: the scanner guards the disk. Whatever batch is appended to a segment, and whether it succeeds, is
  refused or fails in the middle of its write, the bytes it adds to the file are a part of frames whose
  text contains no private-key, cloud-credential or service-token marker.
\<close>

theorem no_marker_reaches_disk:
  assumes "pos w = length (content w)" "append_batch cd w evs fault = (w', r)"
  shows "\<exists>bodies j. content w' = content w @ take j (concat (map frame bodies)) \<and>
    (\<forall>b \<in> set bodies. \<forall>m \<in> set (PRIVATE_KEY_MARKERS @ CLOUD_CRED_MARKERS @ SERVICE_TOKEN_MARKERS).
       \<not> sublist m (to_lowercase cd (utf8_lossy cd b)))"
  using assms
proof (cases rule: append_batch_bytes)
  case 1
  then show ?thesis by (intro exI [of _ "[]"] exI [of _ 0]) simp
next
  case (2 j)
  let ?bs = "map (body cd) (records_of (next_seq w) (row w) evs)"
  have "\<forall>b \<in> set ?bs. \<not> blocked_json cd b" using 2(4) by simp
  then have "\<forall>b \<in> set ?bs. \<forall>m \<in> set (PRIVATE_KEY_MARKERS @ CLOUD_CRED_MARKERS @ SERVICE_TOKEN_MARKERS).
      \<not> sublist m (to_lowercase cd (utf8_lossy cd b))"
    unfolding blocked_json_def write_scan_blocks by blast
  moreover have "content w' = content w @ take j (concat (map frame ?bs))" using 2(1) by (simp only: file_of_def)
  ultimately show ?thesis by blast
qed

theorem no_marker_reaches_disk_witness:
  "\<exists>bodies j. content (fst (append_batch plain_codec demo_writer [plain_event ''hi''] (WriteFails 9))) =
      content demo_writer @ take j (concat (map frame bodies)) \<and>
    (\<forall>b \<in> set bodies. \<forall>m \<in> set (PRIVATE_KEY_MARKERS @ CLOUD_CRED_MARKERS @ SERVICE_TOKEN_MARKERS).
       \<not> sublist m (to_lowercase plain_codec (utf8_lossy plain_codec b)))"
proof -
  have "pos demo_writer = length (content demo_writer)" by (simp add: demo_writer_def)
  from no_marker_reaches_disk [OF this, of plain_codec "[plain_event ''hi'']" "WriteFails 9"] show ?thesis by (metis prod.collapse)
qed

end
